(* ===== verification/Prelude.thy ===== *)
theory Prelude
  imports Main "HOL-Library.Word" "HOL-Library.Char_ord" "HOL-Library.While_Combinator"
    "HOL-Library.Monad_Syntax" "HOL-Library.Sublist"
begin

text \<open>
  Shared vocabulary of the development: names for the machine integers of the C++ sources,
  the lemma collections the component theories fill, and the facts about words, lists and
  options that more than one component needs.

  The containers of the sources (\<open>cc::OsPagedVector\<close>, \<open>std::vector\<close>) are lists. What the
  sources rely on of the external \<open>cc::OsPagedVector\<close> is the contract \<open>paged_vector\<close>
  stated at the end of this theory; lists are shown to satisfy it.
\<close>

unbundle bit_operations_syntax

section \<open>Machine integers\<close>

type_synonym u8 = "8 word"
type_synonym u16 = "16 word"
type_synonym u32 = "32 word"
type_synonym u64 = "64 word"

named_theorems word_nat
  \<open>facts that move a word expression to natural numbers when it does not wrap\<close>
named_theorems lex_simps
  \<open>the effect of the lexer's primitive operations on the unread suffix\<close>
named_theorems frame_simps
  \<open>fields that an operation leaves alone\<close>

lemma unat_Suc_lt [word_nat]:
  fixes c :: "'a::len word"
  assumes "unat c < n" and "n < 2 ^ LENGTH('a)"
  shows "unat (c + 1) = Suc (unat c)"
  using assms by (simp add: unat_word_ariths)

lemma unat_add_lt [word_nat]:
  fixes c d :: "'a::len word"
  assumes "unat c + unat d < 2 ^ LENGTH('a)"
  shows "unat (c + d) = unat c + unat d"
  using assms by (simp add: unat_word_ariths)

lemma unat_diff_le [word_nat]:
  fixes c d :: "'a::len word"
  assumes "unat d \<le> unat c"
  shows "unat (c - d) = unat c - unat d"
  using assms by (simp add: unat_sub word_le_nat_alt)

lemma unat_of_nat_lt [word_nat]:
  "n < 2 ^ LENGTH('a) \<Longrightarrow> unat (of_nat n :: 'a::len word) = n"
  by (simp add: unat_of_nat take_bit_nat_eq_self)

lemma unat_ucast_lt [word_nat]:
  fixes w :: "'a::len word"
  assumes "unat w < 2 ^ LENGTH('b)"
  shows "unat (ucast w :: 'b::len word) = unat w"
  using assms by (simp add: unsigned_ucast_eq take_bit_nat_eq_self)

section \<open>Lists\<close>

lemma drop_eq_Cons_conv:
  "drop n xs = c # cs \<Longrightarrow> n < length xs \<and> xs ! n = c \<and> drop (Suc n) xs = cs"
  by (metis drop_Suc drop_all drop_eq_Nil linorder_not_le list.distinct(1) list.sel(1) list.sel(3)
      nth_via_drop tl_drop)

lemma drop_eq_Nil_conv: "drop n xs = [] \<longleftrightarrow> length xs \<le> n"
  by simp

lemma take_length_prefix: "ys = zs @ ws \<Longrightarrow> take (length zs) ys = zs"
  by simp

lemma prefix_nth: "prefix xs ys \<Longrightarrow> i < length xs \<Longrightarrow> ys ! i = xs ! i"
  by (auto simp: prefix_def nth_append)

lemma find_Some_distinct:
  assumes "distinct (map f xs)" and "x \<in> set xs"
  shows "List.find (\<lambda>y. f y = f x) xs = Some x"
  using assms
proof (induction xs)
  case Nil
  then show ?case by simp
next
  case (Cons y ys)
  show ?case
  proof (cases "f y = f x")
    case True
    with Cons.prems have "y = x"
      by (metis distinct.simps(2) image_eqI list.set_map list.simps(9) set_ConsD)
    with True show ?thesis by simp
  next
    case False
    with Cons show ?thesis by auto
  qed
qed

section \<open>Decimal numerals\<close>

text \<open>\<open>std::to_string\<close> on the unsigned numbers of the sources.\<close>

definition digit_char :: "nat \<Rightarrow> char" where
  "digit_char d = char_of (48 + d)"

fun string_of_nat :: "nat \<Rightarrow> string" where
  "string_of_nat n =
     (if n < 10 then [digit_char n] else string_of_nat (n div 10) @ [digit_char (n mod 10)])"

declare string_of_nat.simps [simp del]

lemma string_of_nat_not_Nil [simp]: "string_of_nat n \<noteq> []"
  by (subst string_of_nat.simps) simp

text \<open>The number a numeral stands for: numerals of different numbers differ.\<close>

definition nat_of_string :: "string \<Rightarrow> nat" where
  "nat_of_string = foldl (\<lambda>n c. 10 * n + (of_char c - 48)) 0"

lemma of_char_digit_char: "d < 10 \<Longrightarrow> of_char (digit_char d) = 48 + d"
  by (simp add: digit_char_def)

lemma nat_of_string_of_nat [simp]: "nat_of_string (string_of_nat n) = n"
proof (induction n rule: string_of_nat.induct)
  case (1 n)
  show ?case
  proof (cases "n < 10")
    case True
    then show ?thesis
      by (subst string_of_nat.simps) (simp add: nat_of_string_def of_char_digit_char)
  next
    case False
    then have "nat_of_string (string_of_nat n)
        = 10 * nat_of_string (string_of_nat (n div 10)) + n mod 10"
      by (subst string_of_nat.simps) (simp add: nat_of_string_def of_char_digit_char)
    with 1 [OF False] show ?thesis by simp
  qed
qed

lemma string_of_nat_inj [simp]: "string_of_nat m = string_of_nat n \<longleftrightarrow> m = n"
  by (metis nat_of_string_of_nat)

section \<open>The external paged vector\<close>

text \<open>
  \<open>cc::OsPagedVector\<close> is not part of the repository. The sources use it as a growable
  array: \<open>size\<close>, \<open>operator[]\<close>, \<open>push_back\<close>, \<open>resize\<close>, \<open>clear\<close>. The contract below states
  what they rely on; the cells that \<open>resize\<close> adds hold some value that is not specified
  (\<open>fill\<close>). Addresses of elements are not observable in the model; the sources rely on
  them staying valid while the vector grows (the preprocessor keeps \<open>std::string_view\<close>s
  into a \<open>cc::OsPagedVector<char>\<close>), which paged virtual memory provides.
\<close>

definition vec_resize :: "'a \<Rightarrow> nat \<Rightarrow> 'a list \<Rightarrow> 'a list" where
  "vec_resize fill n xs = take n xs @ replicate (n - length xs) fill"

locale paged_vector =
  fixes vsize :: "'v \<Rightarrow> nat"
    and vget :: "'v \<Rightarrow> nat \<Rightarrow> 'a"
    and vset :: "'v \<Rightarrow> nat \<Rightarrow> 'a \<Rightarrow> 'v"
    and vpush :: "'v \<Rightarrow> 'a \<Rightarrow> 'v"
    and vresize :: "nat \<Rightarrow> 'v \<Rightarrow> 'v"
  assumes size_set: "i < vsize v \<Longrightarrow> vsize (vset v i a) = vsize v"
    and get_set: "i < vsize v \<Longrightarrow> j < vsize v \<Longrightarrow>
      vget (vset v i a) j = (if i = j then a else vget v j)"
    and size_push: "vsize (vpush v a) = Suc (vsize v)"
    and get_push: "i \<le> vsize v \<Longrightarrow> vget (vpush v a) i = (if i = vsize v then a else vget v i)"
    and size_resize: "vsize (vresize n v) = n"
    and get_resize: "i < n \<Longrightarrow> i < vsize v \<Longrightarrow> vget (vresize n v) i = vget v i"
begin

lemma resize_push_undo:
  "vsize (vresize (vsize v) (vpush v a)) = vsize v \<and>
   (\<forall>i < vsize v. vget (vresize (vsize v) (vpush v a)) i = vget v i)"
  by (simp add: size_resize get_resize size_push get_push)

lemma push_then_set_last:
  "vget (vset (vpush v a) (vsize v) b) (vsize v) = b"
  by (simp add: get_set size_push)

end

interpretation list_vec: paged_vector length nth list_update "\<lambda>xs a. xs @ [a]" "vec_resize fill"
  for fill
  by unfold_locales (auto simp: vec_resize_def nth_append nth_list_update)

lemma vec_resize_grow:
  "length xs \<le> n \<Longrightarrow> vec_resize fill n xs = xs @ replicate (n - length xs) fill"
  by (simp add: vec_resize_def)

lemma vec_resize_shrink: "n \<le> length xs \<Longrightarrow> vec_resize fill n xs = take n xs"
  by (simp add: vec_resize_def)

lemma length_vec_resize [simp]: "length (vec_resize fill n xs) = n"
  by (rule list_vec.size_resize)

text \<open>\<open>std::memcpy(data + off, bs, length bs)\<close> inside a vector.\<close>

definition write_at :: "nat \<Rightarrow> 'a list \<Rightarrow> 'a list \<Rightarrow> 'a list" where
  "write_at off bs xs = take off xs @ bs @ drop (off + length bs) xs"

lemma write_at_append:
  "n = length xs \<Longrightarrow> write_at n bs (xs @ ys) = xs @ bs @ drop (length bs) ys"
  by (simp add: write_at_def)

end
