(* ===== verification/Common_Def.thy ===== *)
theory Common_Def
  imports Prelude
begin

text \<open>
  \<open>common/common_def.h\<close> and \<open>common/hashing.h\<close>: the power-of-two helpers, the 64-bit
  FNV-1a hash of directive and keyword names, and the identifier-character tables (a 256
  entry table of 6-bit codes, and the 4-word bit set built from it).
\<close>

section \<open>Power-of-two helpers\<close>

text \<open>
  \<open>std::bit_ceil\<close> on \<open>uint64_t\<close> (C++ standard library): the least power of two that is not
  below the argument; its behaviour is undefined when that power is \<open>2 ^ 64\<close>, which is
  \<open>None\<close> here.
\<close>

fun bit_ceil_nat :: "nat \<Rightarrow> nat" where
  "bit_ceil_nat n = (if n \<le> 1 then 1 else 2 * bit_ceil_nat ((n + 1) div 2))"

declare bit_ceil_nat.simps [simp del]

definition bit_ceil64 :: "u64 \<Rightarrow> u64 option" where
  "bit_ceil64 x =
     (if bit_ceil_nat (unat x) < 2 ^ 64 then Some (of_nat (bit_ceil_nat (unat x))) else None)"

definition align_two :: "'a::len word \<Rightarrow> 'a word option" where
  "align_two x = map_option ucast (bit_ceil64 (ucast x))"

definition align_two_of :: "'a::len word \<Rightarrow> u64 option" where
  "align_two_of x = bit_ceil64 (ucast x)"

definition unsigned_max_v :: "'a::len word" where
  "unsigned_max_v = - 1"

text \<open>
  \<open>bit_ceil_nat\<close> is a power of two, and it is the least one that is not below its argument.
\<close>

lemma bit_ceil_nat_pow2: "\<exists>k. bit_ceil_nat n = 2 ^ k"
proof (induction n rule: bit_ceil_nat.induct)
  case (1 n)
  show ?case
  proof (cases "n \<le> 1")
    case True
    then have "bit_ceil_nat n = 2 ^ 0" by (simp add: bit_ceil_nat.simps)
    then show ?thesis ..
  next
    case False
    with "1.IH" obtain k where "bit_ceil_nat ((n + 1) div 2) = 2 ^ k" by blast
    with False have "bit_ceil_nat n = 2 ^ Suc k" by (simp add: bit_ceil_nat.simps [of n])
    then show ?thesis ..
  qed
qed

lemma bit_ceil_nat_ge: "n \<le> bit_ceil_nat n"
proof (induction n rule: bit_ceil_nat.induct)
  case (1 n)
  show ?case
  proof (cases "n \<le> 1")
    case True
    then show ?thesis by (simp add: bit_ceil_nat.simps)
  next
    case False
    with "1.IH" have "(n + 1) div 2 \<le> bit_ceil_nat ((n + 1) div 2)" by simp
    with False show ?thesis by (simp add: bit_ceil_nat.simps [of n])
  qed
qed

lemma bit_ceil_nat_least: "n \<le> 2 ^ k \<Longrightarrow> bit_ceil_nat n \<le> 2 ^ k"
proof (induction n arbitrary: k rule: bit_ceil_nat.induct)
  case (1 n)
  show ?case
  proof (cases "n \<le> 1")
    case True
    then show ?thesis by (simp add: bit_ceil_nat.simps)
  next
    case False
    with "1.prems" obtain j where k: "k = Suc j" by (cases k) auto
    with "1.prems" have "(n + 1) div 2 \<le> 2 ^ j" by simp
    with "1.IH" False have "bit_ceil_nat ((n + 1) div 2) \<le> 2 ^ j" by simp
    with False k show ?thesis by (simp add: bit_ceil_nat.simps [of n])
  qed
qed

section \<open>FNV-1a\<close>

text \<open>
  \<open>static_cast<uint64_t>(c)\<close> of a \<open>char\<close>: the targets of the project (MSVC, Clang and GCC on
  x86-64) have a signed \<open>char\<close>, so a byte above \<open>0x7F\<close> is sign-extended.
\<close>

definition char_to_u64 :: "char \<Rightarrow> u64" where
  "char_to_u64 c = signed_take_bit 7 (of_char c)"

definition fnv_step :: "u64 \<Rightarrow> char \<Rightarrow> u64" where
  "fnv_step hash c = (hash XOR char_to_u64 c) * 1099511628211"

definition hash_directive :: "string \<Rightarrow> u64" where
  "hash_directive sv = foldl fnv_step 14695981039346656037 sv"

text \<open>
  The multiplier is odd, so each step is a bijection of the hash state: two inputs of which
  one is obtained from the other by a common suffix collide only if they already did before.
\<close>

lemma fnv_prime_inverse: "(1099511628211 :: u64) * 14886173955864302971 = 1"
  by simp

lemma fnv_step_inj: "fnv_step h c = fnv_step h' c \<longleftrightarrow> h = h'"
proof
  assume "fnv_step h c = fnv_step h' c"
  then have "(h XOR char_to_u64 c) * (1099511628211 * 14886173955864302971)
      = (h' XOR char_to_u64 c) * (1099511628211 * 14886173955864302971)"
    by (simp only: fnv_step_def flip: mult.assoc)
  then have "h XOR char_to_u64 c = h' XOR char_to_u64 c"
    by (simp only: fnv_prime_inverse mult_1_right)
  then have "(h XOR char_to_u64 c) XOR char_to_u64 c = (h' XOR char_to_u64 c) XOR char_to_u64 c"
    by simp
  then show "h = h'" by (simp only: xor.assoc xor_self_eq xor.right_neutral)
qed simp

lemma hash_directive_append:
  "hash_directive (xs @ ys) = foldl fnv_step (hash_directive xs) ys"
  by (simp add: hash_directive_def)

lemma foldl_fnv_inj: "foldl fnv_step h ys = foldl fnv_step h' ys \<longleftrightarrow> h = h'"
  by (induction ys arbitrary: h h') (simp_all add: fnv_step_inj)

section \<open>Identifier characters\<close>

definition ident_6bit :: "nat \<Rightarrow> u8" where
  "ident_6bit c =
     (if 65 \<le> c \<and> c \<le> 90 then of_nat (c - 65 + 1)
      else if 97 \<le> c \<and> c \<le> 122 then of_nat (c - 97 + 27)
      else if 48 \<le> c \<and> c \<le> 57 then of_nat (c - 48 + 53)
      else if c = 95 then 63
      else 0)"

definition IDENT_CHAR_LUT :: "u8 list" where
  "IDENT_CHAR_LUT = map ident_6bit [0..<256]"

definition IS_IDENT_CHAR :: "char \<Rightarrow> bool" where
  "IS_IDENT_CHAR c = (IDENT_CHAR_LUT ! of_char c \<noteq> 0)"

text \<open>\<open>make_ident_bitmask\<close>: bit \<open>i & 63\<close> of word \<open>i >> 6\<close> is set for each identifier byte \<open>i\<close>.\<close>

definition make_ident_bitmask :: "u64 list" where
  "make_ident_bitmask =
     fold (\<lambda>i mask. if IDENT_CHAR_LUT ! i \<noteq> 0
                    then mask[i div 64 := (mask ! (i div 64)) OR push_bit (i mod 64) 1]
                    else mask)
       [0..<256] [0, 0, 0, 0]"

definition IDENT_CHAR_BITMASK :: "u64 list" where
  "IDENT_CHAR_BITMASK = make_ident_bitmask"

definition is_in :: "u64 list \<Rightarrow> u8 \<Rightarrow> bool" where
  "is_in LUT c = ((LUT ! unat (drop_bit 6 c)) AND push_bit (unat (c AND 63)) 1 \<noteq> 0)"

lemma IDENT_CHAR_LUT_nth: "n < 256 \<Longrightarrow> IDENT_CHAR_LUT ! n = ident_6bit n"
  by (simp add: IDENT_CHAR_LUT_def)

lemma IS_IDENT_CHAR_conv: "IS_IDENT_CHAR c \<longleftrightarrow> ident_6bit (of_char c) \<noteq> 0"
  by (simp add: IS_IDENT_CHAR_def IDENT_CHAR_LUT_nth)

text \<open>
  The bit set is built word by word; after the bytes below \<open>m\<close> have been processed, bit
  \<open>i mod 64\<close> of word \<open>i div 64\<close> is set exactly for the identifier bytes \<open>i < m\<close>.
\<close>

definition bitmask_step :: "nat \<Rightarrow> u64 list \<Rightarrow> u64 list" where
  "bitmask_step i bits = (if IDENT_CHAR_LUT ! i \<noteq> 0
     then bits[i div 64 := (bits ! (i div 64)) OR push_bit (i mod 64) 1] else bits)"

lemma length_bitmask_step [simp]: "length (bitmask_step i bits) = length bits"
  by (simp add: bitmask_step_def)

lemma length_fold_bitmask_step [simp]: "length (fold bitmask_step is bits) = length bits"
  by (induction "is" arbitrary: bits) simp_all

lemma bit_bitmask_step:
  assumes "i div 64 < length bits" and "j div 64 < length bits"
  shows "bit (bitmask_step i bits ! (j div 64)) (j mod 64) \<longleftrightarrow>
    bit (bits ! (j div 64)) (j mod 64) \<or> i = j \<and> IDENT_CHAR_LUT ! i \<noteq> 0"
proof -
  have "i div 64 = j div 64 \<and> i mod 64 = j mod 64 \<longleftrightarrow> i = j"
    by (metis div_mod_decomp)
  with assms show ?thesis
    by (auto simp: bitmask_step_def nth_list_update bit_or_iff push_bit_of_1 bit_exp_iff)
qed

lemma bit_fold_bitmask_step:
  assumes "m \<le> 256" and "j < 256"
  shows "bit (fold bitmask_step [0..<m] [0, 0, 0, 0] ! (j div 64)) (j mod 64) \<longleftrightarrow>
    j < m \<and> IDENT_CHAR_LUT ! j \<noteq> 0"
  using assms(1)
proof (induction m)
  case 0
  from assms(2) have "j div 64 < 4" by simp
  then have "([0, 0, 0, 0] :: u64 list) ! (j div 64) = 0"
    by (auto simp: nth_Cons' )
  then show ?case by simp
next
  case (Suc m)
  let ?bits = "fold bitmask_step [0..<m] [0, 0, 0, 0]"
  from Suc.prems assms(2) have "m div 64 < length ?bits" and "j div 64 < length ?bits"
    by (simp_all add: less_mult_imp_div_less)
  then show ?case
    using Suc by (auto simp: bit_bitmask_step less_Suc_eq)
qed

lemma make_ident_bitmask_fold: "make_ident_bitmask = fold bitmask_step [0..<256] [0, 0, 0, 0]"
  by (simp add: make_ident_bitmask_def bitmask_step_def [abs_def])

lemma is_in_iff_bit: "is_in LUT c \<longleftrightarrow> bit (LUT ! (unat c div 64)) (unat c mod 64)"
proof -
  have "unat (drop_bit 6 c) = unat c div 64"
    by (subst unat_drop_bit_eq) (simp add: drop_bit_eq_div)
  moreover have "c AND 63 = take_bit 6 c"
    by (simp add: take_bit_eq_mask mask_eq_exp_minus_1)
  then have "unat (c AND 63) = unat c mod 64"
    by (simp only: unsigned_take_bit_eq) (simp add: take_bit_eq_mod)
  ultimately show ?thesis
    by (simp add: is_in_def push_bit_of_1 and_exp_eq_0_iff_not_bit)
qed

lemma unat_of_char: "unat (of_char c :: u8) = of_char c"
proof -
  have "unat (of_nat (of_char c) :: u8) = of_char c" by (rule unat_of_nat_lt) simp
  then show ?thesis by (metis of_nat_of_char)
qed

lemma is_in_bitmask: "is_in IDENT_CHAR_BITMASK c \<longleftrightarrow> ident_6bit (unat c) \<noteq> 0"
proof -
  have "unat c < 256" using unsigned_less [of c] by simp
  then show ?thesis
    by (simp add: is_in_iff_bit IDENT_CHAR_BITMASK_def make_ident_bitmask_fold
        bit_fold_bitmask_step IDENT_CHAR_LUT_nth)
qed

text \<open>
  The code of an identifier character is one of 1 to 63, and it determines the character.
\<close>

definition ident_byte :: "nat \<Rightarrow> bool" where
  "ident_byte n \<longleftrightarrow> 65 \<le> n \<and> n \<le> 90 \<or> 97 \<le> n \<and> n \<le> 122 \<or> 48 \<le> n \<and> n \<le> 57 \<or> n = 95"

definition ident_6bit_nat :: "nat \<Rightarrow> nat" where
  "ident_6bit_nat c =
     (if 65 \<le> c \<and> c \<le> 90 then c - 64
      else if 97 \<le> c \<and> c \<le> 122 then c - 70
      else if 48 \<le> c \<and> c \<le> 57 then c + 5
      else if c = 95 then 63
      else 0)"

lemma ident_6bit_nat_less: "ident_6bit_nat n < 64"
  by (auto simp: ident_6bit_nat_def)

lemma unat_ident_6bit: "unat (ident_6bit n) = ident_6bit_nat n"
proof -
  have "ident_6bit n = of_nat (ident_6bit_nat n)"
    by (auto simp: ident_6bit_def ident_6bit_nat_def)
  then show ?thesis by (simp add: unat_of_nat_lt less_trans [OF ident_6bit_nat_less])
qed

lemma ident_6bit_nat_pos: "0 < ident_6bit_nat n \<longleftrightarrow> ident_byte n"
  by (auto simp: ident_6bit_nat_def ident_byte_def)

lemma ident_6bit_nonzero: "ident_6bit n \<noteq> 0 \<longleftrightarrow> ident_byte n"
  using ident_6bit_nat_pos [of n] unat_ident_6bit [of n] by (auto simp: unat_eq_zero)

lemma ident_6bit_nat_inj:
  "ident_byte m \<Longrightarrow> ident_byte n \<Longrightarrow> ident_6bit_nat m = ident_6bit_nat n \<Longrightarrow> m = n"
  by (auto simp: ident_6bit_nat_def ident_byte_def split: if_splits)

definition ident_mask_words :: "u64 list" where
  "ident_mask_words = [0x03FF000000000000, 0x07FFFFFE87FFFFFE, 0, 0]"
lemma ident_mask_words_bits: "\<forall>j \<in> set [0..<256]. bit (ident_mask_words ! (j div 64)) (j mod 64) = ident_byte j"
  by code_simp
text \<open>Evaluation uses the finished words.\<close>

lemma IDENT_CHAR_BITMASK_code [code]: "IDENT_CHAR_BITMASK = ident_mask_words"
proof (rule nth_equalityI)
  show l: "length IDENT_CHAR_BITMASK = length ident_mask_words"
    by (simp add: IDENT_CHAR_BITMASK_def make_ident_bitmask_fold ident_mask_words_def)
  fix k
  assume "k < length IDENT_CHAR_BITMASK"
  then have k: "k < 4" using l by (simp add: ident_mask_words_def)
  show "IDENT_CHAR_BITMASK ! k = ident_mask_words ! k"
  proof (rule bit_word_eqI)
    fix n
    assume n: "n < LENGTH(64)"
    have j: "64 * k + n < 256" "(64 * k + n) div 64 = k" "(64 * k + n) mod 64 = n" using k n by simp_all
    have "bit (IDENT_CHAR_BITMASK ! k) n \<longleftrightarrow> IDENT_CHAR_LUT ! (64 * k + n) \<noteq> 0"
      using bit_fold_bitmask_step [of 256 "64 * k + n"] j by (simp add: IDENT_CHAR_BITMASK_def make_ident_bitmask_fold)
    also have "\<dots> \<longleftrightarrow> ident_byte (64 * k + n)"
      using j by (simp add: IDENT_CHAR_LUT_nth ident_6bit_nonzero)
    also have "\<dots> \<longleftrightarrow> bit (ident_mask_words ! k) n"
      using ident_mask_words_bits j by (metis atLeast_upt lessThan_iff)
    finally show "bit (IDENT_CHAR_BITMASK ! k) n = bit (ident_mask_words ! k) n" .
  qed
qed

text \<open>
  The two tables of identifier characters agree: the bit set accepts exactly the bytes
  that have a code in the 6-bit table, which are the letters, the digits and the underscore.
\<close>

lemma ident_tables_agree:
  "(is_in IDENT_CHAR_BITMASK (of_char c) \<longleftrightarrow> IS_IDENT_CHAR c) \<and>
   (IS_IDENT_CHAR c \<longleftrightarrow> CHR ''A'' \<le> c \<and> c \<le> CHR ''Z'' \<or> CHR ''a'' \<le> c \<and> c \<le> CHR ''z'' \<or>
      CHR ''0'' \<le> c \<and> c \<le> CHR ''9'' \<or> c = CHR ''_'')"
proof
  show "is_in IDENT_CHAR_BITMASK (of_char c) \<longleftrightarrow> IS_IDENT_CHAR c"
    by (simp add: is_in_bitmask unat_of_char IS_IDENT_CHAR_conv)
  have "(of_char c :: nat) = 95 \<longleftrightarrow> c = CHR ''_''"
    using of_char_eq_iff [of c "CHR ''_''", where 'a = nat] by simp
  then show "IS_IDENT_CHAR c \<longleftrightarrow> CHR ''A'' \<le> c \<and> c \<le> CHR ''Z'' \<or> CHR ''a'' \<le> c \<and> c \<le> CHR ''z'' \<or>
      CHR ''0'' \<le> c \<and> c \<le> CHR ''9'' \<or> c = CHR ''_''"
    by (simp add: IS_IDENT_CHAR_conv ident_6bit_nonzero ident_byte_def less_eq_char_def)
qed



end
