(* ===== verification/Token_Map.thy ===== *)
theory Token_Map
  imports Token_Def
begin

text \<open>
  What \<open>string_map\<close> of \<open>common/token/token_def.h\<close> computes. The hashes of the case labels
  are evaluated once and are pairwise distinct, as C++ demands of a \<open>switch\<close>; the final
  comparison of the spelling then makes the lookup exact for every input.
\<close>

definition label_hashes :: "int list" where
  "label_hashes =
    [13113042584710199672, 6583304908937478053, 628023482707099174, 9163537027783908656
     , 15902905282948881040, 14882043299657492846, 15387972409001695407, 10644074229358120504
     , 15186091406668687012, 14251563519059995999, 618455755084829731, 7334518323283222324
     , 14210125031242066299, 1027880306282058708, 3702128624879087435, 17633599587796081504
     , 14240694479973223660, 4160126536890971669, 15860633372144201120, 2393897505926526769
     , 17581608054750041354, 6757501175350325814, 9964885110000857501, 7567173545750804672
     , 12075340201627130925, 7505435266999523071, 3563412735833858527, 14058172984575203104
     , 10474992716130377088, 12638127826927718602, 12638121229857949336, 12638128926439346813
     , 12638123428881205758, 12638115732299808281, 12638210290299834427, 12638247673695193601
     , 12638212489323090849, 12638116831811436492, 12638112433764923648, 12638141021067257134
     , 12638138822044000712, 12638146518625398189, 12638142120578885345, 12638139921555628923
     , 568708128911732307, 562975275283375503, 568732318167552949, 562957683097324127
     , 569572345051316928, 564791668492801625, 555357858724643495, 558172608492295980
     , 640367699754564146, 642333626545426964, 673014399012971508, 578298069331096399
     , 559157770910983811, 558202295306257677, 640439168010397861, 581112819098748884
     , 579146892307886066, 581116117633633517, 579147991819514277, 9414593705668068720
     , 8118452015276295496, 584920427866486677, 564807061655596579, 12638124528392833969
     , 17859374069783925273, 562958782608952338, 12638126727416090391, 12638125627904462180
     , 12638250972230078234, 12638244375160308968, 12638215787857975482, 12638209190788206216
     , 12638145419113769978, 12638122329369577547]"

lemma label_hashes_eq:
  "map (\<lambda>t. uint (hash_directive (token_str t))) switch_labels = label_hashes"
  by (simp add: label_hashes_def switch_labels_def hash_directive_def fnv_step_def char_to_u64_def)

lemma distinct_label_hashes: "distinct label_hashes"
  by (simp add: label_hashes_def)

lemma TT_STRMAP_label: "t \<in> set switch_labels \<Longrightarrow> TT_STRMAP ! tt_code t = token_str t"
  by (metis TT_STRMAP_nth switch_labels_not_count)

lemma hash_token_label: "t \<in> set switch_labels \<Longrightarrow> hash_token t = hash_directive (token_str t)"
  by (simp add: hash_token_def TT_STRMAP_label)

lemma distinct_hash_tokens: "distinct (map hash_token switch_labels)"
proof -
  have "distinct (map uint (map (\<lambda>t. hash_directive (token_str t)) switch_labels))"
    using distinct_label_hashes label_hashes_eq by (simp add: comp_def)
  then have "distinct (map (\<lambda>t. hash_directive (token_str t)) switch_labels)"
    by (simp only: distinct_map)
  then show ?thesis
    by (simp add: hash_token_label cong: map_cong)
qed

lemma token_str_inj_labels:
  assumes "s \<in> set switch_labels" and "t \<in> set switch_labels" and "token_str s = token_str t"
  shows "s = t"
proof -
  from assms have "hash_token s = hash_token t" by (simp add: hash_token_label)
  with distinct_hash_tokens assms(1,2) show ?thesis
    by (metis distinct_map inj_onD)
qed

lemma string_map_token_str:
  assumes "t \<in> set switch_labels"
  shows "string_map (token_str t) = t"
proof -
  have "List.find (\<lambda>s. hash_token s = hash_token t) switch_labels = Some t"
    using distinct_hash_tokens assms by (rule find_Some_distinct)
  with assms show ?thesis
    by (simp add: string_map_def check_spelling_def hash_token_label TT_STRMAP_label)
qed

lemma string_map_eq_label:
  assumes "string_map sv \<noteq> TBD"
  shows "string_map sv \<in> set switch_labels \<and> token_str (string_map sv) = sv"
proof -
  from assms obtain t where t: "List.find (\<lambda>t. hash_token t = hash_directive sv) switch_labels = Some t"
      and sv: "string_map sv = t" "sv = TT_STRMAP ! tt_code t"
    by (auto simp: string_map_def check_spelling_def split: option.splits if_splits)
  from t have "t \<in> set switch_labels"
    by (metis find_Some_iff nth_mem)
  with sv show ?thesis
    by (simp add: TT_STRMAP_label)
qed

lemma TBD_not_label: "TBD \<notin> set switch_labels"
  by (simp add: switch_labels_def)

text \<open>Evaluation searches the table and computes no hash.\<close>

lemma string_map_code [code]:
  "string_map sv =
     (case List.find (\<lambda>t. token_str t = sv) switch_labels of Some t \<Rightarrow> t | None \<Rightarrow> TBD)"
proof (cases "List.find (\<lambda>t. token_str t = sv) switch_labels")
  case None
  then have "\<forall>t \<in> set switch_labels. token_str t \<noteq> sv" by (simp add: find_None_iff)
  with None show ?thesis by (auto dest: string_map_eq_label)
next
  case (Some t)
  then have "t \<in> set switch_labels" and "token_str t = sv"
    by (auto simp: find_Some_iff)
  with Some show ?thesis using string_map_token_str [of t] by simp
qed

text \<open>
  C5: \<open>string_map\<close> answers exactly what a search of the spelling table answers: the kind
  whose spelling is the text, and \<open>TBD\<close> if there is none. The 64-bit hash only speeds the
  search up; a text that collides with a keyword or an operator is never taken for it.
\<close>

theorem string_map_exact:
  "string_map sv =
     (case List.find (\<lambda>t. token_str t = sv) switch_labels of Some t \<Rightarrow> t | None \<Rightarrow> TBD)"
  by (rule string_map_code)

end
