(* ===== verification/Lexer.thy ===== *)
theory Lexer
  imports Token_Map
begin

text \<open>
  \<open>lexer/lexer.h\<close> and \<open>lexer/lexer.cpp\<close>: the lexer's state and every operation on it, with
  the 32-bit cursor and the 16-bit token lengths of the sources. Loops that move the cursor
  are \<open>while_option\<close> or \<open>partial_function (option)\<close>: on a source of \<open>2 ^ 32\<close> bytes or more
  the cursor wraps and such a loop may run forever, which is \<open>None\<close>.
\<close>

section \<open>State and primitive operations\<close>

text \<open>
  \<open>source\<close> is the \<open>std::string_view\<close> being read, \<open>cursor\<close> the next byte, \<open>thisExpr\<close> the
  buffer of the tokens produced so far.
\<close>

record Lexer =
  source :: string
  cursor :: u32
  thisExpr :: "Token list"

abbreviation NUL :: char where "NUL \<equiv> CHR 0x00"
abbreviation NEWLINE :: char where "NEWLINE \<equiv> CHR 0x0A"
abbreviation BACKSLASH :: char where "BACKSLASH \<equiv> CHR 0x5C"
abbreviation DQUOTE :: char where "DQUOTE \<equiv> CHR 0x22"
abbreviation SQUOTE :: char where "SQUOTE \<equiv> CHR 0x27"

definition peek :: "Lexer \<Rightarrow> u32 \<Rightarrow> char" where
  "peek s offset =
     (if length (source s) \<le> unat (cursor s + offset) then NUL
      else source s ! unat (cursor s + offset))"

definition advance :: "Lexer \<Rightarrow> char \<times> Lexer" where
  "advance s =
     (if length (source s) \<le> unat (cursor s) then (NUL, s)
      else (source s ! unat (cursor s), s\<lparr>cursor := cursor s + 1\<rparr>))"

text \<open>\<open>advance();\<close> as a statement, its value dropped.\<close>

definition adv :: "Lexer \<Rightarrow> Lexer" where
  "adv s = snd (advance s)"

definition match :: "char \<Rightarrow> Lexer \<Rightarrow> bool \<times> Lexer" where
  "match expected s =
     (if length (source s) \<le> unat (cursor s) \<or> source s ! unat (cursor s) \<noteq> expected
      then (False, s)
      else (True, s\<lparr>cursor := cursor s + 1\<rparr>))"

definition init_lexer :: "string \<Rightarrow> Lexer" where
  "init_lexer src = \<lparr>source = src, cursor = 0, thisExpr = []\<rparr>"

definition setSource :: "string \<Rightarrow> Lexer \<Rightarrow> Lexer" where
  "setSource src s = s\<lparr>source := src, cursor := 0, thisExpr := []\<rparr>"

text \<open>
  \<open>getText\<close>: the sum of a 32-bit offset and a promoted 16-bit size is a 32-bit sum.
\<close>

definition getText :: "Lexer \<Rightarrow> Token \<Rightarrow> string" where
  "getText s tok =
     (if length (source s) < unat (globalOffset tok + ucast (tok_size tok)) then []
      else take (unat (tok_size tok)) (drop (unat (globalOffset tok)) (source s)))"

definition push_token :: "Token \<Rightarrow> Lexer \<Rightarrow> Lexer" where
  "push_token tok s = s\<lparr>thisExpr := thisExpr s @ [tok]\<rparr>"

section \<open>Character classes\<close>

definition isIdentStart :: "char \<Rightarrow> bool" where
  "isIdentStart c \<longleftrightarrow>
     (CHR ''a'' \<le> c \<and> c \<le> CHR ''z'') \<or> (CHR ''A'' \<le> c \<and> c \<le> CHR ''Z'') \<or> c = CHR ''_''"

definition isDigit :: "char \<Rightarrow> bool" where
  "isDigit c \<longleftrightarrow> CHR ''0'' \<le> c \<and> c \<le> CHR ''9''"

definition isIdentBody :: "char \<Rightarrow> bool" where
  "isIdentBody c \<longleftrightarrow> isIdentStart c \<or> (CHR ''0'' \<le> c \<and> c \<le> CHR ''9'')"

text \<open>\<open>std::isxdigit\<close> in the C locale.\<close>

definition isxdigit :: "char \<Rightarrow> bool" where
  "isxdigit c \<longleftrightarrow> isDigit c \<or> (CHR ''a'' \<le> c \<and> c \<le> CHR ''f'') \<or> (CHR ''A'' \<le> c \<and> c \<le> CHR ''F'')"

definition isNumSuffix :: "char \<Rightarrow> bool" where
  "isNumSuffix c \<longleftrightarrow> c = CHR ''f'' \<or> c = CHR ''F'' \<or> c = CHR ''u'' \<or> c = CHR ''U'' \<or>
     c = CHR ''l'' \<or> c = CHR ''L''"

section \<open>White space and comments\<close>

text \<open>\<open>while (P(peek())) advance();\<close>\<close>

definition skip_while :: "(char \<Rightarrow> bool) \<Rightarrow> Lexer \<Rightarrow> Lexer option" where
  "skip_while P s = while_option (\<lambda>s. P (peek s 0)) adv s"

text \<open>The loop inside a \<open>/* ... */\<close> comment.\<close>

partial_function (option) blockComment_loop :: "Lexer \<Rightarrow> Lexer option" where
  "blockComment_loop s =
     (if peek s 0 \<noteq> NUL then
        if peek s 0 = CHR ''*'' \<and> peek s 1 = CHR ''/'' then Some (adv (adv s))
        else blockComment_loop (adv s)
      else Some s)"

partial_function (option) skipWhitespaceAndComments :: "Lexer \<Rightarrow> Lexer option" where
  "skipWhitespaceAndComments s =
     (if unat (cursor s) < length (source s) then
        (let c = peek s 0 in
         if c = CHR '' '' \<or> c = CHR 0x09 \<or> c = CHR 0x0D \<or> c = NEWLINE then
           skipWhitespaceAndComments (adv s)
         else if c = CHR ''/'' then
           (if peek s 1 = CHR ''/'' then
              Option.bind (skip_while (\<lambda>c. c \<noteq> NUL \<and> c \<noteq> NEWLINE) (adv (adv s)))
                skipWhitespaceAndComments
            else if peek s 1 = CHR ''*'' then
              Option.bind (blockComment_loop (adv (adv s))) skipWhitespaceAndComments
            else Some s)
         else Some s)
      else Some s)"

section \<open>Token categories\<close>

text \<open>\<open>static_cast<t::Length>(cursor - start)\<close>: a 32-bit difference, cut to 16 bits.\<close>

definition tok_length :: "u32 \<Rightarrow> Lexer \<Rightarrow> u16" where
  "tok_length start s = ucast (cursor s - start)"

text \<open>\<open>source.substr(pos, n)\<close>, for a position inside the source.\<close>

definition substr :: "string \<Rightarrow> nat \<Rightarrow> nat \<Rightarrow> string" where
  "substr str pos n = take n (drop pos str)"

definition lexIdentifierOrKeyword :: "Lexer \<Rightarrow> (Token \<times> Lexer) option" where
  "lexIdentifierOrKeyword s = do {
     let start = cursor s;
     s \<leftarrow> skip_while isIdentBody s;
     let len = tok_length start s;
     let text = substr (source s) (unat start) (unat len);
     let type = string_map text;
     let type = (if type = TBD then Ident else type);
     Some (mk_token start len type, s)
   }"

text \<open>\<open>lexNumber\<close>: the fractional part and the exponent of a decimal literal are blocks of their own.\<close>

definition lexFraction :: "Lexer \<Rightarrow> (bool \<times> Lexer) option" where
  "lexFraction s =
     (if peek s 0 = CHR ''.'' \<and> isDigit (peek s 1) then do {
        let s = adv s;
        s \<leftarrow> skip_while isDigit s;
        Some (True, s)
      } else Some (False, s))"

definition lexExponent :: "bool \<Rightarrow> Lexer \<Rightarrow> (bool \<times> Lexer) option" where
  "lexExponent isFloat s =
     (if peek s 0 = CHR ''e'' \<or> peek s 0 = CHR ''E'' then do {
        let s = adv s;
        let s = (if peek s 0 = CHR ''+'' \<or> peek s 0 = CHR ''-'' then adv s else s);
        s \<leftarrow> skip_while isDigit s;
        Some (True, s)
      } else Some (isFloat, s))"

definition lexNumber :: "Lexer \<Rightarrow> (Token \<times> Lexer) option" where
  "lexNumber s = do {
     let start = cursor s;
     (isFloat, s) \<leftarrow>
       (if peek s 0 = CHR ''0'' \<and> (peek s 1 = CHR ''x'' \<or> peek s 1 = CHR ''X'') then do {
          let s = adv (adv s);
          s \<leftarrow> skip_while isxdigit s;
          Some (False, s)
        } else do {
          s \<leftarrow> skip_while isDigit s;
          (isFloat, s) \<leftarrow> lexFraction s;
          lexExponent isFloat s
        });
     s \<leftarrow> skip_while isNumSuffix s;
     Some (mk_token start (tok_length start s) (if isFloat then LFloat else LInt), s)
   }"

text \<open>The loops of \<open>lexString\<close> and \<open>lexChar\<close> differ in the closing quote only.\<close>

partial_function (option) quoted_loop :: "char \<Rightarrow> Lexer \<Rightarrow> Lexer option" where
  "quoted_loop quote s =
     (if peek s 0 \<noteq> NUL then
        (let (c, s) = advance s in
         if c = BACKSLASH then quoted_loop quote (if peek s 0 \<noteq> NUL then adv s else s)
         else if c = quote then Some s
         else quoted_loop quote s)
      else Some s)"

definition lexString :: "Lexer \<Rightarrow> (Token \<times> Lexer) option" where
  "lexString s = do {
     let start = cursor s;
     s \<leftarrow> quoted_loop DQUOTE (adv s);
     Some (mk_token start (tok_length start s) LString, s)
   }"

definition lexChar :: "Lexer \<Rightarrow> (Token \<times> Lexer) option" where
  "lexChar s = do {
     let start = cursor s;
     s \<leftarrow> quoted_loop SQUOTE (adv s);
     Some (mk_token start (tok_length start s) LChar, s)
   }"

declare blockComment_loop.simps [code] skipWhitespaceAndComments.simps [code]
  quoted_loop.simps [code]

section \<open>Operators and punctuation\<close>

text \<open>
  \<open>if (match(a)) type = x; else if (match(b)) type = y; else type = d;\<close> as the list of its
  alternatives and the type of its last branch.
\<close>

fun try_match :: "(char \<times> TokenType) list \<Rightarrow> TokenType \<Rightarrow> Lexer \<Rightarrow> TokenType \<times> Lexer" where
  "try_match [] d s = (d, s)"
| "try_match ((c, t) # alts) d s =
     (case match c s of (True, s) \<Rightarrow> (t, s) | (False, s) \<Rightarrow> try_match alts d s)"

text \<open>The \<open>switch (c)\<close> of \<open>nextToken\<close>, after the first character \<open>c\<close> has been consumed.\<close>

definition lexOperator :: "char \<Rightarrow> Lexer \<Rightarrow> TokenType \<times> Lexer" where
  "lexOperator c s =
     (if c = CHR ''+'' then try_match [(CHR ''+'', PPlus), (CHR ''='', PlusEquals)] Plus s
      else if c = CHR ''-'' then
        try_match [(CHR ''-'', MMinus), (CHR ''='', MinusEquals), (CHR ''>'', Arrow)] Minus s
      else if c = CHR ''*'' then try_match [(CHR ''='', StarEquals)] Star s
      else if c = CHR ''/'' then
        try_match [(CHR ''='', SlashEquals), (CHR ''/'', SSlash)] Slash s
      else if c = CHR ''%'' then try_match [(CHR ''='', PercEquals)] Perc s
      else if c = CHR ''&'' then try_match [(CHR ''&'', AAmp), (CHR ''='', AmpEquals)] Amp s
      else if c = CHR ''|'' then try_match [(CHR ''|'', BBar), (CHR ''='', BarEquals)] Bar s
      else if c = CHR ''^'' then try_match [(CHR ''='', UpEquals)] Up s
      else if c = CHR ''~'' then try_match [(CHR ''='', TildeEquals)] Tilde s
      else if c = CHR ''!'' then try_match [(CHR ''='', NEquals)] Excl s
      else if c = CHR ''='' then try_match [(CHR ''='', EEquals)] Equals s
      else if c = CHR ''<'' then
        (case match (CHR ''<'') s of
           (True, s) \<Rightarrow> try_match [(CHR ''='', LLeEquals)] LLesser s
         | (False, s) \<Rightarrow> try_match [(CHR ''='', LeEquals)] Lesser s)
      else if c = CHR ''>'' then
        (case match (CHR ''>'') s of
           (True, s) \<Rightarrow> try_match [(CHR ''='', GGrEquals)] GGreater s
         | (False, s) \<Rightarrow> try_match [(CHR ''='', GrEquals)] Greater s)
      else if c = CHR '':'' then try_match [(CHR '':'', CColon)] Colon s
      else if c = CHR ''.'' then
        (if peek s 0 = CHR ''.'' \<and> peek s 1 = CHR ''.'' then (Dots, adv (adv s)) else (Dot, s))
      else if c = CHR ''?'' then (Question, s)
      else if c = CHR ''('' then (Left, s)
      else if c = CHR '')'' then (Right, s)
      else if c = CHR ''['' then (SqLeft, s)
      else if c = CHR '']'' then (SqRight, s)
      else if c = CHR ''{'' then (BrLeft, s)
      else if c = CHR ''}'' then (BrRight, s)
      else if c = CHR '';'' then (Semi, s)
      else if c = CHR '','' then (Comma, s)
      else (Unknown, s))"

section \<open>The next token\<close>

definition nextToken :: "Lexer \<Rightarrow> (Token \<times> Lexer) option" where
  "nextToken s = do {
     s \<leftarrow> skipWhitespaceAndComments s;
     if length (source s) \<le> unat (cursor s) then
       (let eofTok = mk_token (of_nat (length (source s))) 0 Eof
        in Some (eofTok, push_token eofTok s))
     else do {
       let start = cursor s;
       let (c, s) = advance s;
       (tok, s) \<leftarrow>
         (if isIdentStart c then lexIdentifierOrKeyword (s\<lparr>cursor := cursor s - 1\<rparr>)
          else if isDigit c then lexNumber (s\<lparr>cursor := cursor s - 1\<rparr>)
          else if c = DQUOTE then lexString (s\<lparr>cursor := cursor s - 1\<rparr>)
          else if c = SQUOTE then lexChar (s\<lparr>cursor := cursor s - 1\<rparr>)
          else (let (type, s) = lexOperator c s
                in Some (mk_token start (tok_length start s) type, s)));
       Some (tok, push_token tok s)
     }
   }"

end
