(* ===== verification/Lexer_Spec.thy ===== *)
theory Lexer_Spec
  imports Lexer
begin

text \<open>
  A reference lexer on character lists, and the refinement of \<open>nextToken\<close> to it: on a source
  of less than \<open>2 ^ 32\<close> bytes every loop of the lexer stops, and the token and the new cursor
  are the reference's on the unread suffix. \<open>at_suffix s r\<close> is the state \<open>s\<close> with its cursor
  moved to where the suffix \<open>r\<close> of the source starts.
\<close>

section \<open>The unread suffix\<close>

definition unread :: "Lexer \<Rightarrow> string" where
  "unread s = drop (unat (cursor s)) (source s)"

definition lexer_ok :: "Lexer \<Rightarrow> bool" where
  "lexer_ok s \<longleftrightarrow> length (source s) < 2 ^ 32 \<and> unat (cursor s) \<le> length (source s)"

definition at_suffix :: "Lexer \<Rightarrow> string \<Rightarrow> Lexer" where
  "at_suffix s r = s\<lparr>cursor := of_nat (length (source s) - length r)\<rparr>"

definition next_char :: "string \<Rightarrow> char" where
  "next_char cs = (case cs of [] \<Rightarrow> NUL | c # _ \<Rightarrow> c)"

lemma next_char_simps [simp]: "next_char [] = NUL" "next_char (c # cs) = c"
  by (simp_all add: next_char_def)

lemma lexer_ok_cursor:
  assumes "lexer_ok s"
  shows "unat (cursor s) = length (source s) - length (unread s)"
    and "length (unread s) \<le> length (source s)"
  using assms by (simp_all add: lexer_ok_def unread_def)

lemma at_suffix_unread: "lexer_ok s \<Longrightarrow> at_suffix s (unread s) = s"
proof -
  assume "lexer_ok s"
  then have "of_nat (length (source s) - length (unread s)) = cursor s"
    by (simp flip: lexer_ok_cursor(1))
  then show ?thesis by (simp add: at_suffix_def)
qed

lemma source_at_suffix [simp]: "source (at_suffix s r) = source s"
  by (simp add: at_suffix_def)

lemma thisExpr_at_suffix [simp]: "thisExpr (at_suffix s r) = thisExpr s"
  by (simp add: at_suffix_def)

lemma at_suffix_at_suffix [simp]: "at_suffix (at_suffix s r) r' = at_suffix s r'"
  by (simp add: at_suffix_def)

lemma at_suffix_absorb [simp]: "at_suffix (at_suffix s r) = at_suffix s"
  by (rule ext) simp

lemma unat_cursor_at_suffix:
  assumes "lexer_ok s"
  shows "unat (cursor (at_suffix s r)) = length (source s) - length r"
  using assms by (simp add: at_suffix_def lexer_ok_def unat_of_nat_lt less_imp_diff_less)

lemma lexer_ok_at_suffix:
  assumes "lexer_ok s"
  shows "lexer_ok (at_suffix s r)"
  using assms unat_cursor_at_suffix [OF assms, of r] by (simp add: lexer_ok_def)

lemma unread_suffix_source: "suffix (unread s) (source s)"
  by (simp add: unread_def suffix_drop)

lemma unread_at_suffix:
  assumes "lexer_ok s" and "suffix r (unread s)"
  shows "unread (at_suffix s r) = r"
proof -
  from assms(2) unread_suffix_source have "suffix r (source s)"
    by (rule suffix_order.trans)
  then show ?thesis
    using unat_cursor_at_suffix [OF assms(1), of r] by (auto simp: unread_def suffix_def)
qed

section \<open>Primitive operations on the unread suffix\<close>

lemma unread_Cons_less: "unread s = c # cs \<Longrightarrow> unat (cursor s) < length (source s)"
  unfolding unread_def by (drule drop_eq_Cons_conv) simp

lemma unread_Nil_iff: "unread s = [] \<longleftrightarrow> length (source s) \<le> unat (cursor s)"
  by (simp add: unread_def)

lemma peek0 [lex_simps]: "peek s 0 = next_char (unread s)"
proof (cases "unread s")
  case Nil
  then have "length (source s) \<le> unat (cursor s)" by (simp only: unread_Nil_iff)
  with Nil show ?thesis by (simp add: peek_def)
next
  case (Cons c cs)
  then have "unat (cursor s) < length (source s) \<and> source s ! unat (cursor s) = c"
    unfolding unread_def by (drule_tac drop_eq_Cons_conv) simp
  with Cons show ?thesis by (simp add: peek_def)
qed

lemma unat_cursor_plus_1:
  "lexer_ok s \<Longrightarrow> unread s = c # cs \<Longrightarrow> unat (cursor s + 1) = Suc (unat (cursor s))"
  by (rule unat_Suc_lt [where n = "length (source s)"])
    (auto simp: lexer_ok_def dest: unread_Cons_less)

lemma peek1 [lex_simps]:
  assumes "lexer_ok s" and "unread s = c # cs"
  shows "peek s 1 = next_char cs"
proof -
  have cs: "drop (Suc (unat (cursor s))) (source s) = cs"
    using assms(2) unfolding unread_def by (drule_tac drop_eq_Cons_conv) simp
  show ?thesis
  proof (cases cs)
    case Nil
    with cs show ?thesis by (simp add: peek_def unat_cursor_plus_1 [OF assms])
  next
    case (Cons d ds)
    with cs have "drop (Suc (unat (cursor s))) (source s) = d # ds" by simp
    from drop_eq_Cons_conv [OF this] Cons show ?thesis
      by (simp add: peek_def unat_cursor_plus_1 [OF assms])
  qed
qed

lemma advance_Cons [lex_simps]:
  assumes "lexer_ok s" and "unread s = c # cs"
  shows "advance s = (c, at_suffix s cs)"
proof -
  have c: "unat (cursor s) < length (source s)" "source s ! unat (cursor s) = c"
    and cs: "drop (Suc (unat (cursor s))) (source s) = cs"
    using assms(2) unfolding unread_def by (auto dest: drop_eq_Cons_conv)
  from cs c have "length (source s) - length cs = Suc (unat (cursor s))"
    by auto
  then have "at_suffix s cs = s\<lparr>cursor := cursor s + 1\<rparr>"
    by (simp add: at_suffix_def)
  with c show ?thesis by (simp add: advance_def)
qed

lemma adv_Cons:
  "lexer_ok s \<Longrightarrow> unread s = c # cs \<Longrightarrow> adv s = at_suffix s cs"
  by (simp add: adv_def advance_Cons)

lemma adv_Nil: "unread s = [] \<Longrightarrow> adv s = s"
  by (simp add: adv_def advance_def unread_Nil_iff)

lemma adv_eq [lex_simps]: "lexer_ok s \<Longrightarrow> adv s = at_suffix s (tl (unread s))"
  by (cases "unread s") (simp_all add: adv_Cons adv_Nil, metis adv_Nil at_suffix_unread)

lemma match_eq [lex_simps]:
  assumes "lexer_ok s"
  shows "match e s =
    (case unread s of
       [] \<Rightarrow> (False, s)
     | c # cs \<Rightarrow> if c = e then (True, at_suffix s cs) else (False, s))"
proof (cases "unread s")
  case Nil
  then have "length (source s) \<le> unat (cursor s)" by (simp only: unread_Nil_iff)
  with Nil show ?thesis by (simp add: match_def)
next
  case (Cons c cs)
  then have c: "unat (cursor s) < length (source s)" "source s ! unat (cursor s) = c"
    unfolding unread_def by (auto dest: drop_eq_Cons_conv)
  with advance_Cons [OF assms Cons] have "at_suffix s cs = s\<lparr>cursor := cursor s + 1\<rparr>"
    by (simp add: advance_def)
  with c Cons show ?thesis by (simp add: match_def)
qed

lemma backtrack:
  assumes "lexer_ok s" and "unread s = c # cs"
  shows "(at_suffix s cs)\<lparr>cursor := cursor (at_suffix s cs) - 1\<rparr> = s"
proof -
  have "at_suffix s cs = s\<lparr>cursor := cursor s + 1\<rparr>"
    using advance_Cons [OF assms] unread_Cons_less [OF assms(2)] by (simp add: advance_def)
  then show ?thesis by simp
qed

section \<open>The reference lexer\<close>

definition is_space :: "char \<Rightarrow> bool" where
  "is_space c \<longleftrightarrow> c = CHR '' '' \<or> c = CHR 0x09 \<or> c = CHR 0x0D \<or> c = NEWLINE"

definition not_eol :: "char \<Rightarrow> bool" where
  "not_eol c \<longleftrightarrow> c \<noteq> NUL \<and> c \<noteq> NEWLINE"

fun ref_block :: "string \<Rightarrow> string" where
  "ref_block [] = []"
| "ref_block (c # cs) =
     (if c = NUL then c # cs
      else if c = CHR ''*'' \<and> next_char cs = CHR ''/'' then tl cs
      else ref_block cs)"

fun ref_quoted :: "char \<Rightarrow> string \<Rightarrow> string" where
  "ref_quoted q [] = []"
| "ref_quoted q (c # cs) =
     (if c = NUL then c # cs
      else if c = BACKSLASH then
        (case cs of [] \<Rightarrow> [] | d # ds \<Rightarrow> if d = NUL then d # ds else ref_quoted q ds)
      else if c = q then cs
      else ref_quoted q cs)"

lemma suffix_ref_block: "suffix (ref_block cs) cs"
proof (induction cs rule: ref_block.induct)
  case (2 c cs)
  then show ?case
    by (cases cs) (auto intro: suffix_ConsI)
qed simp

lemma suffix_ref_quoted: "suffix (ref_quoted q cs) cs"
proof (induction q cs rule: ref_quoted.induct)
  case (2 q c cs)
  then show ?case
    by (cases cs) (auto intro: suffix_ConsI)
qed simp

lemma suffix_length_dropWhile: "suffix (dropWhile P cs) cs"
  by (rule suffix_dropWhile)

function ref_skip :: "string \<Rightarrow> string" where
  "ref_skip cs =
     (if cs = [] then cs
      else if is_space (hd cs) then ref_skip (tl cs)
      else if hd cs = CHR ''/'' \<and> next_char (tl cs) = CHR ''/'' then
        ref_skip (dropWhile not_eol (tl (tl cs)))
      else if hd cs = CHR ''/'' \<and> next_char (tl cs) = CHR ''*'' then
        ref_skip (ref_block (tl (tl cs)))
      else cs)"
  by pat_completeness auto
termination
proof (relation "measure length", goal_cases)
  case (3 cs)
  have "length (dropWhile not_eol (tl (tl cs))) \<le> length (tl (tl cs))"
    by (rule length_dropWhile_le)
  with 3 show ?case by (cases cs) (auto simp: le_imp_less_Suc le_diff_conv)
next
  case (4 cs)
  have "length (ref_block (tl (tl cs))) \<le> length (tl (tl cs))"
    by (intro suffix_length_le suffix_ref_block)
  with 4 show ?case by (cases cs) (auto simp: le_imp_less_Suc le_diff_conv)
qed (auto simp: neq_Nil_conv)

declare ref_skip.simps [simp del]

lemma suffix_tl_tl: "suffix r (tl (tl cs)) \<Longrightarrow> suffix r cs"
  by (meson suffix_order.trans suffix_tl)

lemma suffix_ref_skip: "suffix (ref_skip cs) cs"
proof (induction cs rule: ref_skip.induct)
  case (1 cs)
  show ?case
  proof (cases "cs = []")
    case True
    then show ?thesis by (simp add: ref_skip.simps)
  next
    case False
    then show ?thesis
      using "1.IH"
      by (subst ref_skip.simps)
        (auto intro: suffix_tl_tl suffix_order.trans [OF _ suffix_dropWhile]
          suffix_order.trans [OF _ suffix_ref_block] suffix_order.trans [OF _ suffix_tl])
  qed
qed

text \<open>The part of a number before its suffix letters, and whether it makes it a float.\<close>

definition ref_exponent :: "bool \<times> string \<Rightarrow> bool \<times> string" where
  "ref_exponent = (\<lambda>(isFloat, cs).
     if next_char cs = CHR ''e'' \<or> next_char cs = CHR ''E'' then
       (let ds = tl cs;
            ds = (if next_char ds = CHR ''+'' \<or> next_char ds = CHR ''-'' then tl ds else ds)
        in (True, dropWhile isDigit ds))
     else (isFloat, cs))"

definition ref_fraction :: "string \<Rightarrow> bool \<times> string" where
  "ref_fraction cs =
     (if next_char cs = CHR ''.'' \<and> isDigit (next_char (tl cs))
      then (True, dropWhile isDigit (tl cs)) else (False, cs))"

definition ref_number :: "string \<Rightarrow> bool \<times> string" where
  "ref_number cs =
     (let (isFloat, cs) =
       (if next_char cs = CHR ''0'' \<and>
           (next_char (tl cs) = CHR ''x'' \<or> next_char (tl cs) = CHR ''X'')
        then (False, dropWhile isxdigit (tl (tl cs)))
        else ref_exponent (ref_fraction (dropWhile isDigit cs)))
      in (isFloat, dropWhile isNumSuffix cs))"

section \<open>The loops compute the reference\<close>

lemma suffix_unread_Cons: "unread s = c # cs \<Longrightarrow> suffix cs (unread s)"
  by (simp add: suffix_ConsI)

lemma step_Cons:
  assumes "lexer_ok s" and "unread s = c # cs"
  shows "lexer_ok (at_suffix s cs)" and "unread (at_suffix s cs) = cs"
  using assms unread_at_suffix [OF assms(1) suffix_unread_Cons [OF assms(2)]]
  by (simp_all add: lexer_ok_at_suffix)

lemma skip_while_unfold:
  "skip_while P s = (if P (peek s 0) then skip_while P (adv s) else Some s)"
  unfolding skip_while_def by (rule while_option_unfold)

lemma skip_while_eq [lex_simps]:
  assumes "lexer_ok s" and "\<not> P NUL"
  shows "skip_while P s = Some (at_suffix s (dropWhile P (unread s)))"
  using assms
proof (induction "unread s" arbitrary: s)
  case Nil
  then have "peek s 0 = NUL" by (metis next_char_simps(1) peek0)
  with Nil show ?case
    by (subst skip_while_unfold) (metis Nil.hyps at_suffix_unread dropWhile.simps(1))
next
  case (Cons c cs)
  note u = Cons.hyps(2) [symmetric]
  show ?case
  proof (cases "P c")
    case True
    have "skip_while P (at_suffix s cs) = Some (at_suffix s (dropWhile P cs))"
      using Cons.hyps(1) [of "at_suffix s cs"] Cons.prems step_Cons [OF Cons.prems(1) u] by simp
    with True u show ?thesis
      by (subst skip_while_unfold) (simp add: peek0 adv_Cons [OF Cons.prems(1) u])
  next
    case False
    with u at_suffix_unread [OF Cons.prems(1)] show ?thesis
      by (subst skip_while_unfold) (simp add: peek0)
  qed
qed

lemma blockComment_loop_eq [lex_simps]:
  assumes "lexer_ok s"
  shows "blockComment_loop s = Some (at_suffix s (ref_block (unread s)))"
  using assms
proof (induction "unread s" arbitrary: s)
  case Nil
  then show ?case
    by (subst blockComment_loop.simps) (metis at_suffix_unread next_char_simps(1) peek0 ref_block.simps(1))
next
  case (Cons c cs)
  note u = Cons.hyps(2) [symmetric] and st = step_Cons [OF Cons.prems Cons.hyps(2) [symmetric]]
  have IH: "blockComment_loop (at_suffix s cs) = Some (at_suffix s (ref_block cs))"
    using Cons.hyps(1) [of "at_suffix s cs"] st by simp
  have adv2: "adv (at_suffix s cs) = at_suffix s (tl cs)"
    using adv_eq [OF st(1)] st(2) by simp
  show ?case
    using u IH adv2 at_suffix_unread [OF Cons.prems]
    by (subst blockComment_loop.simps)
      (auto simp: peek0 peek1 [OF Cons.prems u] adv_Cons [OF Cons.prems u])
qed

lemma quoted_loop_eq [lex_simps]:
  assumes "lexer_ok s"
  shows "quoted_loop q s = Some (at_suffix s (ref_quoted q (unread s)))"
  using assms
proof (induction "length (unread s)" arbitrary: s rule: less_induct)
  case less
  show ?case
  proof (cases "unread s")
    case Nil
    then show ?thesis
      by (subst quoted_loop.simps) (metis at_suffix_unread less.prems next_char_simps(1) peek0 ref_quoted.simps(1))
  next
    case (Cons c cs)
    note st = step_Cons [OF less.prems Cons]
    have IH1: "quoted_loop q (at_suffix s cs) = Some (at_suffix s (ref_quoted q cs))"
      using less.hyps [of "at_suffix s cs"] st Cons by simp
    have IH2: "quoted_loop q (at_suffix s ds) = Some (at_suffix s (ref_quoted q ds))"
      if "cs = d # ds" for d ds
      using less.hyps [of "at_suffix s ds"] step_Cons [OF st(1), of d ds] st(2) Cons that by simp
    show ?thesis
    proof (cases cs)
      case Nil
      with Cons IH1 st at_suffix_unread [OF less.prems] show ?thesis
        by (subst quoted_loop.simps) (auto simp: peek0 advance_Cons [OF less.prems Cons])
    next
      case (Cons d ds)
      have "adv (at_suffix s cs) = at_suffix s ds"
        using adv_Cons [OF st(1), of d ds] st(2) Cons by simp
      moreover have "ref_quoted q cs = cs" if "d = NUL"
        using that Cons by simp
      ultimately show ?thesis
        using \<open>unread s = c # cs\<close> IH1 IH2 [OF Cons] st at_suffix_unread [OF less.prems] Cons
        by (subst quoted_loop.simps)
          (auto simp: peek0 advance_Cons [OF less.prems \<open>unread s = c # cs\<close>])
    qed
  qed
qed

lemma skipWhitespaceAndComments_eq [lex_simps]:
  assumes "lexer_ok s"
  shows "skipWhitespaceAndComments s = Some (at_suffix s (ref_skip (unread s)))"
  using assms
proof (induction "length (unread s)" arbitrary: s rule: less_induct)
  case less
  show ?case
  proof (cases "unread s")
    case Nil
    then have "length (source s) \<le> unat (cursor s)" by (simp only: unread_Nil_iff)
    with Nil at_suffix_unread [OF less.prems] show ?thesis
      by (subst skipWhitespaceAndComments.simps, subst ref_skip.simps) simp
  next
    case (Cons c cs)
    note st = step_Cons [OF less.prems Cons] and lt = unread_Cons_less [OF Cons]
    have rec: "skipWhitespaceAndComments (at_suffix s r) = Some (at_suffix s (ref_skip r))"
      if "suffix r cs" for r
    proof -
      from that Cons have "suffix r (unread s)" by (simp add: suffix_ConsI)
      then have "unread (at_suffix s r) = r" by (rule unread_at_suffix [OF less.prems])
      moreover have "length r < length (unread s)"
        using suffix_length_le [OF that] Cons by simp
      ultimately show ?thesis
        using less.hyps [of "at_suffix s r"] lexer_ok_at_suffix [OF less.prems, of r] by simp
    qed
    have adv2: "adv (at_suffix s cs) = at_suffix s (tl cs)"
      using adv_eq [OF st(1)] st(2) by simp
    have st2: "lexer_ok (at_suffix s (tl cs))" "unread (at_suffix s (tl cs)) = tl cs"
      using lexer_ok_at_suffix [OF less.prems] unread_at_suffix [OF st(1), of "tl cs"] st(2)
      by (simp_all add: suffix_tl)
    have line: "skip_while (\<lambda>c. c \<noteq> NUL \<and> c \<noteq> NEWLINE) (adv (at_suffix s cs))
        = Some (at_suffix s (dropWhile not_eol (tl cs)))"
      using skip_while_eq [OF st2(1), of not_eol] st2(2)
      by (simp add: adv2 not_eol_def [abs_def])
    have block: "blockComment_loop (adv (at_suffix s cs)) = Some (at_suffix s (ref_block (tl cs)))"
      using blockComment_loop_eq [OF st2(1)] st2(2) by (simp add: adv2)
    have sufs: "suffix (dropWhile not_eol (tl cs)) cs" "suffix (ref_block (tl cs)) cs"
      by (meson suffix_dropWhile suffix_ref_block suffix_order.trans suffix_tl)+
    have adv1: "adv s = at_suffix s cs"
      using adv_eq [OF less.prems] Cons by simp
    show ?thesis
      using lt Cons at_suffix_unread [OF less.prems]
      by (subst skipWhitespaceAndComments.simps, subst ref_skip.simps)
        (auto simp: peek0 peek1 [OF less.prems Cons] is_space_def adv1 rec sufs line block)
  qed
qed

section \<open>Maximal munch\<close>

text \<open>The operators and punctuation, longest spelling first.\<close>

definition op_labels :: "TokenType list" where
  "op_labels =
     [Dots, GGrEquals, LLeEquals,
      PPlus, MMinus, PlusEquals, MinusEquals, StarEquals, SlashEquals, PercEquals, AmpEquals,
      BarEquals, TildeEquals, UpEquals, EEquals, NEquals, AAmp, BBar, GrEquals, LeEquals,
      GGreater, LLesser, CColon, SSlash, Arrow,
      Plus, Minus, Star, Slash, Amp, Bar, Up, Tilde, Excl, Perc, Question, Equals, Colon,
      Greater, Lesser, Dot, Left, Right, SqLeft, SqRight, BrLeft, BrRight, Semi, Comma]"

definition munch :: "string \<Rightarrow> TokenType \<times> string" where
  "munch cs =
     (case List.find (\<lambda>t. prefix (token_str t) cs) op_labels of
        Some t \<Rightarrow> (t, drop (length (token_str t)) cs)
      | None \<Rightarrow> (Unknown, tl cs))"

fun ref_try :: "(char \<times> TokenType) list \<Rightarrow> TokenType \<Rightarrow> string \<Rightarrow> TokenType \<times> string" where
  "ref_try [] d cs = (d, cs)"
| "ref_try ((c, t) # alts) d cs = (if prefix [c] cs then (t, tl cs) else ref_try alts d cs)"

lemma prefix_single: "prefix [c] cs \<longleftrightarrow> cs \<noteq> [] \<and> hd cs = c"
  by (cases cs) auto

lemma try_match_eq [lex_simps]:
  assumes "lexer_ok s"
  shows "try_match alts d s = map_prod id (at_suffix s) (ref_try alts d (unread s))"
  by (induction alts)
    (auto simp: match_eq [OF assms] at_suffix_unread [OF assms] prefix_single split: list.splits)

text \<open>Each branch of the \<open>switch\<close> takes the longest operator that starts there.\<close>

lemma munch_equals_alt:
  "munch (CHR ''*'' # cs) = ref_try [(CHR ''='', StarEquals)] Star cs"
  "munch (CHR ''%'' # cs) = ref_try [(CHR ''='', PercEquals)] Perc cs"
  "munch (CHR ''^'' # cs) = ref_try [(CHR ''='', UpEquals)] Up cs"
  "munch (CHR ''~'' # cs) = ref_try [(CHR ''='', TildeEquals)] Tilde cs"
  "munch (CHR ''!'' # cs) = ref_try [(CHR ''='', NEquals)] Excl cs"
  "munch (CHR ''='' # cs) = ref_try [(CHR ''='', EEquals)] Equals cs"
  by (cases cs; simp add: munch_def op_labels_def)+

lemma munch_two_alts:
  "munch (CHR ''+'' # cs) = ref_try [(CHR ''+'', PPlus), (CHR ''='', PlusEquals)] Plus cs"
  "munch (CHR ''-'' # cs) =
     ref_try [(CHR ''-'', MMinus), (CHR ''='', MinusEquals), (CHR ''>'', Arrow)] Minus cs"
  "munch (CHR ''/'' # cs) = ref_try [(CHR ''='', SlashEquals), (CHR ''/'', SSlash)] Slash cs"
  "munch (CHR ''&'' # cs) = ref_try [(CHR ''&'', AAmp), (CHR ''='', AmpEquals)] Amp cs"
  "munch (CHR ''|'' # cs) = ref_try [(CHR ''|'', BBar), (CHR ''='', BarEquals)] Bar cs"
  "munch (CHR '':'' # cs) = ref_try [(CHR '':'', CColon)] Colon cs"
  by (cases cs; auto simp: munch_def op_labels_def)+

lemma munch_Lesser:
  "munch (CHR ''<'' # cs) =
     (if prefix ''<'' cs then ref_try [(CHR ''='', LLeEquals)] LLesser (tl cs)
      else ref_try [(CHR ''='', LeEquals)] Lesser cs)"
proof (cases "prefix ''<'' cs")
  case True
  then obtain ds where "cs = CHR ''<'' # ds" by (auto simp: prefix_def)
  then show ?thesis by (cases ds; simp add: munch_def op_labels_def)
next
  case False
  then show ?thesis by (cases cs; auto simp: munch_def op_labels_def)
qed

lemma munch_Greater:
  "munch (CHR ''>'' # cs) =
     (if prefix ''>'' cs then ref_try [(CHR ''='', GGrEquals)] GGreater (tl cs)
      else ref_try [(CHR ''='', GrEquals)] Greater cs)"
proof (cases "prefix ''>'' cs")
  case True
  then obtain ds where "cs = CHR ''>'' # ds" by (auto simp: prefix_def)
  then show ?thesis by (cases ds; simp add: munch_def op_labels_def)
next
  case False
  then show ?thesis by (cases cs; auto simp: munch_def op_labels_def)
qed

lemma munch_dot:
  "munch (CHR ''.'' # cs) =
     (if next_char cs = CHR ''.'' \<and> next_char (tl cs) = CHR ''.'' then (Dots, tl (tl cs))
      else (Dot, cs))"
  by (cases cs; cases "tl cs") (auto simp: munch_def op_labels_def)

lemma munch_single:
  "munch (CHR ''?'' # cs) = (Question, cs)" "munch (CHR ''('' # cs) = (Left, cs)"
  "munch (CHR '')'' # cs) = (Right, cs)" "munch (CHR ''['' # cs) = (SqLeft, cs)"
  "munch (CHR '']'' # cs) = (SqRight, cs)" "munch (CHR ''{'' # cs) = (BrLeft, cs)"
  "munch (CHR ''}'' # cs) = (BrRight, cs)" "munch (CHR '';'' # cs) = (Semi, cs)"
  "munch (CHR '','' # cs) = (Comma, cs)"
  by (simp_all add: munch_def op_labels_def)

lemma op_labels_start:
  "\<forall>t \<in> set op_labels. token_str t \<noteq> [] \<and> hd (token_str t) \<in> set ''+-*/%&|^~!=<>:.?()[]{};,''"
  by (simp add: op_labels_def)

lemma munch_Unknown:
  assumes "c \<notin> set ''+-*/%&|^~!=<>:.?()[]{};,''"
  shows "munch (c # cs) = (Unknown, cs)"
proof -
  have "\<not> prefix (token_str t) (c # cs)" if "t \<in> set op_labels" for t
  proof
    assume "prefix (token_str t) (c # cs)"
    with that op_labels_start have "hd (token_str t) = c"
      by (auto simp: prefix_Cons)
    with that op_labels_start assms show False by blast
  qed
  then show ?thesis by (simp add: munch_def find_None_iff [THEN iffD2])
qed

lemmas munch_simps = munch_equals_alt munch_two_alts munch_Lesser munch_Greater munch_dot munch_single

lemma at_suffix_twice:
  assumes "lexer_ok s" and "suffix cs (unread s)"
  shows "lexer_ok (at_suffix s cs)" "unread (at_suffix s cs) = cs"
    "adv (at_suffix s cs) = at_suffix s (tl cs)"
    "peek (at_suffix s cs) 0 = next_char cs"
    "cs \<noteq> [] \<Longrightarrow> peek (at_suffix s cs) 1 = next_char (tl cs)"
proof -
  show ok: "lexer_ok (at_suffix s cs)" using assms(1) by (rule lexer_ok_at_suffix)
  show u: "unread (at_suffix s cs) = cs" using assms by (rule unread_at_suffix)
  show "adv (at_suffix s cs) = at_suffix s (tl cs)" using adv_eq [OF ok] u by simp
  show "peek (at_suffix s cs) 0 = next_char cs" by (simp add: peek0 u)
  show "peek (at_suffix s cs) 1 = next_char (tl cs)" if "cs \<noteq> []"
    using that peek1 [OF ok, of "hd cs" "tl cs"] u by simp
qed

lemma lexOperator_munch:
  assumes ok: "lexer_ok s" and suf: "suffix cs (unread s)"
  shows "lexOperator c (at_suffix s cs) = map_prod id (at_suffix s) (munch (c # cs))"
proof -
  note at = at_suffix_twice [OF ok suf]
  have tl: "suffix (tl cs) (unread s)" using suf by (meson suffix_order.trans suffix_tl)
  note at2 = at_suffix_twice [OF ok tl]
  have m: "match e (at_suffix s cs) =
      (if prefix [e] cs then (True, at_suffix s (tl cs)) else (False, at_suffix s cs))" for e
    using match_eq [OF at(1), of e] at(2) by (cases cs) auto
  have t: "try_match alts d (at_suffix s r) = map_prod id (at_suffix s) (ref_try alts d r)"
    if "lexer_ok (at_suffix s r)" "unread (at_suffix s r) = r" for alts d r
    using try_match_eq [OF that(1)] that(2) by simp
  note t1 = t [OF at(1,2)] and t2 = t [OF at2(1,2)]
  have dot: "peek (at_suffix s cs) 1 = next_char (tl cs)" if "next_char cs = CHR ''.''"
    using that at(5) by (cases cs) auto
  show ?thesis
  proof (cases "c \<in> set ''+-*/%&|^~!=<>:.?()[]{};,''")
    case True
    then show ?thesis
      by (simp only: list.set insert_iff empty_iff simp_thms, elim disjE)
        (simp_all add: lexOperator_def munch_simps m t1 t2 at at2 dot cong: conj_cong
          del: prefix_code try_match.simps)
  next
    case False
    then show ?thesis
      using munch_Unknown [OF False] by (simp add: lexOperator_def)
  qed
qed

section \<open>Refinement of the token handlers\<close>

lemma tok_length_at_suffix:
  assumes "lexer_ok s" and "suffix r (unread s)"
  shows "tok_length (cursor s) (at_suffix s r) = of_nat (length (unread s) - length r)"
proof -
  have le: "length r \<le> length (unread s)" "length (unread s) \<le> length (source s)"
    using assms by (auto simp: suffix_length_le lexer_ok_cursor)
  have "unat (cursor (at_suffix s r) - cursor s) = length (unread s) - length r"
    using le unat_cursor_at_suffix [OF assms(1), of r] lexer_ok_cursor(1) [OF assms(1)]
    by (simp add: unat_diff_le)
  then show ?thesis
    unfolding tok_length_def by (metis of_nat_unat)
qed

lemma lexIdentifierOrKeyword_eq:
  assumes "lexer_ok s"
  shows "lexIdentifierOrKeyword s =
    (let r = dropWhile isIdentBody (unread s);
         n = length (unread s) - length r;
         type = string_map (take (n mod 2 ^ 16) (unread s))
     in Some (mk_token (cursor s) (of_nat n) (if type = TBD then Ident else type), at_suffix s r))"
proof -
  have "\<not> isIdentBody NUL" by (simp add: isIdentBody_def isIdentStart_def)
  moreover have "unat (of_nat n :: u16) = n mod 2 ^ 16" for n
    by (simp add: unat_of_nat take_bit_eq_mod)
  ultimately show ?thesis
    using assms tok_length_at_suffix [OF assms suffix_dropWhile]
    by (simp add: lexIdentifierOrKeyword_def skip_while_eq Let_def substr_def unread_def)
qed

lemma quoted_token_eq:
  assumes "lexer_ok s" and "unread s = q # cs"
  shows "lexString s = Some (mk_token (cursor s)
      (of_nat (length (unread s) - length (ref_quoted DQUOTE cs))) LString,
      at_suffix s (ref_quoted DQUOTE cs))"
    and "lexChar s = Some (mk_token (cursor s)
      (of_nat (length (unread s) - length (ref_quoted SQUOTE cs))) LChar,
      at_suffix s (ref_quoted SQUOTE cs))"
proof -
  note st = step_Cons [OF assms]
  have suf: "suffix (ref_quoted q' cs) (unread s)" for q'
    using suffix_ref_quoted [of q' cs] assms(2) by (simp add: suffix_ConsI)
  show "lexString s = Some (mk_token (cursor s)
      (of_nat (length (unread s) - length (ref_quoted DQUOTE cs))) LString,
      at_suffix s (ref_quoted DQUOTE cs))"
    and "lexChar s = Some (mk_token (cursor s)
      (of_nat (length (unread s) - length (ref_quoted SQUOTE cs))) LChar,
      at_suffix s (ref_quoted SQUOTE cs))"
    using quoted_loop_eq [OF st(1)] st(2) tok_length_at_suffix [OF assms(1) suf]
    by (simp_all add: lexString_def lexChar_def adv_Cons [OF assms] Let_def)
qed

lemma suffix_ref_exponent: "suffix r cs \<Longrightarrow> suffix (snd (ref_exponent (b, r))) cs"
  unfolding ref_exponent_def Let_def
  by (auto intro: suffix_order.trans [OF suffix_dropWhile] suffix_order.trans [OF suffix_tl])

lemma suffix_ref_fraction: "suffix (snd (ref_fraction cs)) cs"
  unfolding ref_fraction_def
  by (auto intro: suffix_order.trans [OF suffix_dropWhile] suffix_tl)

lemma suffix_ref_number: "suffix (snd (ref_number cs)) cs"
proof -
  have "suffix (snd (ref_exponent (ref_fraction (dropWhile isDigit cs)))) cs"
    by (metis suffix_ref_exponent suffix_ref_fraction suffix_dropWhile suffix_order.trans
        prod.collapse)
  moreover have "suffix (dropWhile isxdigit (tl (tl cs))) cs"
    by (metis suffix_dropWhile suffix_tl_tl)
  ultimately show ?thesis
    unfolding ref_number_def Let_def
    by (auto split: prod.splits intro: suffix_order.trans [OF suffix_dropWhile])
qed

lemma NUL_classes [simp]:
  "\<not> isIdentBody NUL" "\<not> isIdentStart NUL" "\<not> isDigit NUL" "\<not> isxdigit NUL" "\<not> isNumSuffix NUL"
  by (simp_all add: isIdentBody_def isIdentStart_def isDigit_def isxdigit_def isNumSuffix_def)

lemma isDigit_next_char: "isDigit (next_char cs) \<Longrightarrow> cs \<noteq> []"
  by (cases cs) auto

text \<open>The scans of a number, each from a suffix of the unread text.\<close>

lemma skip_while_at_suffix:
  assumes "lexer_ok s" and "suffix cs (unread s)" and "\<not> P NUL"
  shows "skip_while P (at_suffix s cs) = Some (at_suffix s (dropWhile P cs))"
  using skip_while_eq [where P = P, OF at_suffix_twice(1) [OF assms(1,2)] assms(3)]
    at_suffix_twice(2) [OF assms(1,2)] by simp

lemma suffix_trans_ops:
  "suffix cs ds \<Longrightarrow> suffix (tl cs) ds" "suffix cs ds \<Longrightarrow> suffix (dropWhile P cs) ds"
  by (meson suffix_order.trans suffix_tl suffix_dropWhile)+

lemma lexFraction_eq:
  assumes "lexer_ok s" and "suffix cs (unread s)"
  shows "lexFraction (at_suffix s cs) = Some (map_prod id (at_suffix s) (ref_fraction cs))"
proof -
  note at = at_suffix_twice [OF assms] and sk = skip_while_at_suffix [OF assms(1)]
  have "suffix (tl cs) (unread s)" using assms(2) by (rule suffix_trans_ops)
  with at sk [of "tl cs" isDigit] show ?thesis
    by (cases cs) (auto simp: lexFraction_def ref_fraction_def Let_def)
qed

lemma lexExponent_eq:
  assumes "lexer_ok s" and "suffix cs (unread s)"
  shows "lexExponent b (at_suffix s cs) = Some (map_prod id (at_suffix s) (ref_exponent (b, cs)))"
proof -
  note at = at_suffix_twice [OF assms] and sk = skip_while_at_suffix [OF assms(1)]
  have tl: "suffix (tl cs) (unread s)" "suffix (tl (tl cs)) (unread s)"
    using assms(2) by (blast intro: suffix_trans_ops)+
  note at2 = at_suffix_twice [OF assms(1) tl(1)]
  from at at2 sk [OF tl(1), of isDigit] sk [OF tl(2), of isDigit] show ?thesis
    by (auto simp: lexExponent_def ref_exponent_def Let_def)
qed

lemma lexNumber_eq:
  assumes ok: "lexer_ok s" and ne: "unread s \<noteq> []"
  shows "lexNumber s =
    (let (isFloat, r) = ref_number (unread s)
     in Some (mk_token (cursor s) (of_nat (length (unread s) - length r))
          (if isFloat then LFloat else LInt), at_suffix s r))"
proof -
  let ?cs = "unread s" and ?d = "dropWhile isDigit (unread s)"
  have self: "at_suffix s ?cs = s" using ok by (rule at_suffix_unread)
  have p1: "peek s 1 = next_char (tl ?cs)"
    using at_suffix_twice(5) [OF ok suffix_order.refl ne] by (simp add: self)
  note sk = skip_while_at_suffix [OF ok]
  have suf: "suffix (tl ?cs) ?cs" "suffix (tl (tl ?cs)) ?cs" "suffix ?d ?cs"
    by (blast intro: suffix_trans_ops suffix_order.refl)+
  define fe where "fe = ref_exponent (ref_fraction ?d)"
  have fe: "suffix (snd fe) ?cs"
    unfolding fe_def using suf(3) suffix_ref_fraction
    by (metis suffix_ref_exponent suffix_order.trans prod.collapse)
  have fr: "suffix (snd (ref_fraction ?d)) ?cs"
    using suf(3) suffix_ref_fraction by (rule suffix_order.trans [rotated])
  have exp: "lexExponent (fst (ref_fraction ?d)) (at_suffix s (snd (ref_fraction ?d)))
      = Some (map_prod id (at_suffix s) fe)"
    using lexExponent_eq [OF ok fr] by (simp add: fe_def)
  note adv2 = at_suffix_twice(3) [OF ok suf(1)]
  show ?thesis
    using sk [OF suf(3), of isNumSuffix] sk [OF suf(2), of isxdigit]
    by (auto simp: lexNumber_def ref_number_def Let_def peek0 p1 adv_eq [OF ok] adv2
        skip_while_eq [OF ok] sk fe suffix_trans_ops suf lexFraction_eq [OF ok suf(3)] exp
        fe_def [symmetric] split_def
        tok_length_at_suffix [OF ok])
qed

section \<open>The refinement\<close>

text \<open>
  The reference for one token: kind and rest for an input that starts with \<open>c\<close>. The kind of
  a word is looked up in the first \<open>n mod 2 ^ 16\<close> of its \<open>n\<close> characters, because the length
  is cut to 16 bits before the text is taken.
\<close>

definition word_kind :: "string \<Rightarrow> TokenType" where
  "word_kind w =
     (let type = string_map (take (length w mod 2 ^ 16) w) in if type = TBD then Ident else type)"

definition ref_token :: "string \<Rightarrow> TokenType \<times> string" where
  "ref_token cs =
     (let c = next_char cs in
      if isIdentStart c then (word_kind (takeWhile isIdentBody cs), dropWhile isIdentBody cs)
      else if isDigit c then map_prod (\<lambda>f. if f then LFloat else LInt) id (ref_number cs)
      else if c = DQUOTE then (LString, ref_quoted DQUOTE (tl cs))
      else if c = SQUOTE then (LChar, ref_quoted SQUOTE (tl cs))
      else munch cs)"

text \<open>Kind, start and rest of the next token; nothing is left to read at the end of input.\<close>

definition ref_next :: "string \<Rightarrow> TokenType \<times> string \<times> string" where
  "ref_next cs =
     (let body = ref_skip cs in
      if body = [] then (Eof, [], []) else (fst (ref_token body), body, snd (ref_token body)))"

lemma suffix_munch: "suffix (snd (munch cs)) cs"
  by (auto simp: munch_def suffix_drop suffix_tl split: option.splits)

lemma suffix_ref_token: "suffix (snd (ref_token cs)) cs"
proof -
  have "suffix (ref_quoted q (tl cs)) cs" for q
    by (meson suffix_order.trans suffix_ref_quoted suffix_tl)
  then show ?thesis
    by (auto simp: ref_token_def Let_def suffix_dropWhile suffix_munch suffix_ref_number)
qed

lemma take_le_takeWhile:
  assumes "k \<le> length (takeWhile P cs)"
  shows "take k cs = take k (takeWhile P cs)"
proof -
  have "take k (takeWhile P cs) = take k (take (length (takeWhile P cs)) cs)"
    by (simp flip: takeWhile_eq_take)
  with assms show ?thesis by (simp add: min_def)
qed

lemma dropWhile_length_diff: "length cs - length (dropWhile P cs) = length (takeWhile P cs)"
proof -
  have "length (takeWhile P cs) + length (dropWhile P cs) = length cs"
    by (metis length_append takeWhile_dropWhile_id)
  then show ?thesis by simp
qed

lemma lex_word:
  assumes "lexer_ok s"
  shows "lexIdentifierOrKeyword s =
    Some (mk_token (cursor s) (of_nat (length (unread s) - length (dropWhile isIdentBody (unread s))))
      (word_kind (takeWhile isIdentBody (unread s))), at_suffix s (dropWhile isIdentBody (unread s)))"
proof -
  let ?w = "takeWhile isIdentBody (unread s)"
  have "take (length ?w mod 2 ^ 16) (unread s) = take (length ?w mod 2 ^ 16) ?w"
    by (rule take_le_takeWhile) (rule mod_less_eq_dividend)
  then show ?thesis
    by (simp add: lexIdentifierOrKeyword_eq [OF assms] Let_def word_kind_def dropWhile_length_diff)
qed

lemma nextToken_at_token:
  assumes ok: "lexer_ok s" and u: "unread s = c # cs" and skip: "ref_skip (unread s) = unread s"
  shows "nextToken s =
    (let (type, rest) = ref_token (unread s);
         tok = mk_token (cursor s) (of_nat (length (unread s) - length rest)) type
     in Some (tok, push_token tok (at_suffix s rest)))"
proof -
  have less: "\<not> length (source s) \<le> unat (cursor s)"
    using unread_Cons_less [OF u] by simp
  have skip_s: "skipWhitespaceAndComments s = Some s"
    by (simp add: skipWhitespaceAndComments_eq [OF ok] skip at_suffix_unread [OF ok])
  note backtr = backtrack [OF ok u] and adv = advance_Cons [OF ok u]
  have ne: "unread s \<noteq> []" using u by simp
  have op: "lexOperator c (at_suffix s cs) = map_prod id (at_suffix s) (munch (unread s))"
    using lexOperator_munch [OF ok suffix_unread_Cons [OF u], of c] u by simp
  have op_len: "tok_length (cursor s) (at_suffix s (snd (munch (unread s))))
      = of_nat (length (unread s) - length (snd (munch (unread s))))"
    by (rule tok_length_at_suffix [OF ok suffix_munch])
  show ?thesis
    using quoted_token_eq [OF ok u] lexNumber_eq [OF ok ne] lex_word [OF ok] op op_len
    by (auto simp: nextToken_def skip_s less adv backtr Let_def ref_token_def u split_def)
qed

lemma ref_skip_idem: "ref_skip (ref_skip cs) = ref_skip cs"
proof (induction cs rule: ref_skip.induct)
  case (1 cs)
  show ?case
  proof (cases "ref_skip cs = cs")
    case False
    then have "cs \<noteq> []" by (auto simp: ref_skip.simps [of "[]"])
    with False "1.IH" show ?thesis
      by (subst (1 2) ref_skip.simps [of cs]) (auto simp: ref_skip.simps [of cs] split: if_splits)
  qed simp
qed

lemma nextToken_skip:
  assumes ok: "lexer_ok s"
  shows "nextToken s = nextToken (at_suffix s (ref_skip (unread s)))"
proof -
  let ?s1 = "at_suffix s (ref_skip (unread s))"
  have ok1: "lexer_ok ?s1" and u1: "unread ?s1 = ref_skip (unread s)"
    using ok suffix_ref_skip by (simp_all add: lexer_ok_at_suffix unread_at_suffix)
  have "skipWhitespaceAndComments ?s1 = Some ?s1"
    by (simp add: skipWhitespaceAndComments_eq [OF ok1] u1 ref_skip_idem)
  then show ?thesis
    by (simp add: nextToken_def skipWhitespaceAndComments_eq [OF ok])
qed

lemma nextToken_ref:
  assumes "lexer_ok s"
  shows "nextToken s =
    (let (type, body, rest) = ref_next (unread s);
         tok = mk_token (of_nat (length (source s) - length body))
                 (of_nat (length body - length rest)) type
     in Some (tok, push_token tok (at_suffix s rest)))"
proof -
  let ?body = "ref_skip (unread s)"
  let ?s1 = "at_suffix s ?body"
  have ok1: "lexer_ok ?s1" and u1: "unread ?s1 = ?body"
    using assms suffix_ref_skip by (simp_all add: lexer_ok_at_suffix unread_at_suffix)
  show ?thesis
  proof (cases ?body)
    case Nil
    have "length (source s) \<le> unat (cursor ?s1)"
      using u1 Nil unread_Nil_iff [of ?s1] by simp
    then show ?thesis
      by (simp add: nextToken_def skipWhitespaceAndComments_eq [OF assms] ref_next_def Nil Let_def)
  next
    case (Cons c cs)
    have "ref_skip (unread ?s1) = unread ?s1" by (simp only: u1 ref_skip_idem)
    moreover have "unread ?s1 = c # cs" using u1 Cons by simp
    ultimately show ?thesis
      using nextToken_at_token [OF ok1, of c cs] Cons
      by (simp add: nextToken_skip [OF assms] ref_next_def Let_def split_def at_suffix_def)
  qed
qed

end
