(* ===== verification/Lexer_Props.thy ===== *)
theory Lexer_Props
  imports Lexer_Spec
begin

text \<open>
  What the tokens of the lexer promise to the parser: progress until the end of input, the
  text of a token, the kinds that occur, longest match for operators, and that only white
  space and comments lie between tokens.
\<close>

section \<open>Refinement and progress\<close>

text \<open>
  C3: On a source of less than \<open>2 ^ 32\<close> bytes \<open>nextToken\<close> returns (no loop of the lexer
  runs forever), and it returns the reference token: its kind, its start (the first byte
  after white space and comments), its length cut to 16 bits; the cursor is left at the end
  of the lexeme and the token is appended to the buffer.
\<close>

theorem nextToken_refines:
  assumes "lexer_ok s"
  shows "nextToken s =
    (let (type, body, rest) = ref_next (unread s);
         tok = mk_token (of_nat (length (source s) - length body))
                 (of_nat (length body - length rest)) type
     in Some (tok, push_token tok (at_suffix s rest)))"
  using assms by (rule nextToken_ref)

theorem nextToken_refines_witness:
  "(let (type, body, rest) = ref_next (unread (init_lexer ''/* c */ x+''));
        tok = mk_token (of_nat (10 - length body)) (of_nat (length body - length rest)) type
    in Some (tok, push_token tok (at_suffix (init_lexer ''/* c */ x+'') rest)))
   = Some (mk_token 8 1 Ident,
       \<lparr>source = ''/* c */ x+'', cursor = 9, thisExpr = [mk_token 8 1 Ident]\<rparr>)"
proof -
  have run: "nextToken (init_lexer ''/* c */ x+'') = Some (mk_token 8 1 Ident,
     \<lparr>source = ''/* c */ x+'', cursor = 9, thisExpr = [mk_token 8 1 Ident]\<rparr>)"
    by code_simp
  have ok: "lexer_ok (init_lexer ''/* c */ x+'')"
    by (simp add: lexer_ok_def init_lexer_def)
  have len: "length (source (init_lexer ''/* c */ x+'')) = 10"
    by (simp add: init_lexer_def)
  from nextToken_refines [OF ok] run show ?thesis unfolding len by simp
qed

definition fresh_token :: "Lexer \<Rightarrow> Token" where
  "fresh_token s =
     (let (type, body, rest) = ref_next (unread s)
      in mk_token (of_nat (length (source s) - length body))
           (of_nat (length body - length rest)) type)"

definition after_token :: "Lexer \<Rightarrow> Lexer" where
  "after_token s = push_token (fresh_token s) (at_suffix s (snd (snd (ref_next (unread s)))))"

lemma nextToken_eq: "lexer_ok s \<Longrightarrow> nextToken s = Some (fresh_token s, after_token s)"
  by (simp add: nextToken_ref fresh_token_def after_token_def Let_def split_def)

lemma ref_next_suffix:
  "suffix (fst (snd (ref_next cs))) cs" "suffix (snd (snd (ref_next cs))) (fst (snd (ref_next cs)))"
  "suffix (snd (snd (ref_next cs))) cs"
proof -
  show "suffix (fst (snd (ref_next cs))) cs"
    by (simp add: ref_next_def Let_def suffix_ref_skip)
  moreover show "suffix (snd (snd (ref_next cs))) (fst (snd (ref_next cs)))"
    by (simp add: ref_next_def Let_def suffix_ref_token)
  ultimately show "suffix (snd (snd (ref_next cs))) cs"
    by (rule suffix_order.trans [rotated])
qed

lemma isIdentStart_Body: "isIdentStart c \<Longrightarrow> isIdentBody c"
  by (simp add: isIdentBody_def)

lemma strict_suffix_dropWhile: "cs \<noteq> [] \<Longrightarrow> P (hd cs) \<Longrightarrow> length (dropWhile P cs) < length cs"
  by (cases cs) (auto simp: le_imp_less_Suc length_dropWhile_le)

lemma ref_number_shorter:
  assumes "isDigit (next_char cs)"
  shows "length (snd (ref_number cs)) < length cs"
proof -
  from assms have ne: "cs \<noteq> []" by (rule isDigit_next_char)
  have d: "length (dropWhile isDigit cs) < length cs"
    using assms ne by (intro strict_suffix_dropWhile) (auto simp: neq_Nil_conv)
  have e: "length (snd (ref_exponent (ref_fraction (dropWhile isDigit cs)))) \<le> length (dropWhile isDigit cs)"
    by (metis suffix_length_le suffix_ref_exponent suffix_ref_fraction prod.collapse)
  have x: "length (dropWhile isxdigit (tl (tl cs))) < length cs"
    using length_dropWhile_le [of isxdigit "tl (tl cs)"] ne by (cases cs) auto
  show ?thesis
    unfolding ref_number_def Let_def
    using d e x by (auto split: prod.splits intro: le_less_trans [OF length_dropWhile_le])
qed

lemma munch_shorter:
  assumes "cs \<noteq> []"
  shows "length (snd (munch cs)) < length cs"
proof (cases "List.find (\<lambda>t. prefix (token_str t) cs) op_labels")
  case None
  with assms show ?thesis by (simp add: munch_def)
next
  case (Some t)
  then have "t \<in> set op_labels" by (auto simp: find_Some_iff)
  with op_labels_start have "token_str t \<noteq> []" by blast
  with assms Some show ?thesis by (simp add: munch_def)
qed

lemma ref_token_shorter:
  assumes "cs \<noteq> []"
  shows "length (snd (ref_token cs)) < length cs"
proof -
  have "length (ref_quoted q (tl cs)) < length cs" for q
    using suffix_length_le [OF suffix_ref_quoted [of q "tl cs"]] assms by (cases cs) auto
  moreover have "length (dropWhile isIdentBody cs) < length cs" if "isIdentStart (next_char cs)"
    using that assms isIdentStart_Body
    by (intro strict_suffix_dropWhile) (auto simp: neq_Nil_conv)
  ultimately show ?thesis
    using assms by (simp add: ref_token_def Let_def munch_shorter ref_number_shorter)
qed

lemma munch_kind: "fst (munch cs) \<in> insert Unknown (set op_labels)"
  by (auto simp: munch_def find_Some_iff split: option.splits)

lemma word_kind_cases: "word_kind w = Ident \<or>
   word_kind w \<in> set switch_labels \<and> token_str (word_kind w) = take (length w mod 2 ^ 16) w"
  using string_map_eq_label [of "take (length w mod 2 ^ 16) w"]
  by (auto simp: word_kind_def Let_def)

lemma op_labels_not_Eof: "Eof \<notin> set op_labels" "Eof \<notin> set switch_labels"
  by (simp_all add: op_labels_def switch_labels_def)

lemma ref_token_not_Eof: "fst (ref_token cs) \<noteq> Eof"
  using munch_kind [of cs] word_kind_cases [of "takeWhile isIdentBody cs"] op_labels_not_Eof
  by (auto simp: ref_token_def Let_def)

lemma ref_next_Eof: "fst (ref_next cs) = Eof \<longleftrightarrow> ref_skip cs = []"
  by (simp add: ref_next_def Let_def ref_token_not_Eof)

lemma nextToken_facts:
  assumes "lexer_ok s" and "nextToken s = Some (tok, s')"
  shows "lexer_ok s' \<and> source s' = source s \<and> thisExpr s' = thisExpr s @ [tok] \<and>
    suffix (unread s') (unread s) \<and>
    (if tok_type tok = Eof then unread s' = [] else length (unread s') < length (unread s))"
proof -
  let ?body = "fst (snd (ref_next (unread s)))" and ?rest = "snd (snd (ref_next (unread s)))"
  have s': "s' = push_token tok (at_suffix s ?rest)" and tok: "tok_type tok = fst (ref_next (unread s))"
    using assms by (auto simp: nextToken_ref Let_def split_def)
  have suf: "suffix ?rest (unread s)" by (rule ref_next_suffix)
  have u: "unread s' = ?rest"
    using unread_at_suffix [OF assms(1) suf] s' by (simp add: unread_def push_token_def)
  have ok: "lexer_ok s'"
    using lexer_ok_at_suffix [OF assms(1), of ?rest] s' by (simp add: lexer_ok_def push_token_def)
  have len: "if ref_skip (unread s) = [] then ?rest = [] else length ?rest < length (unread s)"
    using ref_token_shorter [of "ref_skip (unread s)"] suffix_length_le [OF suffix_ref_skip]
    by (auto simp: ref_next_def Let_def intro: less_le_trans)
  show ?thesis
    using s' u ok suf len by (simp add: tok ref_next_Eof push_token_def split: if_splits)
qed

text \<open>
  C4: Every call of \<open>nextToken\<close> keeps the source, appends exactly its token to the buffer
  and leaves a valid cursor that never moves back; it answers \<open>Eof\<close> only when everything has
  been read and otherwise consumes at least one byte. A client that asks for tokens until
  \<open>Eof\<close> therefore stops after at most as many tokens as the source has bytes left.
\<close>

theorem nextToken_progress:
  assumes "lexer_ok s" and "nextToken s = Some (tok, s')"
  shows "lexer_ok s' \<and> source s' = source s \<and> thisExpr s' = thisExpr s @ [tok] \<and>
    suffix (unread s') (unread s) \<and>
    (if tok_type tok = Eof then unread s' = [] else length (unread s') < length (unread s))"
  using assms by (rule nextToken_facts)

theorem nextToken_progress_witness:
  "nextToken (init_lexer ''a // b'') = Some (mk_token 0 1 Ident,
     \<lparr>source = ''a // b'', cursor = 1, thisExpr = [mk_token 0 1 Ident]\<rparr>) \<and>
   suffix (unread \<lparr>source = ''a // b'', cursor = 1, thisExpr = [mk_token 0 1 Ident]\<rparr>)
     (unread (init_lexer ''a // b''))"
proof -
  have run: "nextToken (init_lexer ''a // b'') = Some (mk_token 0 1 Ident,
     \<lparr>source = ''a // b'', cursor = 1, thisExpr = [mk_token 0 1 Ident]\<rparr>)"
    by code_simp
  have ok: "lexer_ok (init_lexer ''a // b'')"
    by (simp add: lexer_ok_def init_lexer_def)
  from nextToken_progress [OF ok run] run show ?thesis by simp
qed

section \<open>The text of a token\<close>

lemma getText_ref:
  assumes "lexer_ok s" and "nextToken s = Some (tok, s')"
  shows "getText s' tok =
    (let (type, body, rest) = ref_next (unread s)
     in take ((length body - length rest) mod 2 ^ 16) body)"
proof -
  let ?body = "fst (snd (ref_next (unread s)))" and ?rest = "snd (snd (ref_next (unread s)))"
  let ?n = "length ?body - length ?rest"
  have tok: "tok = mk_token (of_nat (length (source s) - length ?body)) (of_nat ?n) (fst (ref_next (unread s)))"
    and src: "source s' = source s"
    using assms by (auto simp: nextToken_ref Let_def split_def push_token_def)
  have suf: "suffix ?body (source s)"
    using ref_next_suffix(1) unread_suffix_source by (rule suffix_order.trans)
  then have le: "length ?body \<le> length (source s)" by (rule suffix_length_le)
  have lt: "length (source s) < 2 ^ 32" using assms(1) by (simp add: lexer_ok_def)
  have size: "unat (tok_size tok) = ?n mod 2 ^ 16"
    by (simp add: tok unat_of_nat take_bit_eq_mod)
  have off: "unat (globalOffset tok) = length (source s) - length ?body"
    using lt by (simp add: tok unat_of_nat_lt less_imp_diff_less)
  have "?n mod 2 ^ 16 \<le> length ?body" by (meson diff_le_self le_trans mod_less_eq_dividend)
  then have sum: "unat (globalOffset tok) + unat (tok_size tok) \<le> length (source s)"
    using off size le by linarith
  have "unat (ucast (tok_size tok) :: u32) = unat (tok_size tok)"
    by (intro unat_ucast_lt) (simp add: size)
  then have "unat (globalOffset tok + ucast (tok_size tok)) = unat (globalOffset tok) + unat (tok_size tok)"
    using sum lt by (subst unat_add_lt) simp_all
  then have "getText s' tok = take (?n mod 2 ^ 16) (drop (length (source s) - length ?body) (source s))"
    using sum src by (simp add: getText_def size off)
  moreover have "drop (length (source s) - length ?body) (source s) = ?body"
    using suf by (auto simp: suffix_def)
  ultimately show ?thesis by (simp add: Let_def split_def)
qed

lemma op_labels_subset: "set op_labels \<subseteq> set switch_labels"
  by (auto simp: op_labels_def switch_labels_iff)

lemma munch_spelling:
  assumes "fst (munch cs) \<noteq> Unknown"
  shows "fst (munch cs) \<in> set op_labels" and "prefix (token_str (fst (munch cs))) cs"
    and "snd (munch cs) = drop (length (token_str (fst (munch cs)))) cs"
proof -
  from assms obtain t where t: "List.find (\<lambda>t. prefix (token_str t) cs) op_labels = Some t"
    by (cases "List.find (\<lambda>t. prefix (token_str t) cs) op_labels") (auto simp: munch_def)
  then have "t \<in> set op_labels \<and> prefix (token_str t) cs"
    by (auto simp: find_Some_iff)
  with t show "fst (munch cs) \<in> set op_labels" and "prefix (token_str (fst (munch cs))) cs"
    and "snd (munch cs) = drop (length (token_str (fst (munch cs)))) cs"
    by (simp_all add: munch_def)
qed

lemma literal_kinds_not_labels:
  "LInt \<notin> set switch_labels" "LFloat \<notin> set switch_labels" "LString \<notin> set switch_labels"
  "LChar \<notin> set switch_labels" "Ident \<notin> set switch_labels" "Unknown \<notin> set switch_labels"
  by (simp_all add: switch_labels_iff)

lemma ref_token_label_text:
  assumes "fst (ref_token cs) \<in> set switch_labels"
  shows "take ((length cs - length (snd (ref_token cs))) mod 2 ^ 16) cs = token_str (fst (ref_token cs))"
proof (cases "isIdentStart (next_char cs)")
  case True
  let ?w = "takeWhile isIdentBody cs"
  have rt: "ref_token cs = (word_kind ?w, dropWhile isIdentBody cs)"
    using True by (simp add: ref_token_def)
  with assms literal_kinds_not_labels have "token_str (word_kind ?w) = take (length ?w mod 2 ^ 16) ?w"
    using word_kind_cases [of ?w] by auto
  moreover have "take (length ?w mod 2 ^ 16) cs = take (length ?w mod 2 ^ 16) ?w"
    by (rule take_le_takeWhile) (rule mod_less_eq_dividend)
  ultimately show ?thesis by (simp add: rt dropWhile_length_diff)
next
  case False
  have "ref_token cs = munch cs"
    using assms False literal_kinds_not_labels by (auto simp: ref_token_def Let_def split: if_splits)
  moreover from this assms literal_kinds_not_labels have k: "fst (munch cs) \<noteq> Unknown" by auto
  moreover have "length (token_str (fst (munch cs))) \<le> 3"
    using munch_spelling(1) [OF k] by (auto simp: op_labels_def)
  moreover have "take (length (token_str (fst (munch cs)))) cs = token_str (fst (munch cs))"
    using munch_spelling(2) [OF k] take_length_prefix unfolding prefix_def by blast
  moreover note munch_spelling(3) [OF k] prefix_length_le [OF munch_spelling(2) [OF k]]
  ultimately show ?thesis by simp
qed

lemma nextToken_kind:
  assumes "lexer_ok s" and "nextToken s = Some (tok, s')"
  shows "tok_type tok = fst (ref_next (unread s))"
  using assms by (auto simp: nextToken_ref Let_def split_def)

text \<open>
  C6: The text of every keyword, operator and punctuation token, as \<open>getText\<close> returns it, is
  the spelling of its kind in \<open>TT_STRMAP\<close>: lexer and table agree, however long the word was
  that the keyword was read from.
\<close>

theorem spelled_token_text:
  assumes "lexer_ok s" and "nextToken s = Some (tok, s')" and "tok_type tok \<in> set switch_labels"
  shows "getText s' tok = token_str (tok_type tok)"
proof -
  have kind: "tok_type tok = fst (ref_next (unread s))"
    using assms(1,2) by (rule nextToken_kind)
  with assms(3) op_labels_not_Eof have "ref_skip (unread s) \<noteq> []"
    by (auto simp: ref_next_def Let_def)
  then have "ref_next (unread s) =
      (fst (ref_token (ref_skip (unread s))), ref_skip (unread s), snd (ref_token (ref_skip (unread s))))"
    by (simp add: ref_next_def Let_def)
  then show ?thesis
    using getText_ref [OF assms(1,2)] ref_token_label_text [of "ref_skip (unread s)"] kind assms(3)
    by (simp add: Let_def)
qed

theorem spelled_token_text_witness:
  "nextToken (init_lexer '' <<= a'') = Some (mk_token 1 3 LLeEquals,
     \<lparr>source = '' <<= a'', cursor = 4, thisExpr = [mk_token 1 3 LLeEquals]\<rparr>) \<and>
   getText \<lparr>source = '' <<= a'', cursor = 4, thisExpr = [mk_token 1 3 LLeEquals]\<rparr>
     (mk_token 1 3 LLeEquals) = ''<<=''"
proof -
  have run: "nextToken (init_lexer '' <<= a'') = Some (mk_token 1 3 LLeEquals,
     \<lparr>source = '' <<= a'', cursor = 4, thisExpr = [mk_token 1 3 LLeEquals]\<rparr>)"
    by code_simp
  have ok: "lexer_ok (init_lexer '' <<= a'')"
    by (simp add: lexer_ok_def init_lexer_def)
  from spelled_token_text [OF ok run] run show ?thesis
    by (simp add: switch_labels_iff)
qed

section \<open>Kinds that occur\<close>

lemma ref_skip_not_comment: "ref_skip cs = CHR ''/'' # ds \<Longrightarrow> next_char ds \<noteq> CHR ''/''"
proof
  assume e: "ref_skip cs = CHR ''/'' # ds" and n: "next_char ds = CHR ''/''"
  have "length (ref_skip (ref_skip cs)) < length (ref_skip cs)"
  proof -
    have "length (ref_skip (dropWhile not_eol (tl ds))) \<le> length (tl ds)"
      by (meson le_trans length_dropWhile_le suffix_length_le suffix_ref_skip)
    with n show ?thesis
      by (subst (1) ref_skip.simps) (simp add: e is_space_def le_imp_less_Suc le_diff_conv)
  qed
  then show False by (simp add: ref_skip_idem)
qed

lemma word_kind_not_SSlash:
  assumes "\<forall>c \<in> set w. isIdentBody c"
  shows "word_kind w \<noteq> SSlash"
proof
  assume "word_kind w = SSlash"
  then have "take (length w mod 2 ^ 16) w = ''//''"
    using word_kind_cases [of w] by simp
  then have "CHR ''/'' \<in> set (take (length w mod 2 ^ 16) w)" by simp
  then have "isIdentBody (CHR ''/'')" using assms by (blast dest: in_set_takeD)
  then show False by (simp add: isIdentBody_def isIdentStart_def)
qed

lemma munch_not_SSlash:
  assumes "cs = ref_skip ds"
  shows "fst (munch cs) \<noteq> SSlash"
proof
  assume a: "fst (munch cs) = SSlash"
  then have "prefix ''//'' cs" using munch_spelling(2) [of cs] by simp
  then obtain es where "ref_skip ds = CHR ''/'' # CHR ''/'' # es" using assms by (auto simp: prefix_def)
  with ref_skip_not_comment [of ds] show False by fastforce
qed

lemma hidden_kinds_not_ops:
  "WideComment \<notin> set op_labels" "External \<notin> set op_labels" "TBD \<notin> set op_labels"
  "tt_count \<notin> set op_labels"
  by (simp_all add: op_labels_def)

lemma hidden_kinds_not_labels:
  "WideComment \<notin> set switch_labels" "External \<notin> set switch_labels" "TBD \<notin> set switch_labels"
  "tt_count \<notin> set switch_labels"
  by (simp_all add: switch_labels_iff)

text \<open>
  C14: The kinds \<open>SSlash\<close>, \<open>WideComment\<close>, \<open>External\<close>, \<open>TBD\<close> and \<open>count\<close> never reach the
  parser; in particular the branch of \<open>nextToken\<close> that makes an \<open>SSlash\<close> token from \<open>//\<close>
  cannot be taken, because \<open>//\<close> has been skipped as a comment before.
\<close>

theorem nextToken_kinds:
  assumes "lexer_ok s" and "nextToken s = Some (tok, s')"
  shows "tok_type tok \<notin> {SSlash, WideComment, External, TBD, tt_count}"
proof -
  let ?body = "ref_skip (unread s)"
  have "word_kind (takeWhile isIdentBody ?body) \<noteq> SSlash"
    by (rule word_kind_not_SSlash) (auto dest: set_takeWhileD)
  moreover have "fst (munch ?body) \<noteq> SSlash" by (rule munch_not_SSlash) (rule refl)
  ultimately have "fst (ref_token ?body) \<notin> {SSlash, WideComment, External, TBD, tt_count}"
    using word_kind_cases [of "takeWhile isIdentBody ?body"] munch_kind [of ?body]
      hidden_kinds_not_ops hidden_kinds_not_labels
    by (auto simp: ref_token_def Let_def)
  then show ?thesis
    by (simp add: nextToken_kind [OF assms] ref_next_def Let_def)
qed

theorem nextToken_kinds_witness:
  "nextToken (init_lexer ''/// x'') = Some (mk_token 5 0 Eof,
     \<lparr>source = ''/// x'', cursor = 5, thisExpr = [mk_token 5 0 Eof]\<rparr>) \<and> Eof \<noteq> SSlash"
proof -
  have run: "nextToken (init_lexer ''/// x'') = Some (mk_token 5 0 Eof,
     \<lparr>source = ''/// x'', cursor = 5, thisExpr = [mk_token 5 0 Eof]\<rparr>)"
    by code_simp
  have ok: "lexer_ok (init_lexer ''/// x'')"
    by (simp add: lexer_ok_def init_lexer_def)
  from nextToken_kinds [OF ok run] run show ?thesis by simp
qed

section \<open>Longest match\<close>

lemma op_labels_sorted: "sorted_wrt (\<ge>) (map (\<lambda>t. length (token_str t)) op_labels)"
  by (simp add: op_labels_def)

lemma munch_longest:
  assumes "fst (munch cs) \<in> set op_labels" and "t \<in> set op_labels" and "prefix (token_str t) cs"
  shows "length (token_str t) \<le> length (token_str (fst (munch cs)))"
proof -
  have "List.find (\<lambda>t. prefix (token_str t) cs) op_labels \<noteq> None"
    using assms(2,3) by (auto simp: find_None_iff)
  then obtain u where u: "List.find (\<lambda>t. prefix (token_str t) cs) op_labels = Some u" by blast
  then obtain i where "i < length op_labels" "u = op_labels ! i"
      "\<forall>j < i. \<not> prefix (token_str (op_labels ! j)) cs"
    by (auto simp: find_Some_iff)
  moreover from u have "fst (munch cs) = u" by (simp add: munch_def)
  ultimately have i: "i < length op_labels" "fst (munch cs) = op_labels ! i"
      "\<forall>j < i. \<not> prefix (token_str (op_labels ! j)) cs"
    by simp_all
  obtain k where k: "k < length op_labels" "t = op_labels ! k"
    using assms(2) by (auto simp: in_set_conv_nth)
  with i(3) assms(3) have "i \<le> k" by (metis linorder_not_le)
  then show ?thesis
    using sorted_wrt_nth_less [OF op_labels_sorted, of i k] i k by (cases "i = k") auto
qed

text \<open>
  C7: Operators and punctuation are read by longest match: when \<open>nextToken\<close> answers one, no
  longer operator of the table starts at the same place.
\<close>

theorem nextToken_longest_operator:
  assumes "lexer_ok s" and "nextToken s = Some (tok, s')"
    and "tok_type tok \<in> set op_labels" and "t \<in> set op_labels"
    and "prefix (token_str t) (drop (unat (globalOffset tok)) (source s))"
  shows "length (token_str t) \<le> length (token_str (tok_type tok))"
proof -
  let ?body = "ref_skip (unread s)"
  have kind: "tok_type tok = fst (ref_next (unread s))" using assms(1,2) by (rule nextToken_kind)
  then have ne: "?body \<noteq> []" using assms(3) op_labels_not_Eof by (auto simp: ref_next_def Let_def)
  with kind have kt: "tok_type tok = fst (ref_token ?body)" by (simp add: ref_next_def Let_def)
  have off: "globalOffset tok = of_nat (length (source s) - length ?body)"
    using assms(1,2) by (auto simp: nextToken_ref Let_def split_def ref_next_def)
  have suf: "suffix ?body (source s)"
    using suffix_ref_skip unread_suffix_source by (rule suffix_order.trans)
  have "drop (unat (globalOffset tok)) (source s) = ?body"
    using assms(1) suf
    by (auto simp: off lexer_ok_def unat_of_nat_lt less_imp_diff_less suffix_def)
  with assms(5) have pre: "prefix (token_str t) ?body" by simp
  have "ref_token ?body = munch ?body"
  proof -
    have "\<not> isIdentStart (next_char ?body)" "\<not> isDigit (next_char ?body)"
        "next_char ?body \<noteq> DQUOTE" "next_char ?body \<noteq> SQUOTE"
    proof -
      have "token_str t \<noteq> [] \<and> hd (token_str t) \<in> set ''+-*/%&|^~!=<>:.?()[]{};,''"
        using op_labels_start assms(4) by blast
      moreover from this pre have "next_char ?body = hd (token_str t)"
        by (auto simp: prefix_def neq_Nil_conv)
      ultimately show "\<not> isIdentStart (next_char ?body)" "\<not> isDigit (next_char ?body)"
        "next_char ?body \<noteq> DQUOTE" "next_char ?body \<noteq> SQUOTE"
        by (auto simp: isIdentStart_def isDigit_def)
    qed
    then show ?thesis by (simp add: ref_token_def)
  qed
  then show ?thesis
    using munch_longest [of ?body t] assms(3,4) pre kt by simp
qed

theorem nextToken_longest_operator_witness:
  "nextToken (init_lexer ''>>=1'') = Some (mk_token 0 3 GGrEquals,
     \<lparr>source = ''>>=1'', cursor = 3, thisExpr = [mk_token 0 3 GGrEquals]\<rparr>) \<and>
   length (token_str GGreater) \<le> length (token_str GGrEquals)"
proof -
  have run: "nextToken (init_lexer ''>>=1'') = Some (mk_token 0 3 GGrEquals,
     \<lparr>source = ''>>=1'', cursor = 3, thisExpr = [mk_token 0 3 GGrEquals]\<rparr>)"
    by code_simp
  have ok: "lexer_ok (init_lexer ''>>=1'')"
    by (simp add: lexer_ok_def init_lexer_def)
  have "GGrEquals \<in> set op_labels" "GGreater \<in> set op_labels" by (simp_all add: op_labels_def)
  with nextToken_longest_operator [OF ok run, of GGreater] run show ?thesis
    by (simp add: init_lexer_def)
qed

section \<open>Identifiers\<close>

text \<open>
  An identifier token of less than \<open>2 ^ 16\<close> bytes is a maximal word: its text is the
  longest run of letters, digits and underscores from its first byte, it does not start with
  a digit and it is not the spelling of any keyword.
\<close>

lemma identifier_token_text:
  assumes "lexer_ok s" and "nextToken s = Some (tok, s')" and "tok_type tok = Ident"
    and "length (unread s) - length (unread s') < 2 ^ 16"
  shows "getText s' tok = takeWhile isIdentBody (drop (unat (globalOffset tok)) (source s)) \<and>
    isIdentStart (next_char (getText s' tok)) \<and> string_map (getText s' tok) = TBD"
proof -
  let ?body = "ref_skip (unread s)"
  let ?w = "takeWhile isIdentBody ?body"
  have kind: "tok_type tok = fst (ref_next (unread s))" using assms(1,2) by (rule nextToken_kind)
  with assms(3) have ne: "?body \<noteq> []" by (auto simp: ref_next_def Let_def)
  with kind assms(3) have kt: "fst (ref_token ?body) = Ident" by (simp add: ref_next_def Let_def)
  then have st: "isIdentStart (next_char ?body)"
    using munch_kind [of ?body] op_labels_subset literal_kinds_not_labels
    by (auto simp: ref_token_def Let_def split: if_splits)
  then have rt: "ref_token ?body = (word_kind ?w, dropWhile isIdentBody ?body)"
    by (simp add: ref_token_def)
  have nx: "ref_next (unread s) = (Ident, ?body, dropWhile isIdentBody ?body)"
    using ne kt by (simp add: ref_next_def Let_def rt)
  have off: "globalOffset tok = of_nat (length (source s) - length ?body)"
    and s': "s' = push_token tok (at_suffix s (dropWhile isIdentBody ?body))"
    using assms(1,2) by (auto simp: nextToken_ref nx Let_def)
  have suf: "suffix ?body (unread s)" by (rule suffix_ref_skip)
  then have "suffix (dropWhile isIdentBody ?body) (unread s)" by (rule suffix_trans_ops)
  then have u': "unread s' = dropWhile isIdentBody ?body"
    using unread_at_suffix [OF assms(1)] s' by (simp add: unread_def push_token_def)
  have "length ?body - length (dropWhile isIdentBody ?body) < 2 ^ 16"
    using suffix_length_le [OF suf] assms(4) by (simp add: u')
  then have len: "length ?w < 2 ^ 16" by (simp only: dropWhile_length_diff)
  have tx: "getText s' tok = ?w"
    using getText_ref [OF assms(1,2)] len
    by (simp add: nx dropWhile_length_diff flip: takeWhile_eq_take)
  have body: "drop (unat (globalOffset tok)) (source s) = ?body"
    using assms(1) suffix_order.trans [OF suf unread_suffix_source]
    by (auto simp: off lexer_ok_def unat_of_nat_lt less_imp_diff_less suffix_def)
  have "word_kind ?w = Ident" using kt rt by simp
  then have "string_map ?w = TBD"
    using len string_map_eq_label [of ?w] literal_kinds_not_labels
    by (auto simp: word_kind_def Let_def split: if_splits)
  moreover have "next_char ?w = next_char ?body"
    using st isIdentStart_Body ne by (cases ?body) auto
  ultimately show ?thesis using st tx body by simp
qed

text \<open>
  The 16-bit length makes a long identifier lex as a keyword: a word of \<open>2 ^ 16 + 2\<close>
  characters that starts with \<open>if\<close> is answered as the keyword \<open>if\<close> with a length of 2, and
  the cursor moves behind the whole word.
\<close>

lemma long_identifier_lexes_as_keyword:
  "map_option (\<lambda>(tok, s). (tok, unat (cursor s)))
     (nextToken (init_lexer (''if'' @ replicate 65536 (CHR ''x'')))) = Some (mk_token 0 2 kIf, 65538)"
proof -
  let ?src = "''if'' @ replicate 65536 (CHR ''x'')" and ?s = "init_lexer (''if'' @ replicate 65536 (CHR ''x''))"
  have ok: "lexer_ok ?s" by (simp add: lexer_ok_def init_lexer_def)
  have u: "unread ?s = ?src" by (simp add: unread_def init_lexer_def)
  have skip: "ref_skip ?src = ?src"
    by (subst ref_skip.simps) (simp add: is_space_def)
  have all: "\<forall>c \<in> set ?src. isIdentBody c"
    by (auto simp: isIdentBody_def isIdentStart_def)
  then have tw: "takeWhile isIdentBody ?src = ?src" and dw: "dropWhile isIdentBody ?src = []"
    by (auto simp: takeWhile_eq_all_conv dropWhile_eq_Nil_conv)
  have "string_map ''if'' = kIf"
    using string_map_token_str [of kIf] by (simp add: switch_labels_iff)
  moreover have "take (length ?src mod 2 ^ 16) ?src = ''if''" by simp
  ultimately have "word_kind ?src = kIf" by (simp only: word_kind_def Let_def) simp
  moreover have "isIdentStart (next_char ?src)" by (simp add: isIdentStart_def)
  ultimately have "ref_token ?src = (kIf, [])"
    unfolding ref_token_def Let_def tw dw by (simp only: if_True)
  then have nx: "ref_next (unread ?s) = (kIf, ?src, [])"
    unfolding u ref_next_def skip Let_def by simp
  have size: "(65538 :: u16) = 2"
    by (simp add: word_unat_eq_iff)
  have "nextToken ?s = Some (mk_token 0 2 kIf, push_token (mk_token 0 2 kIf) (at_suffix ?s []))"
    unfolding nextToken_ref [OF ok] nx by (simp add: init_lexer_def Let_def size)
  moreover have "unat (cursor (push_token t (at_suffix ?s []))) = 65538" for t
    using unat_cursor_at_suffix [OF ok, of "[]"] by (simp add: push_token_def) (simp add: init_lexer_def)
  ultimately show ?thesis by simp
qed

end
