(* ===== verification/AST_Def.thy ===== *)
theory AST_Def
  imports Token_Map
begin

text \<open>
  \<open>common/AST/AST_def.h\<close>: the nodes of the syntax tree and the table that holds them. A node
  has the layout of the C++ struct: a one-byte kind and one byte of qualifier bits, 16 reserved
  bits, the place in the source, and a union of seven structs, which is three 32-bit words. A
  \<open>TokenType\<close> member of the union is the low byte of the first word (the layout of a
  little-endian machine; the three bytes of padding behind it are zero), so that reading a
  member other than the one written last gives what the machine reads.
\<close>

section \<open>Kinds and qualifiers\<close>

type_synonym NodeId = u32

definition kNullNode :: NodeId where
  "kNullNode = 0xFFFFFFFF"

datatype NodeKind =
    TranslationUnit | VarDecl | TypeDecl | StructDecl | NamespaceDecl | FunctionDecl
  | BinaryExpr | UnaryExpr | LiteralExpr | IdentifierExpr | CallExpr | MemberAccessExpr | EvalExpr
  | DeleteExpr | CastExpr
  | CompileTimeJump

text \<open>The underlying \<open>uint8_t\<close> of an enumerator.\<close>

primrec nk_code :: "NodeKind \<Rightarrow> u8" where
  "nk_code TranslationUnit = 0"
| "nk_code VarDecl = 1"
| "nk_code TypeDecl = 2"
| "nk_code StructDecl = 3"
| "nk_code NamespaceDecl = 4"
| "nk_code FunctionDecl = 5"
| "nk_code BinaryExpr = 6"
| "nk_code UnaryExpr = 7"
| "nk_code LiteralExpr = 8"
| "nk_code IdentifierExpr = 9"
| "nk_code CallExpr = 10"
| "nk_code MemberAccessExpr = 11"
| "nk_code EvalExpr = 12"
| "nk_code DeleteExpr = 13"
| "nk_code CastExpr = 14"
| "nk_code CompileTimeJump = 15"

lemma nk_code_inj [simp]: "nk_code j = nk_code k \<longleftrightarrow> j = k"
  by (cases j; cases k) simp_all

definition tt_byte :: "TokenType \<Rightarrow> u8" where
  "tt_byte t = of_nat (tt_code t)"

lemma unat_tt_byte [simp]: "unat (tt_byte t) = tt_code t"
  using tt_code_less [of t] by (simp add: tt_byte_def unat_of_nat_lt)

lemma tt_byte_inj [simp]: "tt_byte s = tt_byte t \<longleftrightarrow> s = t"
  by (metis unat_tt_byte tt_code_inj)

record Qualifiers =
  isConstexpr :: bool
  isConst :: bool
  isStatic :: bool
  isInline :: bool
  isAuto :: bool

definition no_qualifiers :: Qualifiers where
  "no_qualifiers = \<lparr>isConstexpr = False, isConst = False, isStatic = False, isInline = False,
     isAuto = False\<rparr>"

section \<open>Nodes\<close>

record Node =
  kind :: u8
  qualifiers :: Qualifiers
  reserved :: u16
  sourceOffset :: u32
  sourceLength :: u16
  word0 :: u32
  word1 :: u32
  word2 :: u32

text \<open>The assignments \<open>data.binary = {...}\<close> and so on.\<close>

definition set_binary :: "TokenType \<Rightarrow> NodeId \<Rightarrow> NodeId \<Rightarrow> Node \<Rightarrow> Node" where
  "set_binary op lhs rhs n = n\<lparr>word0 := ucast (tt_byte op), word1 := lhs, word2 := rhs\<rparr>"

definition set_unary :: "TokenType \<Rightarrow> NodeId \<Rightarrow> Node \<Rightarrow> Node" where
  "set_unary op operand n = n\<lparr>word0 := ucast (tt_byte op), word1 := operand\<rparr>"

definition set_literal :: "TokenType \<Rightarrow> u32 \<Rightarrow> Node \<Rightarrow> Node" where
  "set_literal type tokenIndex n = n\<lparr>word0 := ucast (tt_byte type), word1 := tokenIndex\<rparr>"

definition set_varDecl :: "NodeId \<Rightarrow> NodeId \<Rightarrow> NodeId \<Rightarrow> Node \<Rightarrow> Node" where
  "set_varDecl typeNode nameNode initExpr n =
     n\<lparr>word0 := typeNode, word1 := nameNode, word2 := initExpr\<rparr>"

definition set_call :: "NodeId \<Rightarrow> NodeId \<Rightarrow> Node \<Rightarrow> Node" where
  "set_call target argsList n = n\<lparr>word0 := target, word1 := argsList\<rparr>"

definition set_deleteOp :: "NodeId \<Rightarrow> Node \<Rightarrow> Node" where
  "set_deleteOp target n = n\<lparr>word0 := target\<rparr>"

definition set_evalOp :: "NodeId \<Rightarrow> NodeId \<Rightarrow> NodeId \<Rightarrow> Node \<Rightarrow> Node" where
  "set_evalOp cond thenBlock elseBlock n =
     n\<lparr>word0 := cond, word1 := thenBlock, word2 := elseBlock\<rparr>"

text \<open>The \<open>TokenType\<close> member of the union, whatever was stored there.\<close>

definition data_op :: "Node \<Rightarrow> u8" where
  "data_op n = ucast (word0 n)"

lemma ucast_ucast_u8 [simp]: "ucast (ucast (b :: u8) :: u32) = b"
proof (rule word_unat_eq_iff [THEN iffD2])
  have lt: "unat b < 2 ^ 8" using unsigned_less [of b] by simp
  then have "unat (ucast b :: u32) = unat b" by (intro unat_ucast_lt) simp
  with lt show "unat (ucast (ucast b :: u32) :: u8) = unat b" by (subst unat_ucast_lt) simp_all
qed

lemmas set_data_defs = set_binary_def set_unary_def set_literal_def set_varDecl_def set_call_def
  set_deleteOp_def set_evalOp_def

lemma data_op_set [simp]:
  "data_op (set_binary op l r n) = tt_byte op"
  "data_op (set_unary op x n) = tt_byte op"
  "data_op (set_literal op i n) = tt_byte op"
  by (simp_all add: data_op_def set_data_defs)

lemma kind_set [frame_simps]:
  "kind (set_binary op l r n) = kind n"
  "kind (set_unary op x n) = kind n"
  "kind (set_literal ty i n) = kind n"
  "kind (set_varDecl a b c n) = kind n"
  "kind (set_call a b n) = kind n"
  "kind (set_deleteOp a n) = kind n"
  "kind (set_evalOp a b c n) = kind n"
  by (simp_all add: set_data_defs)

section \<open>The tree\<close>

text \<open>
  \<open>ASTTree\<close> is its vector of nodes. \<open>createNode\<close> appends a zeroed node and answers its index
  as a 32-bit id; \<open>tree.get(id) = ...\<close> is \<open>set_node\<close>.
\<close>

definition new_node :: "NodeKind \<Rightarrow> u32 \<Rightarrow> u16 \<Rightarrow> Node" where
  "new_node k offset len = \<lparr>kind = nk_code k, qualifiers = no_qualifiers, reserved = 0,
     sourceOffset = offset, sourceLength = len, word0 = 0, word1 = 0, word2 = 0\<rparr>"

definition createNode :: "NodeKind \<Rightarrow> u32 \<Rightarrow> u16 \<Rightarrow> Node list \<Rightarrow> NodeId \<times> Node list" where
  "createNode k offset len nodes =
     (let nodes = nodes @ [new_node k offset len] in (of_nat (length nodes - 1), nodes))"

definition get :: "Node list \<Rightarrow> NodeId \<Rightarrow> Node" where
  "get nodes i = nodes ! unat i"

definition set_node :: "NodeId \<Rightarrow> (Node \<Rightarrow> Node) \<Rightarrow> Node list \<Rightarrow> Node list" where
  "set_node i f nodes = nodes[unat i := f (nodes ! unat i)]"

text \<open>An id that \<open>get\<close> accepts.\<close>

definition valid_id :: "Node list \<Rightarrow> NodeId \<Rightarrow> bool" where
  "valid_id nodes i \<longleftrightarrow> unat i < length nodes"

lemma createNode_id:
  "length nodes < 2 ^ 32 \<Longrightarrow> unat (fst (createNode k off len nodes)) = length nodes"
  by (simp add: createNode_def unat_of_nat_lt)

lemma createNode_nodes: "snd (createNode k off len nodes) = nodes @ [new_node k off len]"
  by (simp add: createNode_def)

lemma length_set_node [simp]: "length (set_node i f nodes) = length nodes"
  by (simp add: set_node_def)

lemma get_set_node:
  "valid_id nodes i \<Longrightarrow> valid_id nodes j \<Longrightarrow>
    get (set_node i f nodes) j = (if j = i then f (get nodes i) else get nodes j)"
  by (auto simp: valid_id_def get_def set_node_def nth_list_update word_unat_eq_iff)

section \<open>Well-formed trees\<close>

text \<open>
  The ids a node refers to, by its kind; of a \<open>CompileTimeJump\<close> a \<open>break\<close> or \<open>continue\<close> has
  none and a loop has three. The first word of a struct or namespace is a source offset.
\<close>

definition is_kind :: "Node \<Rightarrow> NodeKind \<Rightarrow> bool" where
  "is_kind n k \<longleftrightarrow> kind n = nk_code k"

definition children :: "Node \<Rightarrow> NodeId list" where
  "children n =
     (if is_kind n VarDecl \<or> is_kind n TypeDecl \<or> is_kind n FunctionDecl \<or> is_kind n EvalExpr
      then [word0 n, word1 n, word2 n]
      else if is_kind n CompileTimeJump then
        (if word0 n = ucast (tt_byte kBreak) \<and> word1 n = kNullNode \<or>
            word0 n = ucast (tt_byte kContinue) \<and> word1 n = kNullNode
         then [] else [word0 n, word1 n, word2 n])
      else if is_kind n BinaryExpr \<or> is_kind n MemberAccessExpr then [word1 n, word2 n]
      else if is_kind n UnaryExpr \<or> is_kind n StructDecl \<or> is_kind n NamespaceDecl then [word1 n]
      else if is_kind n CallExpr then [word0 n, word1 n]
      else if is_kind n DeleteExpr \<or> is_kind n CastExpr then [word0 n]
      else [])"

definition leaf_kind :: "Node \<Rightarrow> bool" where
  "leaf_kind n \<longleftrightarrow> is_kind n IdentifierExpr \<or> is_kind n LiteralExpr"

text \<open>
  A reference is null, or it points to an earlier node, or to a leaf that exists. (Declarations
  are created before the leaves for their type and name.) References of such a tree cannot form
  a cycle.
\<close>

definition ref_ok :: "Node list \<Rightarrow> nat \<Rightarrow> NodeId \<Rightarrow> bool" where
  "ref_ok nodes i c \<longleftrightarrow> c = kNullNode \<or>
     unat c < length nodes \<and> (unat c < i \<or> leaf_kind (nodes ! unat c))"

definition tree_wf :: "Node list \<Rightarrow> bool" where
  "tree_wf nodes \<longleftrightarrow> (\<forall>i < length nodes. \<forall>c \<in> set (children (nodes ! i)). ref_ok nodes i c)"

lemma leaf_no_children: "leaf_kind n \<Longrightarrow> children n = []"
  by (auto simp: leaf_kind_def children_def is_kind_def)

lemma tree_wf_Nil: "tree_wf []"
  by (simp add: tree_wf_def)

lemma ref_ok_append: "ref_ok nodes i c \<Longrightarrow> ref_ok (nodes @ ms) i c"
  by (auto simp: ref_ok_def nth_append)

lemma ref_ok_mono: "ref_ok nodes i c \<Longrightarrow> i \<le> j \<Longrightarrow> ref_ok nodes j c"
  by (auto simp: ref_ok_def)

lemma tree_wf_snoc:
  assumes "tree_wf nodes" and "\<And>c. c \<in> set (children n) \<Longrightarrow> ref_ok (nodes @ [n]) (length nodes) c"
  shows "tree_wf (nodes @ [n])"
  using assms by (auto simp: tree_wf_def nth_append less_Suc_eq intro: ref_ok_append)

text \<open>One step from a node to one of its children.\<close>

definition child_rel :: "Node list \<Rightarrow> (nat \<times> nat) set" where
  "child_rel nodes = {(unat c, i) | c i. i < length nodes \<and> c \<in> set (children (nodes ! i)) \<and> c \<noteq> kNullNode}"

lemma wf_child_rel:
  assumes "tree_wf nodes"
  shows "wf (child_rel nodes)"
proof (rule wf_subset)
  let ?rank = "\<lambda>i. if i < length nodes \<and> leaf_kind (nodes ! i) then 0 else Suc i"
  show "wf (measure ?rank)" by simp
  show "child_rel nodes \<subseteq> measure ?rank"
    using assms leaf_no_children
    by (fastforce simp: child_rel_def tree_wf_def ref_ok_def)
qed

end
