(* ===== verification/AST_Manager.thy ===== *)
theory AST_Manager
  imports AST_Def
begin

text \<open>
  \<open>common/AST/AST_manager.h\<close> and \<open>AST_manager.cpp\<close>: the binary file format of a tree (a 32-bit
  node count, then the 24 bytes of every node) and its textual dump. The file system is a map
  from paths to contents; \<open>writable\<close> says which paths \<open>std::ofstream\<close> can open.
\<close>

section \<open>Names of the kinds\<close>

text \<open>The \<open>switch\<close> over the stored byte: a byte that is no enumerator takes the default.\<close>

definition nodeKindToString :: "u8 \<Rightarrow> string" where
  "nodeKindToString k =
     (if k = nk_code TranslationUnit then ''TranslationUnit''
      else if k = nk_code VarDecl then ''VarDecl''
      else if k = nk_code TypeDecl then ''TypeDecl''
      else if k = nk_code StructDecl then ''StructDecl''
      else if k = nk_code NamespaceDecl then ''NamespaceDecl''
      else if k = nk_code FunctionDecl then ''FunctionDecl''
      else if k = nk_code BinaryExpr then ''BinaryExpr''
      else if k = nk_code UnaryExpr then ''UnaryExpr''
      else if k = nk_code LiteralExpr then ''LiteralExpr''
      else if k = nk_code IdentifierExpr then ''IdentifierExpr''
      else if k = nk_code CallExpr then ''CallExpr''
      else if k = nk_code MemberAccessExpr then ''MemberAccessExpr''
      else if k = nk_code EvalExpr then ''EvalExpr''
      else if k = nk_code DeleteExpr then ''DeleteExpr''
      else if k = nk_code CastExpr then ''CastExpr''
      else if k = nk_code CompileTimeJump then ''CompileTimeJump''
      else ''UnknownNode'')"

section \<open>The bytes of a node\<close>

text \<open>Little-endian words; a \<open>bool\<close> bit field is one bit, the first declared the lowest.\<close>

definition u16_bytes :: "u16 \<Rightarrow> u8 list" where
  "u16_bytes w = [ucast w, ucast (drop_bit 8 w)]"

definition u32_bytes :: "u32 \<Rightarrow> u8 list" where
  "u32_bytes w = [ucast w, ucast (drop_bit 8 w), ucast (drop_bit 16 w), ucast (drop_bit 24 w)]"

definition u16_of_bytes :: "u8 list \<Rightarrow> u16" where
  "u16_of_bytes bs = ucast (bs ! 0) OR push_bit 8 (ucast (bs ! 1))"

definition u32_of_bytes :: "u8 list \<Rightarrow> u32" where
  "u32_of_bytes bs = ucast (bs ! 0) OR push_bit 8 (ucast (bs ! 1)) OR
     push_bit 16 (ucast (bs ! 2)) OR push_bit 24 (ucast (bs ! 3))"

definition qual_byte :: "Qualifiers \<Rightarrow> u8" where
  "qual_byte q = of_bool (isConstexpr q) OR push_bit 1 (of_bool (isConst q)) OR
     push_bit 2 (of_bool (isStatic q)) OR push_bit 3 (of_bool (isInline q)) OR
     push_bit 4 (of_bool (isAuto q))"

definition qual_of_byte :: "u8 \<Rightarrow> Qualifiers" where
  "qual_of_byte b = \<lparr>isConstexpr = bit b 0, isConst = bit b 1, isStatic = bit b 2,
     isInline = bit b 3, isAuto = bit b 4\<rparr>"

text \<open>
  \<open>sizeof(Node)\<close> is 24: two bytes of padding stand between the 16-bit length and the union,
  which is aligned to four bytes.
\<close>

definition node_bytes :: "Node \<Rightarrow> u8 list" where
  "node_bytes n = [kind n, qual_byte (qualifiers n)] @ u16_bytes (reserved n) @
     u32_bytes (sourceOffset n) @ u16_bytes (sourceLength n) @ [0, 0] @
     u32_bytes (word0 n) @ u32_bytes (word1 n) @ u32_bytes (word2 n)"

definition sizeof_Node :: nat where
  "sizeof_Node = 24"

definition node_of_bytes :: "u8 list \<Rightarrow> Node" where
  "node_of_bytes bs = \<lparr>kind = bs ! 0, qualifiers = qual_of_byte (bs ! 1),
     reserved = u16_of_bytes (drop 2 bs), sourceOffset = u32_of_bytes (drop 4 bs),
     sourceLength = u16_of_bytes (drop 8 bs), word0 = u32_of_bytes (drop 12 bs),
     word1 = u32_of_bytes (drop 16 bs), word2 = u32_of_bytes (drop 20 bs)\<rparr>"

section \<open>Saving and loading\<close>

type_synonym filesystem = "string \<Rightarrow> u8 list option"

definition tree_bytes :: "Node list \<Rightarrow> u8 list" where
  "tree_bytes nodes =
     (let nodeCount = of_nat (length nodes) :: u32
      in u32_bytes nodeCount @ concat (map node_bytes (take (unat nodeCount) nodes)))"

definition saveToFile :: "(string \<Rightarrow> bool) \<Rightarrow> Node list \<Rightarrow> string \<Rightarrow> filesystem \<Rightarrow> bool \<times> filesystem" where
  "saveToFile writable tree filepath fs =
     (if \<not> writable filepath then (False, fs) else (True, fs(filepath \<mapsto> tree_bytes tree)))"

text \<open>
  \<open>file.read\<close> of \<open>n\<close> bytes: it fails when fewer are left. The loop of \<open>loadFromFile\<close> appends to
  the tree as it reads, so a short file leaves the nodes read so far in it.
\<close>

fun read_nodes :: "nat \<Rightarrow> u8 list \<Rightarrow> Node list \<Rightarrow> bool \<times> Node list" where
  "read_nodes 0 file nodes = (True, nodes)"
| "read_nodes (Suc k) file nodes =
     (if length file < sizeof_Node then (False, nodes)
      else read_nodes k (drop sizeof_Node file) (nodes @ [node_of_bytes (take sizeof_Node file)]))"

definition loadFromFile :: "string \<Rightarrow> filesystem \<Rightarrow> Node list \<Rightarrow> bool \<times> Node list" where
  "loadFromFile filepath fs outTree =
     (case fs filepath of
        None \<Rightarrow> (False, outTree)
      | Some file \<Rightarrow>
          if length file < 4 then (False, outTree)
          else (let nodeCount = u32_of_bytes (take 4 file)
                in read_nodes (unat nodeCount) (drop 4 file) []))"

section \<open>The textual dump\<close>

definition getOpStr :: "u8 \<Rightarrow> string" where
  "getOpStr type =
     (let idx = unat type in if idx < tt_code tt_count then TT_STRMAP ! idx else ''?'')"

definition dump_qualifiers :: "Qualifiers \<Rightarrow> string" where
  "dump_qualifiers q =
     (if isConstexpr q \<or> isConst q \<or> isStatic q \<or> isInline q \<or> isAuto q then
        '' ['' @ butlast (
          (if isConstexpr q then ''constexpr '' else []) @
          (if isConst q then ''const '' else []) @
          (if isStatic q then ''static '' else []) @
          (if isInline q then ''inline '' else []) @
          (if isAuto q then ''auto '' else [])) @ '']''
      else [])"

text \<open>
  The snippet of the source: a 32-bit sum is compared with the size, so \<open>substr\<close> may get a
  position behind the end, and throws \<open>std::out_of_range\<close> (\<open>None\<close>).
\<close>

definition dump_snippet :: "string \<Rightarrow> Node \<Rightarrow> string option" where
  "dump_snippet src node =
     (if src \<noteq> [] \<and> sourceLength node > 0 \<and>
         unat (sourceOffset node + ucast (sourceLength node)) \<le> length src then
        (if unat (sourceOffset node) \<le> length src then
           Some ('' -> '' @ [CHR 0x22] @
             take (unat (sourceLength node)) (drop (unat (sourceOffset node)) src) @ [CHR 0x22])
         else None)
      else Some [])"

abbreviation id_str :: "u32 \<Rightarrow> string" where
  "id_str i \<equiv> string_of_nat (unat i)"

definition dump_eval :: "Node \<Rightarrow> string" where
  "dump_eval n = '' (Cond: '' @ id_str (word0 n) @ '', Then/Body: '' @ id_str (word1 n) @
     '', Else/Init: '' @ id_str (word2 n) @ '')''"

definition dump_details :: "Node \<Rightarrow> string" where
  "dump_details n =
     (if is_kind n BinaryExpr then
        '' (Op: '' @ [CHR 0x27] @ getOpStr (data_op n) @ [CHR 0x27] @ '', LHS: '' @ id_str (word1 n) @
          '', RHS: '' @ id_str (word2 n) @ '')''
      else if is_kind n UnaryExpr then
        '' (Op: '' @ [CHR 0x27] @ getOpStr (data_op n) @ [CHR 0x27] @ '', Operand: '' @
          id_str (word1 n) @ '')''
      else if is_kind n VarDecl \<or> is_kind n TypeDecl \<or> is_kind n FunctionDecl then
        '' (TypeNode: '' @ id_str (word0 n) @ '', NameNode: '' @ id_str (word1 n) @
          '', Init/Body: '' @ id_str (word2 n) @ '')''
      else if is_kind n EvalExpr then dump_eval n
      else if is_kind n CompileTimeJump then
        (if data_op n = tt_byte kBreak \<or> data_op n = tt_byte kContinue then
           '' (Op: '' @ [CHR 0x27] @ getOpStr (data_op n) @ [CHR 0x27] @ '')''
         else dump_eval n)
      else if is_kind n DeleteExpr \<or> is_kind n CastExpr then
        '' (Target: '' @ id_str (word0 n) @ '')''
      else if is_kind n CallExpr then
        '' (Target: '' @ id_str (word0 n) @ '', ArgsList: '' @ id_str (word1 n) @ '')''
      else if is_kind n MemberAccessExpr then
        '' (Op: '' @ [CHR 0x27] @ getOpStr (data_op n) @ [CHR 0x27] @ '', Target: '' @
          id_str (word1 n) @ '', Member: '' @ id_str (word2 n) @ '')''
      else if is_kind n StructDecl \<or> is_kind n NamespaceDecl then
        '' (NameOffset: '' @ id_str (word0 n) @ '', BodyNode: '' @ id_str (word1 n) @ '')''
      else [])"

definition dump_node :: "string \<Rightarrow> nat \<Rightarrow> Node \<Rightarrow> string option" where
  "dump_node src i n =
     map_option (\<lambda>snippet. ''['' @ string_of_nat i @ ''] '' @ nodeKindToString (kind n) @
         dump_qualifiers (qualifiers n) @ snippet @ dump_details n @ [CHR 0x0A])
       (dump_snippet src n)"

fun dump_nodes :: "string \<Rightarrow> nat \<Rightarrow> Node list \<Rightarrow> string option" where
  "dump_nodes src i [] = Some []"
| "dump_nodes src i (n # ns) =
     Option.bind (dump_node src i n) (\<lambda>line. map_option (\<lambda>rest. line @ rest) (dump_nodes src (Suc i) ns))"

definition dumpToString :: "Node list \<Rightarrow> string \<Rightarrow> string option" where
  "dumpToString nodes src =
     (if nodes = [] then Some (''<Empty AST>'' @ [CHR 0x0A]) else dump_nodes src 0 nodes)"

section \<open>Round trips\<close>

lemma length_bytes [simp]:
  "length (u16_bytes w) = 2" "length (u32_bytes d) = 4" "length (node_bytes n) = 24"
  by (simp_all add: u16_bytes_def u32_bytes_def node_bytes_def)

lemma u16_bytes_inverse [simp]: "u16_of_bytes (u16_bytes w @ rest) = w"
  unfolding u16_of_bytes_def u16_bytes_def
  by (rule bit_word_eqI) (auto simp: bit_or_iff bit_push_bit_iff bit_ucast_iff bit_drop_bit_eq)

lemma u32_bytes_inverse [simp]: "u32_of_bytes (u32_bytes w @ rest) = w"
  unfolding u32_of_bytes_def u32_bytes_def
  apply (rule bit_word_eqI)
  apply (auto simp: bit_or_iff bit_push_bit_iff bit_ucast_iff bit_drop_bit_eq)
  subgoal for n by (cases "n < 24") auto
  done

lemma qual_byte_inverse [simp]: "qual_of_byte (qual_byte q) = q"
  by (cases q) (simp add: qual_of_byte_def qual_byte_def bit_or_iff bit_push_bit_iff bit_of_bool_iff)

lemma node_bytes_inverse [simp]: "node_of_bytes (node_bytes n) = n"
proof -
  have d: "drop 2 (node_bytes n) = u16_bytes (reserved n) @ drop 4 (node_bytes n)"
    "drop 4 (node_bytes n) = u32_bytes (sourceOffset n) @ drop 8 (node_bytes n)"
    "drop 8 (node_bytes n) = u16_bytes (sourceLength n) @ drop 10 (node_bytes n)"
    "drop 12 (node_bytes n) = u32_bytes (word0 n) @ drop 16 (node_bytes n)"
    "drop 16 (node_bytes n) = u32_bytes (word1 n) @ drop 20 (node_bytes n)"
    "drop 20 (node_bytes n) = u32_bytes (word2 n) @ []"
    by (simp_all add: node_bytes_def)
  have h: "node_bytes n ! 0 = kind n" "node_bytes n ! 1 = qual_byte (qualifiers n)"
    by (simp_all add: node_bytes_def)
  show ?thesis
    unfolding node_of_bytes_def h
    by (subst d(1), subst d(2), subst d(3), subst d(4), subst d(5), subst d(6))
      (simp only: u16_bytes_inverse u32_bytes_inverse qual_byte_inverse, simp)
qed

lemma read_nodes_concat:
  "read_nodes (length ns) (concat (map node_bytes ns) @ rest) old = (True, old @ ns)"
  by (induction ns arbitrary: old) (simp_all add: sizeof_Node_def)

lemma read_nodes_short:
  assumes "length bs < sizeof_Node * k"
  shows "\<not> fst (read_nodes k bs ms)"
  using assms
proof (induction k arbitrary: bs ms)
  case (Suc k)
  then show ?case by (auto simp: sizeof_Node_def)
qed simp

lemma length_tree_bytes:
  assumes "length nodes < 2 ^ 32"
  shows "length (tree_bytes nodes) = 4 + sizeof_Node * length nodes"
proof -
  have "length (concat (map node_bytes ns)) = 24 * length ns" for ns
    by (induction ns) simp_all
  with assms show ?thesis
    by (simp add: tree_bytes_def Let_def unat_of_nat_lt sizeof_Node_def)
qed

text \<open>
  C12: A tree of less than \<open>2 ^ 32\<close> nodes that was saved is read back exactly as it was, into
  any tree, whatever that one held before: every field of every node survives the file.
\<close>

theorem save_load_roundtrip:
  assumes "length tree < 2 ^ 32" and "saveToFile writable tree path fs = (True, fs')"
  shows "loadFromFile path fs' old = (True, tree)"
proof -
  from assms(2) have fs: "fs' = fs(path \<mapsto> tree_bytes tree)"
    by (auto simp: saveToFile_def split: if_splits)
  have cnt: "unat (of_nat (length tree) :: u32) = length tree"
    using assms(1) by (rule_tac unat_of_nat_lt) simp
  have take: "take 4 (u32_bytes w @ xs) = u32_bytes w" for w xs
    by (simp add: u32_bytes_def)
  have w: "u32_of_bytes (u32_bytes w) = w" for w
    using u32_bytes_inverse [of w "[]"] by simp
  show ?thesis
    using read_nodes_concat [of tree "[]" "[]"]
    by (simp add: loadFromFile_def fs tree_bytes_def Let_def take w cnt)
qed

theorem save_load_roundtrip_witness:
  "loadFromFile ''t.ast''
     (snd (saveToFile (\<lambda>_. True) [new_node TranslationUnit 0 0, set_unary Minus 7 (new_node UnaryExpr 3 1)]
        ''t.ast'' (\<lambda>_. None))) []
   = (True, [new_node TranslationUnit 0 0, set_unary Minus 7 (new_node UnaryExpr 3 1)])"
  by (rule save_load_roundtrip [where writable = "\<lambda>_. True" and fs = "\<lambda>_. None"])
    (simp_all add: saveToFile_def)

text \<open>
  C13: A truncated file never loads: cut a saved tree anywhere before its end and
  \<open>loadFromFile\<close> answers false.
\<close>

theorem load_truncated_fails:
  assumes "length tree < 2 ^ 32" and "k < length (tree_bytes tree)"
    and "fs path = Some (take k (tree_bytes tree))"
  shows "\<not> fst (loadFromFile path fs old)"
proof (cases "k < 4")
  case True
  with assms(2,3) show ?thesis by (simp add: loadFromFile_def)
next
  case False
  have cnt: "unat (of_nat (length tree) :: u32) = length tree"
    using assms(1) by (rule_tac unat_of_nat_lt) simp
  have "take 4 (take k (tree_bytes tree)) = u32_bytes (of_nat (length tree)) @ []"
    using False by (simp add: tree_bytes_def Let_def u32_bytes_def min_def)
  then have "u32_of_bytes (take 4 (take k (tree_bytes tree))) = of_nat (length tree)"
    by (simp only: u32_bytes_inverse)
  moreover have "length (drop 4 (take k (tree_bytes tree))) < sizeof_Node * length tree"
    using assms(2) False by (simp add: length_tree_bytes [OF assms(1)])
  ultimately show ?thesis
    using assms(2,3) False read_nodes_short [of "drop 4 (take k (tree_bytes tree))" "length tree"]
    by (simp add: loadFromFile_def cnt)
qed

theorem load_truncated_fails_witness:
  "\<not> fst (loadFromFile ''t'' [''t'' \<mapsto> take 20 (tree_bytes [new_node TranslationUnit 0 0])] [])"
  by (rule load_truncated_fails [where tree = "[new_node TranslationUnit 0 0]" and k = 20])
    (simp_all add: length_tree_bytes sizeof_Node_def)

section \<open>The dump\<close>

lemma dump_snippet_no_throw:
  assumes "length src < 2 ^ 31" and "unat (sourceOffset n) \<le> length src"
  shows "dump_snippet src n \<noteq> None"
  using assms by (simp add: dump_snippet_def)

lemma dump_nodes_no_throw:
  assumes "length src < 2 ^ 31" and "\<forall>n \<in> set ns. unat (sourceOffset n) \<le> length src"
  shows "dump_nodes src i ns \<noteq> None"
  using assms(2)
proof (induction ns arbitrary: i)
  case (Cons n ns)
  with dump_snippet_no_throw [OF assms(1), of n] show ?case
    by (auto simp: dump_node_def)
qed simp

text \<open>
  A loop is dumped as a jump statement when its condition happens to be node 7 or 8 modulo
  256: \<open>CompileTimeJump\<close> stores loops through \<open>data.evalOp\<close> but the dump asks
  \<open>data.unary.op\<close> whether the node is a \<open>break\<close> or \<open>continue\<close>, which is the low byte of the
  condition's id.
\<close>

theorem dump_loop_as_break:
  "dump_details (set_evalOp 7 body incr (new_node CompileTimeJump off 0)) = '' (Op: '' @ [CHR 0x27] @ ''break'' @ [CHR 0x27] @ '')'' \<and>
   dump_details (set_evalOp 9 body incr (new_node CompileTimeJump off 0)) =
     '' (Cond: 9, Then/Body: '' @ id_str body @ '', Else/Init: '' @ id_str incr @ '')''"
proof -
  have b: "tt_byte kBreak = 7" "tt_byte kContinue = 8" by (simp_all add: tt_byte_def)
  have "getOpStr 7 = token_str kBreak"
    using TT_STRMAP_nth [of kBreak] by (simp add: getOpStr_def)
  moreover have "string_of_nat 9 = ''9''"
    by code_simp
  ultimately show ?thesis
    by (simp add: dump_details_def is_kind_def new_node_def set_evalOp_def data_op_def b dump_eval_def)
qed

end
