(* ===== verification/Parser.thy ===== *)
theory Parser
  imports Lexer_Props AST_Def
begin

text \<open>
  \<open>parser/parser.h\<close> and \<open>parser/parser.cpp\<close>: the recursive-descent and precedence-climbing parser
  with its window of two tokens. A handler is a function from the parser's state to an outcome:
  \<open>None\<close> when it never returns, \<open>Inl\<close> an exception, \<open>Inr\<close> a value and the new state. Handlers
  that call \<open>parseStatement\<close>, \<open>parseExpression\<close> or \<open>parsePrimaryExpression\<close> take them as
  arguments; the knot is tied by one \<open>partial_function (option)\<close> at the end.
\<close>

section \<open>State and outcomes\<close>

text \<open>
  \<open>std::runtime_error\<close> thrown by \<open>raiseError\<close>, and \<open>std::out_of_range\<close> thrown by
  \<open>std::string_view::substr\<close>.
\<close>

datatype parse_error = SyntaxError string | OutOfRange

text \<open>\<open>window[0]\<close> and \<open>window[1]\<close> are the fields \<open>win0\<close> and \<open>win1\<close>.\<close>

record Parser =
  plexer :: Lexer
  psource :: string
  tree :: "Node list"
  win0 :: Token
  win1 :: Token

type_synonym 'a outcome = "(parse_error + 'a \<times> Parser) option"
type_synonym 'a parse = "Parser \<Rightarrow> 'a outcome"

definition ret :: "'a \<Rightarrow> 'a parse" where
  "ret a s = Some (Inr (a, s))"

definition bnd :: "'a parse \<Rightarrow> ('a \<Rightarrow> 'b parse) \<Rightarrow> 'b parse" where
  "bnd m f s =
     (case m s of None \<Rightarrow> None | Some (Inl e) \<Rightarrow> Some (Inl e) | Some (Inr (a, s')) \<Rightarrow> f a s')"

text \<open>A test of the state that does not change it.\<close>

definition ifp :: "(Parser \<Rightarrow> bool) \<Rightarrow> 'a parse \<Rightarrow> 'a parse \<Rightarrow> 'a parse" where
  "ifp c m m' s = (if c s then m s else m' s)"

text \<open>A loop: its body answers \<open>Inl\<close> to go round again and \<open>Inr\<close> to leave.\<close>

partial_function (option) loop :: "('a \<Rightarrow> ('a + 'b) parse) \<Rightarrow> 'a \<Rightarrow> 'b parse" where
  "loop body a s =
     (case body a s of
        None \<Rightarrow> None
      | Some r \<Rightarrow> (case r of
          Inl e \<Rightarrow> Some (Inl e)
        | Inr p \<Rightarrow> (case fst p of Inl a' \<Rightarrow> loop body a' (snd p) | Inr b \<Rightarrow> Some (Inr (b, snd p)))))"

section \<open>The token window\<close>

definition peek_p :: "nat \<Rightarrow> Parser \<Rightarrow> Token" where
  "peek_p offset s = (if 2 \<le> offset then win1 s else if offset = 0 then win0 s else win1 s)"

definition initWindow :: "Parser \<Rightarrow> Parser option" where
  "initWindow s =
     Option.bind (nextToken (plexer s)) (\<lambda>(t0, lx).
     Option.bind (nextToken lx) (\<lambda>(t1, lx).
     Some (s\<lparr>win0 := t0, win1 := t1, plexer := lx\<rparr>)))"

text \<open>The constructor.\<close>

definition init_parser :: "Lexer \<Rightarrow> string \<Rightarrow> Parser option" where
  "init_parser lx src =
     initWindow \<lparr>plexer = lx, psource = src, tree = [], win0 = default_token, win1 = default_token\<rparr>"

definition advance_p :: "Token parse" where
  "advance_p s =
     (let current = win0 s;
          s = s\<lparr>win0 := win1 s\<rparr>
      in if tok_type current \<noteq> Eof then
           (case nextToken (plexer s) of
              None \<Rightarrow> None
            | Some (t, lx) \<Rightarrow> ret current (s\<lparr>win1 := t, plexer := lx\<rparr>))
         else ret current (s\<lparr>win1 := current\<rparr>))"

definition check :: "TokenType \<Rightarrow> Parser \<Rightarrow> bool" where
  "check type s \<longleftrightarrow> tok_type (peek_p 0 s) = type"

definition check_any :: "TokenType list \<Rightarrow> Parser \<Rightarrow> bool" where
  "check_any types s \<longleftrightarrow> tok_type (peek_p 0 s) \<in> set types"

definition match_p :: "TokenType \<Rightarrow> bool parse" where
  "match_p type = ifp (check type) (bnd advance_p (\<lambda>_. ret True)) (ret False)"

text \<open>\<open>if (match(type)) m else m'\<close>\<close>

definition ifm :: "TokenType \<Rightarrow> 'a parse \<Rightarrow> 'a parse \<Rightarrow> 'a parse" where
  "ifm type m m' = bnd (match_p type) (\<lambda>b. if b then m else m')"

section \<open>Diagnostics\<close>

definition quoted :: "string \<Rightarrow> string" where
  "quoted w = SQUOTE # w @ [SQUOTE]"

definition line_col :: "string \<Rightarrow> u32 \<times> u32" where
  "line_col cs =
     foldl (\<lambda>(line, col) c. if c = NEWLINE then (line + 1, 1) else (line, col + 1)) (1, 1) cs"

definition raiseError :: "Token \<Rightarrow> string \<Rightarrow> 'a parse" where
  "raiseError tok msg s =
     (let offset = globalOffset tok;
          offset = (if length (psource s) < unat offset then of_nat (length (psource s)) else offset);
          (line, col) = line_col (take (unat offset) (psource s));
          err = (\<lambda>tokenText. ''[Line '' @ string_of_nat (unat line) @ '', Col '' @
            string_of_nat (unat col) @ ''] Syntax Error at '' @ quoted tokenText @ '': '' @ msg)
      in if tok_type tok = Eof then Some (Inl (SyntaxError (err ''<EOF>'')))
         else if length (psource s) < unat (globalOffset tok) then Some (Inl OutOfRange)
         else Some (Inl (SyntaxError (err
           (substr (psource s) (unat (globalOffset tok)) (unat (tok_size tok)))))))"

definition expect :: "TokenType \<Rightarrow> string \<Rightarrow> Token parse" where
  "expect type errorMsg = ifp (check type) advance_p (\<lambda>s. raiseError (peek_p 0 s) errorMsg s)"

section \<open>Precedence and qualifiers\<close>

definition getPrecedence :: "TokenType \<Rightarrow> int" where
  "getPrecedence type =
     (if type \<in> {Equals, PlusEquals, MinusEquals, StarEquals, SlashEquals, PercEquals, AmpEquals,
                  BarEquals, UpEquals} then 1
      else if type = BBar then 2
      else if type = AAmp then 3
      else if type = Bar then 4
      else if type = Up then 5
      else if type = Amp then 6
      else if type \<in> {EEquals, NEquals} then 7
      else if type \<in> {Lesser, Greater, LeEquals, GrEquals} then 8
      else if type \<in> {LLesser, GGreater} then 9
      else if type \<in> {Plus, Minus} then 10
      else if type \<in> {Star, Slash, Perc} then 11
      else 0)"

definition qualifier_step :: "Qualifiers \<Rightarrow> (Qualifiers + Qualifiers) parse" where
  "qualifier_step q =
     ifm kConstexpr (ret (Inl (q\<lparr>isConstexpr := True\<rparr>)))
     (ifm kConst (ret (Inl (q\<lparr>isConst := True\<rparr>)))
     (ifm kStatic (ret (Inl (q\<lparr>isStatic := True\<rparr>)))
     (ifm kInline (ret (Inl (q\<lparr>isInline := True\<rparr>)))
     (ifm kAuto (ret (Inl (q\<lparr>isAuto := True\<rparr>)))
     (ret (Inr q))))))"

definition parseQualifiers :: "Qualifiers parse" where
  "parseQualifiers = loop qualifier_step no_qualifiers"

section \<open>Nodes\<close>

text \<open>\<open>tree.createNode(k, offset, len)\<close> and an assignment to \<open>tree.get(i)\<close>.\<close>

definition create :: "NodeKind \<Rightarrow> u32 \<Rightarrow> u16 \<Rightarrow> NodeId parse" where
  "create k offset len s =
     (case createNode k offset len (tree s) of (i, nodes) \<Rightarrow> ret i (s\<lparr>tree := nodes\<rparr>))"

definition update :: "NodeId \<Rightarrow> (Node \<Rightarrow> Node) \<Rightarrow> unit parse" where
  "update i f s = ret () (s\<lparr>tree := set_node i f (tree s)\<rparr>)"

text \<open>A node created and given its payload at once; the answer is its id.\<close>

definition make_node :: "NodeKind \<Rightarrow> u32 \<Rightarrow> u16 \<Rightarrow> (Node \<Rightarrow> Node) \<Rightarrow> NodeId parse" where
  "make_node k offset len f = bnd (create k offset len) (\<lambda>i. bnd (update i f) (\<lambda>_. ret i))"

text \<open>The identifier node of a token.\<close>

definition ident_node :: "Token \<Rightarrow> NodeId parse" where
  "ident_node tok =
     make_node IdentifierExpr (globalOffset tok) (tok_size tok) (set_literal (tok_type tok) 0)"

text \<open>
  The nodes of a declaration, in the order in which variables, parameters and types create them:
  the declaration, its type, its name; then the declaration gets its qualifiers and references.
\<close>

definition decl_node :: "NodeKind \<Rightarrow> Qualifiers \<Rightarrow> Token \<Rightarrow> Token \<Rightarrow> NodeId \<Rightarrow> NodeId parse" where
  "decl_node k qual typeTok nameTok initExpr =
     bnd (create k (globalOffset typeTok) 0) (\<lambda>i.
     bnd (ident_node typeTok) (\<lambda>typeNode.
     bnd (ident_node nameTok) (\<lambda>nameNode.
     bnd (update i (\<lambda>n. set_varDecl typeNode nameNode initExpr (n\<lparr>qualifiers := qual\<rparr>))) (\<lambda>_.
     ret i))))"

section \<open>Expressions\<close>

text \<open>\<open>while (!check(BrRight) && !check(Eof)) parseStatement();\<close>\<close>

definition block_loop :: "NodeId parse \<Rightarrow> unit parse" where
  "block_loop parseStatement =
     loop (\<lambda>_. ifp (\<lambda>s. \<not> check BrRight s \<and> \<not> check Eof s)
        (bnd parseStatement (\<lambda>_. ret (Inl ()))) (ret (Inr ()))) ()"

text \<open>\<open>while (match(Comma)) parse_item();\<close>\<close>

definition comma_loop :: "NodeId parse \<Rightarrow> unit parse" where
  "comma_loop item =
     loop (\<lambda>_. ifm Comma (bnd item (\<lambda>_. ret (Inl ()))) (ret (Inr ()))) ()"

text \<open>A list in parentheses, \<open>if (!check(Right)) \<dots>\<close>: the answer is its first item.\<close>

definition list_items :: "NodeId parse \<Rightarrow> NodeId parse" where
  "list_items item =
     ifp (\<lambda>s. \<not> check Right s)
       (bnd item (\<lambda>first. bnd (comma_loop item) (\<lambda>_. ret first)))
       (ret kNullNode)"

definition postfix_step :: "(int \<Rightarrow> NodeId parse) \<Rightarrow> NodeId \<Rightarrow> (NodeId + NodeId) parse" where
  "postfix_step parseExpression expr =
     ifm Left
       (bnd (list_items (parseExpression 0)) (\<lambda>argsList.
        bnd (expect Right (''Expected '' @ quoted '')'' @ '' after call arguments'')) (\<lambda>_.
        bnd (\<lambda>s. make_node CallExpr (globalOffset (peek_p 0 s)) 0 (set_call expr argsList) s) (\<lambda>callId.
        ret (Inl callId)))))
     (ifp (check_any [Dot, Arrow])
       (bnd advance_p (\<lambda>op.
        bnd (expect Ident ''Expected member name after access operator'') (\<lambda>member.
        bnd (ident_node member) (\<lambda>memberNode.
        bnd (make_node MemberAccessExpr (globalOffset op) 0
              (set_binary (tok_type op) expr memberNode)) (\<lambda>accessId.
        ret (Inl accessId))))))
     (ifm SqLeft
       (bnd (parseExpression 0) (\<lambda>indexExpr.
        bnd (expect SqRight (''Expected '' @ quoted '']'' @ '' after array index'')) (\<lambda>_.
        bnd (\<lambda>s. make_node BinaryExpr (globalOffset (peek_p 0 s)) 0
              (set_binary SqLeft expr indexExpr) s) (\<lambda>idxId.
        ret (Inl idxId)))))
     (ifp (check_any [PPlus, MMinus])
       (bnd advance_p (\<lambda>op.
        bnd (make_node UnaryExpr (globalOffset op) 0 (set_unary (tok_type op) expr)) (\<lambda>postFixId.
        ret (Inl postFixId))))
     (ret (Inr expr)))))"

definition parsePostfixExpression :: "(int \<Rightarrow> NodeId parse) \<Rightarrow> NodeId \<Rightarrow> NodeId parse" where
  "parsePostfixExpression parseExpression expr = loop (postfix_step parseExpression) expr"

text \<open>\<open>if (match(kElse)) elseBlock = parseStatement();\<close>\<close>

definition else_branch :: "NodeId parse \<Rightarrow> NodeId parse" where
  "else_branch parseStatement = ifm kElse parseStatement (ret kNullNode)"

definition parseEvalExpression :: "(int \<Rightarrow> NodeId parse) \<Rightarrow> NodeId parse \<Rightarrow> NodeId parse" where
  "parseEvalExpression parseExpression parseStatement =
     bnd (expect kEval (''Expected '' @ quoted ''eval'')) (\<lambda>evalTok.
     bnd (expect Left (''Expected '' @ quoted ''('' @ '' after eval'')) (\<lambda>_.
     bnd (parseExpression 0) (\<lambda>cond.
     bnd (expect Right (''Expected '' @ quoted '')'' @ '' after eval condition'')) (\<lambda>_.
     bnd parseStatement (\<lambda>thenBlock.
     bnd (else_branch parseStatement) (\<lambda>elseBlock.
     make_node EvalExpr (globalOffset evalTok) 0 (set_evalOp cond thenBlock elseBlock)))))))"

definition parseDeleteStatement :: "NodeId parse \<Rightarrow> NodeId parse" where
  "parseDeleteStatement parsePrimaryExpression =
     bnd (expect kDelete (''Expected '' @ quoted ''delete'')) (\<lambda>delTok.
     bnd (match_p kAuto) (\<lambda>isAutoDelete.
     bnd parsePrimaryExpression (\<lambda>target.
     make_node DeleteExpr (globalOffset delTok) 0
       (\<lambda>n. set_deleteOp target (n\<lparr>qualifiers := (qualifiers n)\<lparr>isAuto := isAutoDelete\<rparr>\<rparr>)))))"

text \<open>
  \<open>tok\<close> is a reference to \<open>window[0]\<close>: after an \<open>advance\<close> it names the new first token, which
  is the offset that the cast and block nodes get.
\<close>

definition parsePrimary_body ::
  "NodeId parse \<Rightarrow> (int \<Rightarrow> NodeId parse) \<Rightarrow> NodeId parse \<Rightarrow> NodeId parse" where
  "parsePrimary_body parseStatement parseExpression parsePrimaryExpression =
     ifp (check_any [PPlus, MMinus, Excl, Tilde, Minus, Amp, Star])
       (bnd advance_p (\<lambda>op.
        bnd parsePrimaryExpression (\<lambda>operand.
        bnd (make_node UnaryExpr (globalOffset op) (tok_size op) (set_unary (tok_type op) operand)) (\<lambda>i.
        parsePostfixExpression parseExpression i))))
     (ifp (check_any [LInt, LFloat, LString, LChar, kTrue, kFalse])
       (bnd advance_p (\<lambda>t.
        bnd (make_node LiteralExpr (globalOffset t) (tok_size t) (set_literal (tok_type t) 0)) (\<lambda>i.
        parsePostfixExpression parseExpression i)))
     (ifp (check_any [Ident, kVoid, kByte])
       (bnd advance_p (\<lambda>t.
        bnd (ident_node t) (\<lambda>i.
        parsePostfixExpression parseExpression i)))
     (ifp (check kEval)
       (bnd (parseEvalExpression parseExpression parseStatement) (\<lambda>i.
        parsePostfixExpression parseExpression i))
     (ifp (\<lambda>s. check Left s \<and> tok_type (peek_p 1 s) = kDelete)
       (bnd advance_p (\<lambda>_.
        bnd (parseDeleteStatement parsePrimaryExpression) (\<lambda>delNode.
        bnd (expect Right (''Expected '' @ quoted '')'' @ '' after delete expression'')) (\<lambda>_.
        bnd (\<lambda>s. make_node CastExpr (globalOffset (peek_p 0 s)) 0 (set_deleteOp delNode) s) (\<lambda>castId.
        parsePostfixExpression parseExpression castId)))))
     (ifm BrLeft
       (bnd (\<lambda>s. create TranslationUnit (globalOffset (peek_p 0 s)) 0 s) (\<lambda>blockId.
        bnd (block_loop parseStatement) (\<lambda>_.
        bnd (expect BrRight (''Expected '' @ quoted ''}'' @ '' at end of block expression'')) (\<lambda>_.
        parsePostfixExpression parseExpression blockId))))
     (ifm Left
       (bnd (parseExpression 0) (\<lambda>expr.
        bnd (expect Right (''Expected '' @ quoted '')'')) (\<lambda>_.
        parsePostfixExpression parseExpression expr)))
     (\<lambda>s. raiseError (peek_p 0 s) ''Unexpected token in expression'' s)))))))"

definition expression_step ::
  "(int \<Rightarrow> NodeId parse) \<Rightarrow> int \<Rightarrow> NodeId \<Rightarrow> (NodeId + NodeId) parse" where
  "expression_step parseExpression minPrecedence lhs s =
     (let prec = getPrecedence (tok_type (peek_p 0 s))
      in if prec < minPrecedence \<or> prec = 0 then ret (Inr lhs) s
         else
           (bnd advance_p (\<lambda>opTok.
            bnd (parseExpression (prec + 1)) (\<lambda>rhs.
            bnd (make_node BinaryExpr (globalOffset opTok) 0 (set_binary (tok_type opTok) lhs rhs)) (\<lambda>binId.
            ret (Inl binId))))) s)"

definition parseExpression_body ::
  "(int \<Rightarrow> NodeId parse) \<Rightarrow> NodeId parse \<Rightarrow> int \<Rightarrow> NodeId parse" where
  "parseExpression_body parseExpression parsePrimaryExpression minPrecedence =
     bnd parsePrimaryExpression (\<lambda>lhs. loop (expression_step parseExpression minPrecedence) lhs)"

section \<open>Statements\<close>

definition parseIfStatement :: "(int \<Rightarrow> NodeId parse) \<Rightarrow> NodeId parse \<Rightarrow> NodeId parse" where
  "parseIfStatement parseExpression parseStatement =
     bnd (expect kIf (''Expected '' @ quoted ''if'')) (\<lambda>ifTok.
     bnd (expect Left (''Expected '' @ quoted ''('' @ '' after if'')) (\<lambda>_.
     bnd (parseExpression 0) (\<lambda>cond.
     bnd (expect Right (''Expected '' @ quoted '')'' @ '' after condition'')) (\<lambda>_.
     bnd parseStatement (\<lambda>thenBlock.
     bnd (else_branch parseStatement) (\<lambda>elseBlock.
     make_node EvalExpr (globalOffset ifTok) 0 (set_evalOp cond thenBlock elseBlock)))))))"

definition parseWhileStatement :: "(int \<Rightarrow> NodeId parse) \<Rightarrow> NodeId parse \<Rightarrow> NodeId parse" where
  "parseWhileStatement parseExpression parseStatement =
     bnd (expect kWhile (''Expected '' @ quoted ''while'')) (\<lambda>whileTok.
     bnd (expect Left (''Expected '' @ quoted ''('' @ '' after while'')) (\<lambda>_.
     bnd (parseExpression 0) (\<lambda>cond.
     bnd (expect Right (''Expected '' @ quoted '')'' @ '' after while condition'')) (\<lambda>_.
     bnd parseStatement (\<lambda>body.
     make_node CompileTimeJump (globalOffset whileTok) 0 (set_evalOp cond body kNullNode))))))"

text \<open>The increment is parsed, but no node refers to it.\<close>

definition parseForStatement :: "(int \<Rightarrow> NodeId parse) \<Rightarrow> NodeId parse \<Rightarrow> NodeId parse" where
  "parseForStatement parseExpression parseStatement =
     bnd (expect kFor (''Expected '' @ quoted ''for'')) (\<lambda>forTok.
     bnd (expect Left (''Expected '' @ quoted ''('' @ '' after for'')) (\<lambda>_.
     bnd (ifp (\<lambda>s. \<not> check Semi s) parseStatement (bnd advance_p (\<lambda>_. ret kNullNode))) (\<lambda>init.
     bnd (ifp (\<lambda>s. \<not> check Semi s) (parseExpression 0) (ret kNullNode)) (\<lambda>cond.
     bnd (expect Semi (''Expected '' @ quoted '';'' @ '' after for condition'')) (\<lambda>_.
     bnd (ifp (\<lambda>s. \<not> check Right s) (parseExpression 0) (ret kNullNode)) (\<lambda>incr.
     bnd (expect Right (''Expected '' @ quoted '')'' @ '' after for clause'')) (\<lambda>_.
     bnd parseStatement (\<lambda>body.
     make_node CompileTimeJump (globalOffset forTok) 0 (set_evalOp cond body init)))))))))"

definition parseReturnStatement :: "(int \<Rightarrow> NodeId parse) \<Rightarrow> NodeId parse" where
  "parseReturnStatement parseExpression =
     bnd (expect kReturn (''Expected '' @ quoted ''return'')) (\<lambda>retTok.
     bnd (ifp (\<lambda>s. \<not> check Semi s) (parseExpression 0) (ret kNullNode)) (\<lambda>expr.
     bnd (expect Semi (''Expected '' @ quoted '';'' @ '' after return value'')) (\<lambda>_.
     make_node UnaryExpr (globalOffset retTok) 0 (set_unary kReturn expr))))"

text \<open>\<open>if (check(Semi)) advance();\<close>\<close>

definition optional_semi :: "unit parse" where
  "optional_semi = ifp (check Semi) (bnd advance_p (\<lambda>_. ret ())) (ret ())"

text \<open>\<open>if (check(BrLeft)) body = parseStatement();\<close>\<close>

definition optional_body :: "NodeId parse \<Rightarrow> NodeId parse" where
  "optional_body parseStatement = ifp (check BrLeft) parseStatement (ret kNullNode)"

definition parseStructDecl :: "NodeId parse \<Rightarrow> NodeId parse" where
  "parseStructDecl parseStatement =
     bnd (expect kStruct (''Expected '' @ quoted ''struct'')) (\<lambda>structTok.
     bnd (expect Ident ''Expected struct name'') (\<lambda>nameTok.
     bnd (optional_body parseStatement) (\<lambda>body.
     bnd optional_semi (\<lambda>_.
     make_node StructDecl (globalOffset structTok) 0 (set_call (globalOffset nameTok) body)))))"

definition parseNamespaceDecl :: "NodeId parse \<Rightarrow> NodeId parse" where
  "parseNamespaceDecl parseStatement =
     bnd (expect kNamespace (''Expected '' @ quoted ''namespace'')) (\<lambda>nsTok.
     bnd (expect Ident ''Expected namespace name'') (\<lambda>nameTok.
     bnd parseStatement (\<lambda>body.
     make_node NamespaceDecl (globalOffset nsTok) 0 (set_call (globalOffset nameTok) body))))"

text \<open>\<open>if (match(Equals)) initExpr = parseExpression(0);\<close>\<close>

definition optional_init :: "(int \<Rightarrow> NodeId parse) \<Rightarrow> NodeId parse" where
  "optional_init parseExpression = ifm Equals (parseExpression 0) (ret kNullNode)"

definition parseParamDecl :: "(int \<Rightarrow> NodeId parse) \<Rightarrow> NodeId parse" where
  "parseParamDecl parseExpression =
     bnd parseQualifiers (\<lambda>qual.
     bnd (if isAuto qual then
            bnd (expect Ident (''Expected parameter name after '' @ quoted ''auto'')) (\<lambda>nameTok.
            ret (mk_token 0 0 kAuto, nameTok))
          else
            bnd advance_p (\<lambda>typeTok.
            ifp (check Ident)
              (bnd advance_p (\<lambda>nameTok. ret (typeTok, nameTok)))
              (ret (typeTok, mk_token 0 0 Unknown)))) (\<lambda>(typeTok, nameTok).
     bnd (optional_init parseExpression) (\<lambda>initExpr.
     decl_node VarDecl qual typeTok nameTok initExpr)))"

definition parseFunctionDecl ::
  "(int \<Rightarrow> NodeId parse) \<Rightarrow> NodeId parse \<Rightarrow> Qualifiers \<Rightarrow> Token \<Rightarrow> Token \<Rightarrow> NodeId parse" where
  "parseFunctionDecl parseExpression parseStatement qual typeTok nameTok =
     bnd (expect Left (''Expected '' @ quoted ''('' @ '' after function name'')) (\<lambda>_.
     bnd (list_items (parseParamDecl parseExpression)) (\<lambda>paramsList.
     bnd (expect Right (''Expected '' @ quoted '')'' @ '' after parameters'')) (\<lambda>_.
     bnd (ifp (check BrLeft) parseStatement
           (bnd (expect Semi (''Expected '' @ quoted '';'' @ '' or '' @ quoted ''{'' @
              '' after function signature'')) (\<lambda>_. ret kNullNode))) (\<lambda>body.
     bnd (ident_node typeTok) (\<lambda>typeNode.
     bnd (ident_node nameTok) (\<lambda>nameNode.
     make_node FunctionDecl (globalOffset nameTok) 0
       (\<lambda>n. set_varDecl typeNode nameNode body (n\<lparr>qualifiers := qual\<rparr>))))))))"

text \<open>\<open>check(Ident) && source.substr(peek(0).globalOffset, peek(0).size) == "using"\<close>\<close>

definition check_using :: "bool parse" where
  "check_using =
     ifp (check Ident)
       (\<lambda>s. if length (psource s) < unat (globalOffset (peek_p 0 s)) then Some (Inl OutOfRange)
            else ret (substr (psource s) (unat (globalOffset (peek_p 0 s)))
                        (unat (tok_size (peek_p 0 s))) = ''using'') s)
       (ret False)"

text \<open>The first case of \<open>parseVarOrTypeDecl\<close>, \<open>type T ...\<close>.\<close>

definition parseTypeDecl ::
  "(int \<Rightarrow> NodeId parse) \<Rightarrow> NodeId parse \<Rightarrow> NodeId parse \<Rightarrow> Qualifiers \<Rightarrow> NodeId parse" where
  "parseTypeDecl parseExpression parsePrimaryExpression parseStatement qual =
     bnd advance_p (\<lambda>typeOrNameTok.
     bnd (expect Ident (''Expected type name after '' @ quoted ''type'')) (\<lambda>nameTok.
     bnd (ifm Equals (parseExpression 0)
           (ifm Colon parsePrimaryExpression
             (bnd check_using (\<lambda>b.
               if b then bnd advance_p (\<lambda>_. parsePrimaryExpression) else ret kNullNode)))) (\<lambda>baseTypeNode.
     bnd (optional_body parseStatement) (\<lambda>bodyNode.
     bnd optional_semi (\<lambda>_.
     decl_node TypeDecl qual typeOrNameTok nameTok
       (if bodyNode \<noteq> kNullNode then bodyNode else baseTypeNode))))))"

definition parseVarOrTypeDecl ::
  "(int \<Rightarrow> NodeId parse) \<Rightarrow> NodeId parse \<Rightarrow> NodeId parse \<Rightarrow> Qualifiers \<Rightarrow> NodeId parse" where
  "parseVarOrTypeDecl parseExpression parsePrimaryExpression parseStatement qual =
     ifp (check kType)
       (parseTypeDecl parseExpression parsePrimaryExpression parseStatement qual)
       (bnd (if isAuto qual then
               bnd (expect Ident (''Expected variable name after '' @ quoted ''auto'')) (\<lambda>nameTok.
               ret (mk_token 0 0 kAuto, nameTok))
             else
               bnd advance_p (\<lambda>typeTok.
               ifp (check Ident)
                 (bnd advance_p (\<lambda>nameTok. ret (typeTok, nameTok)))
                 (\<lambda>s. raiseError (peek_p 0 s) ''Expected variable name after type specifier'' s)))
         (\<lambda>(typeOrNameTok, nameTok).
        ifp (check Left)
          (parseFunctionDecl parseExpression parseStatement qual typeOrNameTok nameTok)
          (bnd (optional_init parseExpression) (\<lambda>initExpr.
           bnd (expect Semi (''Expected '' @ quoted '';'' @ '' after declaration'')) (\<lambda>_.
           decl_node VarDecl qual typeOrNameTok nameTok initExpr)))))"

definition is_decl :: "Qualifiers \<Rightarrow> Parser \<Rightarrow> bool" where
  "is_decl qual s \<longleftrightarrow>
     isAuto qual \<or> check kType s \<or> check kByte s \<or> check kStruct s \<or>
     check Ident s \<and> tok_type (peek_p 1 s) = Ident"

definition parseStatement_body ::
  "(int \<Rightarrow> NodeId parse) \<Rightarrow> NodeId parse \<Rightarrow> NodeId parse \<Rightarrow> NodeId parse" where
  "parseStatement_body parseExpression parsePrimaryExpression parseStatement =
     bnd parseQualifiers (\<lambda>qual.
     ifm BrLeft
       (bnd (\<lambda>s. create TranslationUnit (globalOffset (peek_p 0 s)) 0 s) (\<lambda>blockId.
        bnd (block_loop parseStatement) (\<lambda>_.
        bnd (expect BrRight (''Expected '' @ quoted ''}'' @ '' at end of block'')) (\<lambda>_.
        ret blockId))))
     (ifp (check kIf) (parseIfStatement parseExpression parseStatement)
     (ifp (check kWhile) (parseWhileStatement parseExpression parseStatement)
     (ifp (check kFor) (parseForStatement parseExpression parseStatement)
     (ifp (check kReturn) (parseReturnStatement parseExpression)
     (ifp (check_any [kBreak, kContinue])
       (bnd advance_p (\<lambda>ctrlTok.
        bnd (expect Semi (''Expected '' @ quoted '';'' @ '' after loop control statement'')) (\<lambda>_.
        make_node CompileTimeJump (globalOffset ctrlTok) 0 (set_unary (tok_type ctrlTok) kNullNode))))
     (ifp (check kStruct) (parseStructDecl parseStatement)
     (ifp (check kNamespace) (parseNamespaceDecl parseStatement)
     (ifp (check kDelete)
       (bnd (parseDeleteStatement parsePrimaryExpression) (\<lambda>delNode.
        bnd optional_semi (\<lambda>_. ret delNode)))
     (ifm kRequires
       (bnd (expect Colon (''Expected '' @ quoted '':'' @ '' after '' @ quoted ''requires'')) (\<lambda>_.
        bnd (parseExpression 0) (\<lambda>reqExpr.
        bnd optional_semi (\<lambda>_. ret reqExpr))))
     (ifp (is_decl qual) (parseVarOrTypeDecl parseExpression parsePrimaryExpression parseStatement qual)
       (bnd (parseExpression 0) (\<lambda>expr.
        bnd optional_semi (\<lambda>_. ret expr))))))))))))))"

section \<open>Tying the knot\<close>

text \<open>
  \<open>m\<close> is below \<open>m'\<close> when it agrees with it wherever it returns; the handlers are monotone in the
  handlers they call, which is what the recursive definition needs.
\<close>

definition below :: "'a parse \<Rightarrow> 'a parse \<Rightarrow> bool" where
  "below m m' \<longleftrightarrow> (\<forall>s. m s = None \<or> m s = m' s)"

named_theorems below_intros

lemma below_refl [below_intros]: "below m m"
  by (simp add: below_def)

lemma below_bnd [below_intros]:
  assumes "below m m'" and "\<And>a. below (f a) (f' a)"
  shows "below (bnd m f) (bnd m' f')"
  unfolding below_def
proof
  fix s
  show "bnd m f s = None \<or> bnd m f s = bnd m' f' s"
  proof (cases "m s")
    case (Some r)
    with assms(1) have "m' s = Some r" unfolding below_def by (metis option.distinct(1))
    with Some assms(2) show ?thesis
      by (auto simp: bnd_def below_def split: sum.splits)
  qed (simp add: bnd_def)
qed

lemma below_ifp [below_intros]: "below m m' \<Longrightarrow> below k k' \<Longrightarrow> below (ifp c m k) (ifp c m' k')"
  by (simp add: below_def ifp_def)

lemma below_if [below_intros]:
  "below m m' \<Longrightarrow> below k k' \<Longrightarrow> below (if b then m else k) (if b then m' else k')"
  by simp

lemma below_ifm [below_intros]: "below m m' \<Longrightarrow> below k k' \<Longrightarrow> below (ifm t m k) (ifm t m' k')"
  unfolding ifm_def by (intro below_intros)

lemma below_prod [below_intros]:
  "(\<And>a b. below (f a b) (f' a b)) \<Longrightarrow> below (case p of (a, b) \<Rightarrow> f a b) (case p of (a, b) \<Rightarrow> f' a b)"
  by (simp split: prod.splits)

lemma below_step: "below m m' \<Longrightarrow> m s = Some r \<Longrightarrow> m' s = Some r"
  unfolding below_def by (metis option.distinct(1))

lemma loop_below:
  fixes body :: "'a \<Rightarrow> ('a + 'b) parse"
  assumes "loop body a s = Some r"
  shows "(\<forall>a. below (body a) (body' a)) \<longrightarrow> loop body' a s = Some r"
proof (rule loop.raw_induct
    [where P = "\<lambda>body a s r. (\<forall>a. below (body a) (body' a)) \<longrightarrow> loop body' a s = Some r", OF _ assms],
    intro impI)
  fix lp :: "('a \<Rightarrow> ('a + 'b) parse) \<Rightarrow> 'a \<Rightarrow> 'b parse" and a s r
  fix body :: "'a \<Rightarrow> ('a + 'b) parse"
  assume IH: "\<And>b a s y. lp b a s = Some y \<Longrightarrow>
      (\<forall>a. below (b a) (body' a)) \<longrightarrow> loop body' a s = Some y"
    and eq: "(case body a s of None \<Rightarrow> None
      | Some r \<Rightarrow> (case r of Inl e \<Rightarrow> Some (Inl e)
        | Inr p \<Rightarrow> (case fst p of Inl a' \<Rightarrow> lp body a' (snd p) | Inr b \<Rightarrow> Some (Inr (b, snd p))))) = Some r"
    and b: "\<forall>a. below (body a) (body' a)"
  from eq obtain q where q: "body a s = Some q" by (cases "body a s") auto
  with b have "body' a s = Some q" by (blast intro: below_step)
  with IH eq b q show "loop body' a s = Some r"
    by (subst loop.simps) (auto split: sum.splits)
qed

lemma below_loop [below_intros]:
  assumes "\<And>a. below (body a) (body' a)"
  shows "below (loop body a) (loop body' a)"
  unfolding below_def
proof
  fix s
  show "loop body a s = None \<or> loop body a s = loop body' a s"
    using loop_below [of body a s _ body'] assms by (cases "loop body a s") auto
qed

text \<open>Every handler is monotone in its arguments.\<close>

lemma below_postfix_step [below_intros]:
  "(\<And>i. below (pE i) (pE' i)) \<Longrightarrow> below (postfix_step pE e) (postfix_step pE' e)"
  unfolding postfix_step_def list_items_def comma_loop_def by (intro below_intros)

lemma below_parsePostfixExpression [below_intros]:
  "(\<And>i. below (pE i) (pE' i)) \<Longrightarrow>
    below (parsePostfixExpression pE e) (parsePostfixExpression pE' e)"
  unfolding parsePostfixExpression_def by (intro below_intros)

lemma below_list_items [below_intros]:
  "below m m' \<Longrightarrow> below (list_items m) (list_items m')"
  unfolding list_items_def comma_loop_def by (intro below_intros)

lemma below_block_loop [below_intros]:
  "below m m' \<Longrightarrow> below (block_loop m) (block_loop m')"
  unfolding block_loop_def by (intro below_intros)

lemma below_parts [below_intros]:
  "below pS pS' \<Longrightarrow> below (else_branch pS) (else_branch pS')"
  "below pS pS' \<Longrightarrow> below (optional_body pS) (optional_body pS')"
  "(\<And>i. below (pE i) (pE' i)) \<Longrightarrow> below (optional_init pE) (optional_init pE')"
  "below pP pP' \<Longrightarrow> below (parseDeleteStatement pP) (parseDeleteStatement pP')"
  unfolding else_branch_def optional_body_def optional_init_def parseDeleteStatement_def
  by (intro below_intros, assumption | rule below_intros)+

lemma below_statements [below_intros]:
  assumes [below_intros]: "\<And>i. below (pE i) (pE' i)" "below pS pS'"
  shows "below (parseEvalExpression pE pS) (parseEvalExpression pE' pS')"
    and "below (parseIfStatement pE pS) (parseIfStatement pE' pS')"
    and "below (parseWhileStatement pE pS) (parseWhileStatement pE' pS')"
    and "below (parseForStatement pE pS) (parseForStatement pE' pS')"
  unfolding parseEvalExpression_def parseIfStatement_def parseWhileStatement_def
    parseForStatement_def
  by (intro below_intros)+

lemma below_declarations [below_intros]:
  "below pS pS' \<Longrightarrow> below (parseStructDecl pS) (parseStructDecl pS')"
  "below pS pS' \<Longrightarrow> below (parseNamespaceDecl pS) (parseNamespaceDecl pS')"
  "(\<And>i. below (pE i) (pE' i)) \<Longrightarrow> below (parseReturnStatement pE) (parseReturnStatement pE')"
  "(\<And>i. below (pE i) (pE' i)) \<Longrightarrow> below (parseParamDecl pE) (parseParamDecl pE')"
  unfolding parseStructDecl_def parseNamespaceDecl_def parseReturnStatement_def parseParamDecl_def
  by (intro below_intros, assumption | rule below_intros)+

lemma below_parseFunctionDecl [below_intros]:
  assumes [below_intros]: "\<And>i. below (pE i) (pE' i)" "below pS pS'"
  shows "below (parseFunctionDecl pE pS q t n) (parseFunctionDecl pE' pS' q t n)"
  unfolding parseFunctionDecl_def parseParamDecl_def by (intro below_intros)

lemma below_parseVarOrTypeDecl [below_intros]:
  assumes [below_intros]: "\<And>i. below (pE i) (pE' i)" "below pP pP'" "below pS pS'"
  shows "below (parseVarOrTypeDecl pE pP pS q) (parseVarOrTypeDecl pE' pP' pS' q)"
  unfolding parseVarOrTypeDecl_def parseTypeDecl_def by (intro below_intros)

lemma below_expression_step [below_intros]:
  assumes "\<And>i. below (pE i) (pE' i)"
  shows "below (expression_step pE p e) (expression_step pE' p e)"
proof -
  have "below
      (bnd advance_p (\<lambda>opTok. bnd (pE (i + 1)) (\<lambda>rhs.
        bnd (make_node BinaryExpr (globalOffset opTok) 0 (set_binary (tok_type opTok) e rhs)) (\<lambda>b. ret (Inl b)))))
      (bnd advance_p (\<lambda>opTok. bnd (pE' (i + 1)) (\<lambda>rhs.
        bnd (make_node BinaryExpr (globalOffset opTok) 0 (set_binary (tok_type opTok) e rhs)) (\<lambda>b. ret (Inl b)))))" for i
    by (intro below_intros assms)
  then show ?thesis
    unfolding below_def expression_step_def Let_def by auto
qed

lemma below_bodies:
  assumes [below_intros]: "\<And>i. below (pE i) (pE' i)" "below pP pP'" "below pS pS'"
  shows "below (parsePrimary_body pS pE pP) (parsePrimary_body pS' pE' pP')"
    and "below (parseExpression_body pE pP i) (parseExpression_body pE' pP' i)"
    and "below (parseStatement_body pE pP pS) (parseStatement_body pE' pP' pS')"
  unfolding parsePrimary_body_def parseExpression_body_def parseStatement_body_def
  by (intro below_intros)+

text \<open>The three mutually recursive handlers as one function of the call to make.\<close>

datatype pcall = CallStatement | CallExpression int | CallPrimary

definition call_to :: "(pcall \<times> Parser \<Rightarrow> NodeId outcome) \<Rightarrow> pcall \<Rightarrow> NodeId parse" where
  "call_to f c s = f (c, s)"

definition expr_of :: "(pcall \<times> Parser \<Rightarrow> NodeId outcome) \<Rightarrow> int \<Rightarrow> NodeId parse" where
  "expr_of f i s = f (CallExpression i, s)"

definition parse_body :: "(pcall \<times> Parser \<Rightarrow> NodeId outcome) \<Rightarrow> pcall \<times> Parser \<Rightarrow> NodeId outcome" where
  "parse_body f x =
     (case fst x of
        CallStatement \<Rightarrow> parseStatement_body (expr_of f) (call_to f CallPrimary) (call_to f CallStatement) (snd x)
      | CallExpression i \<Rightarrow> parseExpression_body (expr_of f) (call_to f CallPrimary) i (snd x)
      | CallPrimary \<Rightarrow>
          parsePrimary_body (call_to f CallStatement) (expr_of f) (call_to f CallPrimary) (snd x))"

lemma parse_body_mono [partial_function_mono]:
  "monotone (fun_ord option_ord) option_ord (\<lambda>f. parse_body f x)"
proof (rule monotoneI)
  fix f g :: "pcall \<times> Parser \<Rightarrow> NodeId outcome"
  assume le: "fun_ord option_ord f g"
  then have fg: "f y = None \<or> f y = g y" for y
    unfolding fun_ord_def flat_ord_def by blast
  then have b: "\<And>i. below (expr_of f i) (expr_of g i)" "below (call_to f c) (call_to g c)" for c
    by (auto simp: below_def expr_of_def call_to_def)
  show "option_ord (parse_body f x) (parse_body g x)"
    using below_bodies [OF b(1) b(2) b(2)]
    by (auto simp: parse_body_def flat_ord_def below_def split: pcall.splits)
qed

partial_function (option) parse :: "pcall \<times> Parser \<Rightarrow> NodeId outcome" where
  "parse x = parse_body parse x"

definition parseStatement :: "NodeId parse" where
  "parseStatement = call_to parse CallStatement"

definition parseExpression :: "int \<Rightarrow> NodeId parse" where
  "parseExpression = expr_of parse"

definition parsePrimaryExpression :: "NodeId parse" where
  "parsePrimaryExpression = call_to parse CallPrimary"

lemma parseStatement_eq:
  "parseStatement s = parseStatement_body parseExpression parsePrimaryExpression parseStatement s"
  by (simp add: parseStatement_def parseExpression_def parsePrimaryExpression_def)
    (subst call_to_def, subst parse.simps, simp add: parse_body_def)

lemma parseExpression_eq:
  "parseExpression i s = parseExpression_body parseExpression parsePrimaryExpression i s"
  by (simp add: parseExpression_def parsePrimaryExpression_def)
    (subst expr_of_def, subst parse.simps, simp add: parse_body_def)

lemma parsePrimaryExpression_eq:
  "parsePrimaryExpression s =
     parsePrimary_body parseStatement parseExpression parsePrimaryExpression s"
  by (simp add: parseStatement_def parseExpression_def parsePrimaryExpression_def)
    (subst call_to_def, subst parse.simps, simp add: parse_body_def)

declare loop.simps [code] parse.simps [code]

section \<open>The translation unit\<close>

definition unit_step :: "unit \<Rightarrow> (unit + unit) parse" where
  "unit_step _ =
     ifp (\<lambda>s. \<not> check Eof s)
       (\<lambda>s. let prevCursor = globalOffset (win0 s)
            in bnd parseStatement (\<lambda>_.
               ifp (\<lambda>s. globalOffset (win0 s) = prevCursor \<and> \<not> check Eof s)
                 (bnd advance_p (\<lambda>_. ret (Inl ())))
                 (ret (Inl ()))) s)
       (ret (Inr ()))"

definition parseTranslationUnit :: "Node list parse" where
  "parseTranslationUnit =
     bnd (create TranslationUnit 0 0) (\<lambda>root.
     bnd (loop unit_step ()) (\<lambda>_ s. ret (tree s) s))"

text \<open>Lexer, parser and tree together, on one source text.\<close>

definition parse_source :: "string \<Rightarrow> (parse_error + Node list) option" where
  "parse_source src =
     Option.bind (init_parser (init_lexer src) src) (\<lambda>s.
     map_option (map_sum id fst) (parseTranslationUnit s))"

end
