(* ===== verification/Parser_Spec.thy ===== *)
theory Parser_Spec
  imports Parser
begin

text \<open>
  Total correctness of the parser. \<open>wp m Q s\<close> says that \<open>m\<close> returns from \<open>s\<close>, with a result that
  satisfies \<open>Q\<close> or with a syntax error. The contract of the three recursive handlers is the
  locale \<open>parser_calls\<close>; every other handler is verified against it, the recursive ones are
  shown to satisfy it by induction on the number of tokens left.
\<close>

section \<open>Weakest preconditions\<close>

definition wp :: "'a parse \<Rightarrow> ('a \<Rightarrow> Parser \<Rightarrow> bool) \<Rightarrow> Parser \<Rightarrow> bool" where
  "wp m Q s \<longleftrightarrow>
     (case m s of
        None \<Rightarrow> False
      | Some (Inl e) \<Rightarrow> e \<noteq> OutOfRange
      | Some (Inr (a, s')) \<Rightarrow> Q a s')"

lemma wp_ret [simp]: "wp (ret a) Q = Q a"
  by (rule ext) (simp add: wp_def ret_def)

lemma wp_bnd [simp]: "wp (bnd m f) Q s = wp m (\<lambda>a. wp (f a) Q) s"
  by (auto simp: wp_def bnd_def split: option.splits sum.splits)

lemma wp_ifp: "wp (ifp c m m') Q s = (if c s then wp m Q s else wp m' Q s)"
  by (simp add: wp_def ifp_def)

lemma wp_mono:
  assumes "wp m P s" and "\<And>a s'. P a s' \<Longrightarrow> Q a s'"
  shows "wp m Q s"
  using assms by (auto simp: wp_def split: option.splits sum.splits)

lemma wp_loop_unfold:
  "wp (loop body a) Q s =
     wp (body a) (\<lambda>r s'. case r of Inl a' \<Rightarrow> wp (loop body a') Q s' | Inr b \<Rightarrow> Q b s') s"
  by (simp add: wp_def loop.simps [of body a] split: option.splits sum.splits prod.splits)

lemma wp_loop:
  fixes meas :: "Parser \<Rightarrow> nat"
  assumes "J a s"
    and step: "\<And>a s. J a s \<Longrightarrow> wp (body a)
      (\<lambda>r s'. case r of Inl a' \<Rightarrow> J a' s' \<and> meas s' < meas s | Inr b \<Rightarrow> Q b s') s"
  shows "wp (loop body a) Q s"
  using assms(1)
proof (induction "meas s" arbitrary: a s rule: less_induct)
  case less
  show ?case
    unfolding wp_loop_unfold [of body a]
    by (rule wp_mono [OF step [OF less.prems]]) (auto intro: less.hyps split: sum.splits)
qed

section \<open>The invariant\<close>

text \<open>The tokens that can still come, counted by the bytes left to read.\<close>

definition budget :: "Parser \<Rightarrow> nat" where
  "budget s = (if tok_type (win0 s) = Eof then 0
     else if tok_type (win1 s) = Eof then 1 else 2 + length (unread (plexer s)))"

text \<open>A token of this source: its text lies inside it.\<close>

definition tok_in :: "string \<Rightarrow> Token \<Rightarrow> bool" where
  "tok_in src t \<longleftrightarrow> unat (globalOffset t) \<le> length src"

definition parser_inv :: "Parser \<Rightarrow> bool" where
  "parser_inv s \<longleftrightarrow> lexer_ok (plexer s) \<and> psource s = source (plexer s) \<and>
     tok_in (source (plexer s)) (win0 s) \<and> tok_in (source (plexer s)) (win1 s) \<and>
     (tok_type (win0 s) = Eof \<longrightarrow> tok_type (win1 s) = Eof) \<and>
     (tok_type (win1 s) = Eof \<longrightarrow> unread (plexer s) = []) \<and> tree_wf (tree s)"

text \<open>Every token pays for at most four nodes; the ids of all of them are less than \<open>kNullNode\<close>.\<close>

definition cost :: "Parser \<Rightarrow> nat" where
  "cost s = length (tree s) + 4 * budget s"

definition max_nodes :: nat where
  "max_nodes = 2 ^ 32 - 1"

definition parser_ok :: "Parser \<Rightarrow> bool" where
  "parser_ok s \<longleftrightarrow> parser_inv s \<and> cost s < max_nodes"

text \<open>
  \<open>s\<close> was reached from \<open>s0\<close> by consuming at least \<open>d\<close> tokens, and \<open>k\<close> more nodes can be made
  before the tree has grown by more than the tokens pay for.
\<close>

definition within :: "Parser \<Rightarrow> nat \<Rightarrow> nat \<Rightarrow> Parser \<Rightarrow> bool" where
  "within s0 d k s \<longleftrightarrow> parser_inv s \<and> source (plexer s) = source (plexer s0) \<and>
     prefix (tree s0) (tree s) \<and> budget s + d \<le> budget s0 \<and> cost s + k \<le> cost s0 \<and>
     cost s0 < max_nodes"

definition id_ok :: "NodeId \<Rightarrow> Parser \<Rightarrow> bool" where
  "id_ok i s \<longleftrightarrow> unat i < length (tree s)"

definition null_or_ok :: "NodeId \<Rightarrow> Parser \<Rightarrow> bool" where
  "null_or_ok i s \<longleftrightarrow> i = kNullNode \<or> id_ok i s"

lemma within_refl: "parser_ok s \<Longrightarrow> within s 0 0 s"
  by (simp add: within_def parser_ok_def)

lemma within_weaken: "within s0 d k s \<Longrightarrow> d' \<le> d \<Longrightarrow> k' \<le> k \<Longrightarrow> within s0 d' k' s"
  by (simp add: within_def)

lemma within_ok: "within s0 d k s \<Longrightarrow> parser_ok s"
  by (simp add: within_def parser_ok_def)

lemma within_trans:
  "within s0 d k s \<Longrightarrow> within s d' k' s' \<Longrightarrow> within s0 (d + d') (k + k') s'"
  by (auto simp: within_def intro: prefix_order.trans)

lemma id_ok_mono: "id_ok i s \<Longrightarrow> within s d k s' \<Longrightarrow> id_ok i s'"
  by (auto simp: id_ok_def within_def dest: prefix_length_le)

lemma null_or_ok_mono: "null_or_ok i s \<Longrightarrow> within s d k s' \<Longrightarrow> null_or_ok i s'"
  by (auto simp: null_or_ok_def intro: id_ok_mono)

text \<open>The ids of \<open>s\<close> are ids of \<open>s'\<close>.\<close>

definition keeps :: "Parser \<Rightarrow> Parser \<Rightarrow> bool" where
  "keeps s s' \<longleftrightarrow> length (tree s) \<le> length (tree s')"

lemma keepsD: "keeps s s' \<Longrightarrow> id_ok i s \<Longrightarrow> id_ok i s'" "keeps s s' \<Longrightarrow> null_or_ok i s \<Longrightarrow> null_or_ok i s'"
  by (auto simp: keeps_def id_ok_def null_or_ok_def)

lemma within_keeps: "within s d k s' \<Longrightarrow> keeps s s'"
  by (auto simp: keeps_def within_def dest: prefix_length_le)

lemma null_or_ok_simps [simp]: "null_or_ok kNullNode s" "id_ok i s \<Longrightarrow> null_or_ok i s"
  by (simp_all add: null_or_ok_def)

section \<open>The primitive operations\<close>

lemma nextToken_offset:
  assumes "lexer_ok lx" and "nextToken lx = Some (t, lx')"
  shows "unat (globalOffset t) \<le> length (source lx)"
proof -
  have lt: "length (source lx) < 2 ^ 32" using assms(1) by (simp add: lexer_ok_def)
  have "globalOffset t = of_nat (length (source lx) - length (fst (snd (ref_next (unread lx)))))"
    using assms by (auto simp: nextToken_ref Let_def split_def)
  with lt show ?thesis by (simp add: unat_of_nat_lt less_imp_diff_less)
qed

lemma nextToken_effect:
  assumes "lexer_ok lx" and "nextToken lx = Some (t, lx')"
  shows "lexer_ok lx' \<and> source lx' = source lx \<and>
    (if tok_type t = Eof then unread lx' = [] else length (unread lx') < length (unread lx))"
  using nextToken_facts [OF assms] by simp

lemma nextToken_returns: "lexer_ok lx \<Longrightarrow> \<exists>t lx'. nextToken lx = Some (t, lx')"
  by (simp add: nextToken_eq)


lemma unread_Nil_Eof:
  assumes "lexer_ok lx" and "unread lx = []" and "nextToken lx = Some (t, lx')"
  shows "tok_type t = Eof"
  using nextToken_effect [OF assms(1,3)] assms(2) by (auto split: if_splits)

lemma wp_advance:
  assumes inv: "parser_inv s"
    and Q: "\<And>s'. parser_inv s' \<Longrightarrow> win0 s' = win1 s \<Longrightarrow> tree s' = tree s \<Longrightarrow>
      source (plexer s') = source (plexer s) \<Longrightarrow>
      (if tok_type (win0 s) = Eof then budget s' = budget s else budget s' < budget s) \<Longrightarrow>
      Q (win0 s) s'"
  shows "wp advance_p Q s"
proof (cases "tok_type (win0 s) = Eof")
  case True
  let ?s' = "s\<lparr>win0 := win1 s, win1 := win0 s\<rparr>"
  have "tok_type (win1 s) = Eof" using inv True by (simp add: parser_inv_def)
  with inv True have "parser_inv ?s'" "budget ?s' = budget s"
    by (simp_all add: parser_inv_def budget_def)
  then have "Q (win0 s) ?s'" using True by (intro Q) simp_all
  with True show ?thesis by (simp add: wp_def advance_p_def ret_def Let_def)
next
  case False
  have ok: "lexer_ok (plexer s)" using inv by (simp add: parser_inv_def)
  then obtain t lx where nt: "nextToken (plexer s) = Some (t, lx)"
    using nextToken_returns by blast
  let ?s' = "s\<lparr>win0 := win1 s, win1 := t, plexer := lx\<rparr>"
  note eff = nextToken_effect [OF ok nt]
  have e: "tok_type (win1 s) = Eof \<Longrightarrow> tok_type t = Eof"
    using unread_Nil_Eof [OF ok _ nt] inv by (simp add: parser_inv_def)
  have "parser_inv ?s'"
    using inv eff e nextToken_offset [OF ok nt]
    by (auto simp: parser_inv_def tok_in_def split: if_splits)
  moreover have "budget ?s' < budget s"
    using False e eff by (auto simp: budget_def split: if_splits)
  ultimately have "Q (win0 s) ?s'" using False eff by (intro Q) simp_all
  with False nt show ?thesis by (simp add: wp_def advance_p_def ret_def Let_def)
qed

lemma wp_advance_within:
  assumes w: "within s0 d k s" and ne: "tok_type (win0 s) \<noteq> Eof"
    and Q: "\<And>s'. within s0 (Suc d) (k + 4) s' \<Longrightarrow> keeps s s' \<Longrightarrow> win0 s' = win1 s \<Longrightarrow> Q (win0 s) s'"
  shows "wp advance_p Q s"
proof (rule wp_advance)
  show "parser_inv s" using w by (simp add: within_def)
  fix s'
  assume s': "parser_inv s'" "win0 s' = win1 s" "tree s' = tree s"
    "source (plexer s') = source (plexer s)"
    "if tok_type (win0 s) = Eof then budget s' = budget s else budget s' < budget s"
  with ne have "within s 1 4 s'"
    using w by (auto simp: within_def cost_def)
  moreover from within_trans [OF w this] have "within s0 (Suc d) (k + 4) s'" by simp
  ultimately show "Q (win0 s) s'" using s' within_keeps by (intro Q) simp_all
qed

text \<open>A parser state all of whose tokens are in the source throws only syntax errors.\<close>

lemma wp_raiseError: "parser_inv s \<Longrightarrow> tok_in (psource s) t \<Longrightarrow> wp (raiseError t msg) Q s"
  by (auto simp: wp_def raiseError_def tok_in_def Let_def split: prod.splits)

lemma wp_raiseError_peek: "parser_inv s \<Longrightarrow> wp (raiseError (peek_p n s) msg) Q s"
  by (rule wp_raiseError) (simp_all add: parser_inv_def peek_p_def)

lemma within_inv: "within s0 d k s \<Longrightarrow> parser_inv s"
  by (simp add: within_def)

lemma wp_expect:
  assumes w: "within s0 d k s" and ne: "type \<noteq> Eof"
    and Q: "\<And>s'. within s0 (Suc d) (k + 4) s' \<Longrightarrow> keeps s s' \<Longrightarrow> tok_type (win0 s) = type \<Longrightarrow> Q (win0 s) s'"
  shows "wp (expect type msg) Q s"
proof (cases "check type s")
  case True
  then have t: "tok_type (win0 s) = type" by (simp add: check_def peek_p_def)
  with ne have "tok_type (win0 s) \<noteq> Eof" by simp
  then have "wp advance_p Q s" using Q t by (intro wp_advance_within [OF w])
  with True show ?thesis by (simp add: expect_def wp_ifp)
next
  case False
  have "wp (\<lambda>s. raiseError (peek_p 0 s) msg s) Q s"
    using wp_raiseError_peek [OF within_inv [OF w], of 0 msg Q] by (simp add: wp_def)
  with False show ?thesis by (simp add: expect_def wp_ifp)
qed

lemma wp_match:
  assumes w: "within s0 d k s" and ne: "type \<noteq> Eof"
    and "\<And>s'. within s0 (Suc d) (k + 4) s' \<Longrightarrow> keeps s s' \<Longrightarrow> tok_type (win0 s) = type \<Longrightarrow> Q True s'"
    and "tok_type (win0 s) \<noteq> type \<Longrightarrow> Q False s"
  shows "wp (match_p type) Q s"
proof (cases "check type s")
  case True
  then have t: "tok_type (win0 s) = type" by (simp add: check_def peek_p_def)
  with ne have "tok_type (win0 s) \<noteq> Eof" by simp
  then have "wp advance_p (\<lambda>_. Q True) s" using assms(3) t by (intro wp_advance_within [OF w])
  with True show ?thesis by (simp add: match_p_def wp_ifp)
next
  case False
  with assms(4) show ?thesis by (simp add: match_p_def wp_ifp check_def peek_p_def)
qed

lemma wp_ifm:
  assumes w: "within s0 d k s" and ne: "type \<noteq> Eof"
    and "\<And>s'. within s0 (Suc d) (k + 4) s' \<Longrightarrow> keeps s s' \<Longrightarrow> tok_type (win0 s) = type \<Longrightarrow> wp m Q s'"
    and "tok_type (win0 s) \<noteq> type \<Longrightarrow> wp m' Q s"
  shows "wp (ifm type m m') Q s"
  unfolding ifm_def wp_bnd using assms by (intro wp_match [OF w]) simp_all

section \<open>Nodes\<close>

lemma tree_wf_create:
  assumes "parser_inv s" and "\<And>c. c \<in> set (children n) \<Longrightarrow> null_or_ok c s"
  shows "tree_wf (tree s @ [n])"
proof (rule tree_wf_snoc)
  show "tree_wf (tree s)" using assms(1) by (simp add: parser_inv_def)
  fix c
  assume "c \<in> set (children n)"
  then show "ref_ok (tree s @ [n]) (length (tree s)) c"
    using assms(2) by (fastforce simp: null_or_ok_def id_ok_def ref_ok_def)
qed

lemma budget_tree [simp]: "budget (s\<lparr>tree := ns\<rparr>) = budget s"
  by (simp add: budget_def)

lemma within_snoc:
  assumes w: "within s0 d k s" and k: "0 < k"
    and c: "\<And>c. c \<in> set (children n) \<Longrightarrow> null_or_ok c s"
  shows "within s0 d (k - 1) (s\<lparr>tree := tree s @ [n]\<rparr>)"
proof -
  have "parser_inv (s\<lparr>tree := tree s @ [n]\<rparr>)"
    using tree_wf_create [OF within_inv [OF w] c] within_inv [OF w] by (simp add: parser_inv_def)
  then show ?thesis
    using w k by (simp add: within_def cost_def prefix_order.trans)
qed

lemma tree_length_less: "within s0 d k s \<Longrightarrow> length (tree s) < 2 ^ 32"
  by (simp add: within_def cost_def max_nodes_def)

lemma wp_make_node:
  assumes w: "within s0 d k s" and k: "0 < k"
    and c: "\<And>c. c \<in> set (children (f (new_node nk off len))) \<Longrightarrow> null_or_ok c s"
    and Q: "\<And>i s'. within s0 d (k - 1) s' \<Longrightarrow> id_ok i s' \<Longrightarrow> keeps s s' \<Longrightarrow> win0 s' = win0 s \<Longrightarrow>
      tree s' = tree s @ [f (new_node nk off len)] \<Longrightarrow> unat i = length (tree s) \<Longrightarrow> Q i s'"
  shows "wp (make_node nk off len f) Q s"
proof -
  let ?n = "f (new_node nk off len)" and ?i = "of_nat (length (tree s)) :: u32"
  have i: "unat ?i = length (tree s)"
    using tree_length_less [OF w] by (rule_tac unat_of_nat_lt) simp
  have "set_node ?i f (tree s @ [new_node nk off len]) = tree s @ [?n]"
    by (simp add: set_node_def i)
  then have m: "make_node nk off len f s = Some (Inr (?i, s\<lparr>tree := tree s @ [?n]\<rparr>))"
    by (simp add: make_node_def bnd_def create_def createNode_def update_def ret_def Let_def)
  have "Q ?i (s\<lparr>tree := tree s @ [?n]\<rparr>)"
    by (rule Q [OF within_snoc [OF w k c]]) (simp_all add: id_ok_def keeps_def i)
  then show ?thesis by (simp add: wp_def m)
qed

lemma wp_create_block:
  assumes w: "within s0 d k s" and k: "0 < k"
    and Q: "\<And>i s'. within s0 d (k - 1) s' \<Longrightarrow> id_ok i s' \<Longrightarrow> keeps s s' \<Longrightarrow> Q i s'"
  shows "wp (create TranslationUnit off 0) Q s"
proof -
  let ?n = "new_node TranslationUnit off 0" and ?i = "of_nat (length (tree s)) :: u32"
  have i: "unat ?i = length (tree s)"
    using tree_length_less [OF w] by (rule_tac unat_of_nat_lt) simp
  have c: "children ?n = []" by (simp add: children_def is_kind_def new_node_def)
  have "Q ?i (s\<lparr>tree := tree s @ [?n]\<rparr>)"
    by (rule Q [OF within_snoc [OF w k]]) (simp_all add: id_ok_def keeps_def i c)
  then show ?thesis by (simp add: wp_def create_def createNode_def ret_def)
qed

lemmas children_simps = children_def is_kind_def new_node_def set_data_defs

lemma children_set [simp]:
  "children (set_literal ty j (new_node IdentifierExpr off len)) = []"
  "children (set_literal ty j (new_node LiteralExpr off len)) = []"
  "children (set_unary op x (new_node UnaryExpr off len)) = [x]"
  "children (set_binary op l r (new_node BinaryExpr off len)) = [l, r]"
  "children (set_binary op l r (new_node MemberAccessExpr off len)) = [l, r]"
  "children (set_call x y (new_node CallExpr off len)) = [x, y]"
  "children (set_call x y (new_node StructDecl off len)) = [y]"
  "children (set_call x y (new_node NamespaceDecl off len)) = [y]"
  "children (set_deleteOp x (new_node CastExpr off len)) = [x]"
  "children (set_deleteOp x (new_node DeleteExpr off len)) = [x]"
  "children (set_evalOp x y z (new_node EvalExpr off len)) = [x, y, z]"
  "set (children (set_evalOp x y z (new_node CompileTimeJump off len))) \<subseteq> {x, y, z}"
  "children (set_unary kBreak kNullNode (new_node CompileTimeJump off len)) = []"
  "children (set_unary kContinue kNullNode (new_node CompileTimeJump off len)) = []"
  "children (set_varDecl x y z (new_node FunctionDecl off len)) = [x, y, z]"
  by (simp_all add: children_simps)

lemma children_qualifiers [simp]: "children (n\<lparr>qualifiers := q\<rparr>) = children n"
  by (simp add: children_def is_kind_def)

lemma set_data_qualifiers:
  "set_varDecl x y z (n\<lparr>qualifiers := q\<rparr>) = (set_varDecl x y z n)\<lparr>qualifiers := q\<rparr>"
  "set_deleteOp x (n\<lparr>qualifiers := q\<rparr>) = (set_deleteOp x n)\<lparr>qualifiers := q\<rparr>"
  by (simp_all add: set_data_defs)

text \<open>
  The three nodes of a declaration. The declaration is created first and refers to leaves
  created after it, which is why \<open>tree_wf\<close> allows references to later leaves.
\<close>

lemma wp_decl_node:
  assumes w: "within s0 d k s" and k: "3 \<le> k"
    and nk: "nk = VarDecl \<or> nk = TypeDecl" and c: "null_or_ok initExpr s"
    and Q: "\<And>i s'. within s0 d (k - 3) s' \<Longrightarrow> id_ok i s' \<Longrightarrow> keeps s s' \<Longrightarrow> Q i s'"
  shows "wp (decl_node nk q t1 t2 initExpr) Q s"
proof -
  let ?L = "length (tree s)"
  let ?n = "(set_varDecl (of_nat (Suc ?L)) (of_nat (Suc (Suc ?L))) initExpr
      ((new_node nk (globalOffset t1) 0)\<lparr>qualifiers := q\<rparr>))"
  let ?leaf = "\<lambda>t. set_literal (tok_type t) 0 (new_node IdentifierExpr (globalOffset t) (tok_size t))"
  let ?T = "tree s @ [?n, ?leaf t1, ?leaf t2]" and ?i = "of_nat ?L :: u32"
  have len: "?L + 3 < 2 ^ 32" using w k by (simp add: within_def cost_def max_nodes_def)
  have i: "unat ?i = ?L" "unat (of_nat (Suc ?L) :: u32) = Suc ?L"
    "unat (of_nat (Suc (Suc ?L)) :: u32) = Suc (Suc ?L)"
    using len by (intro unat_of_nat_lt, simp)+
  have m: "decl_node nk q t1 t2 initExpr s = Some (Inr (?i, s\<lparr>tree := ?T\<rparr>))"
    by (simp add: decl_node_def ident_node_def make_node_def bnd_def create_def createNode_def
        update_def ret_def Let_def set_node_def i[simplified] nth_append list_update_append)
  have leaf: "leaf_kind (?leaf t)" "children (?leaf t) = []" for t :: Token
    by (simp_all add: leaf_kind_def is_kind_def set_data_defs new_node_def children_def)
  have ch: "children ?n = [of_nat (Suc ?L), of_nat (Suc (Suc ?L)), initExpr]"
    using nk by (auto simp: children_simps)
  have old: "ref_ok ?T j x" if "j < ?L" "x \<in> set (children (tree s ! j))" for j x
    using within_inv [OF w] that by (auto simp: parser_inv_def tree_wf_def intro: ref_ok_append)
  have "ref_ok ?T ?L (of_nat (Suc ?L))" "ref_ok ?T ?L (of_nat (Suc (Suc ?L)))"
    using leaf(1) by (simp_all only: ref_ok_def i(2,3)) (simp_all add: nth_append)
  moreover have "ref_ok ?T ?L initExpr"
    using c by (auto simp: ref_ok_def null_or_ok_def id_ok_def)
  ultimately have new: "ref_ok ?T ?L x" if "x \<in> set (children ?n)" for x
    using that unfolding ch by (simp only: list.set insert_iff empty_iff) blast
  have "tree_wf ?T"
    unfolding tree_wf_def
  proof (intro allI impI ballI)
    fix j x
    assume j: "j < length ?T" and x: "x \<in> set (children (?T ! j))"
    then consider "j < ?L" | "j = ?L" | "j = Suc ?L" | "j = Suc (Suc ?L)" by fastforce
    then show "ref_ok ?T j x"
      using x old new leaf by cases (auto simp: nth_append)
  qed
  then have "parser_inv (s\<lparr>tree := ?T\<rparr>)"
    using within_inv [OF w] by (simp add: parser_inv_def)
  moreover obtain k' where "k = k' + 3" using k by (metis le_iff_add add.commute)
  ultimately have "within s0 d (k - 3) (s\<lparr>tree := ?T\<rparr>)"
    using w by (simp add: within_def cost_def prefix_order.trans)
  then have "Q ?i (s\<lparr>tree := ?T\<rparr>)"
    by (rule Q) (simp_all add: id_ok_def keeps_def i)
  then show ?thesis by (simp add: wp_def m)
qed

section \<open>The contract of the recursive handlers\<close>

text \<open>
  From every state with less than \<open>n\<close> tokens left, the handler returns, with a node id of the
  grown tree after consuming at least one token, or with a syntax error.
\<close>

definition handler_ok :: "nat \<Rightarrow> NodeId parse \<Rightarrow> bool" where
  "handler_ok n m \<longleftrightarrow>
     (\<forall>s. parser_ok s \<longrightarrow> budget s < n \<longrightarrow> wp m (\<lambda>i s'. within s 1 0 s' \<and> id_ok i s') s)"

lemma wp_handler:
  assumes "handler_ok n m" and w: "within s0 d k s" and "budget s < n"
    and Q: "\<And>i s'. within s0 (Suc d) k s' \<Longrightarrow> id_ok i s' \<Longrightarrow> keeps s s' \<Longrightarrow> Q i s'"
  shows "wp m Q s"
proof (rule wp_mono)
  show "wp m (\<lambda>i s'. within s 1 0 s' \<and> id_ok i s') s"
    using assms(1,3) within_ok [OF w] by (simp add: handler_ok_def)
  fix i s'
  assume a: "within s 1 0 s' \<and> id_ok i s'"
  then have "within s0 (Suc d) k s'" using within_trans [OF w, of 1 0 s'] by simp
  with a show "Q i s'" by (auto intro: Q within_keeps)
qed

lemma within_budget: "within s0 d k s \<Longrightarrow> budget s0 \<le> n \<Longrightarrow> 0 < d \<Longrightarrow> budget s < n"
  by (simp add: within_def)

locale parser_calls =
  fixes pS :: "NodeId parse" and pE :: "int \<Rightarrow> NodeId parse" and pP :: "NodeId parse"
    and n :: nat
  assumes statement_ok: "handler_ok n pS"
    and expression_ok: "handler_ok n (pE i)"
    and primary_ok: "handler_ok n pP"
begin

lemmas wp_pS = wp_handler [OF statement_ok]
lemmas wp_pE = wp_handler [OF expression_ok]
lemmas wp_pP = wp_handler [OF primary_ok]

end

section \<open>Loops and lists\<close>

lemma wp_loop_within:
  assumes w: "within s0 d k s" and J: "J a s"
    and body: "\<And>a s1. J a s1 \<Longrightarrow> within s1 0 0 s1 \<Longrightarrow> budget s1 \<le> budget s \<Longrightarrow> keeps s s1 \<Longrightarrow> wp (body a)
      (\<lambda>r s'. case r of Inl a' \<Rightarrow> within s1 1 0 s' \<and> J a' s' | Inr b \<Rightarrow> within s1 0 0 s' \<and> R b s') s1"
    and Q: "\<And>b s'. within s0 d k s' \<Longrightarrow> keeps s s' \<Longrightarrow> R b s' \<Longrightarrow> Q b s'"
  shows "wp (loop body a) Q s"
proof (rule wp_loop [where meas = budget and J = "\<lambda>a s'. J a s' \<and> within s0 d k s' \<and> within s 0 0 s'"])
  show "J a s \<and> within s0 d k s \<and> within s 0 0 s"
    using J w by (simp add: within_refl within_ok [OF w])
  fix a s1
  assume s1: "J a s1 \<and> within s0 d k s1 \<and> within s 0 0 s1"
  then have "parser_ok s1" by (blast intro: within_ok)
  with s1 have "wp (body a)
      (\<lambda>r s'. case r of Inl a' \<Rightarrow> within s1 1 0 s' \<and> J a' s' | Inr b \<Rightarrow> within s1 0 0 s' \<and> R b s') s1"
    using within_keeps [of s 0 0 s1]
    by (intro body) (auto intro: within_refl simp: within_def [of s 0 0 s1])
  then show "wp (body a) (\<lambda>r s'. case r of
      Inl a' \<Rightarrow> (J a' s' \<and> within s0 d k s' \<and> within s 0 0 s') \<and> budget s' < budget s1
    | Inr b \<Rightarrow> Q b s') s1"
  proof (rule wp_mono)
    fix r s'
    assume a: "case r of Inl a' \<Rightarrow> within s1 1 0 s' \<and> J a' s' | Inr b \<Rightarrow> within s1 0 0 s' \<and> R b s'"
    have t: "within s0 d k s'" "within s 0 0 s'" if "within s1 j 0 s'" for j
      using within_weaken [OF within_trans [of s0 d k s1 j 0 s'], of d k]
        within_weaken [OF within_trans [of s 0 0 s1 j 0 s'], of 0 0] s1 that by simp_all
    show "case r of
      Inl a' \<Rightarrow> (J a' s' \<and> within s0 d k s' \<and> within s 0 0 s') \<and> budget s' < budget s1
    | Inr b \<Rightarrow> Q b s'"
    proof (cases r)
      case (Inl a')
      with a have "within s1 1 0 s'" "J a' s'" by simp_all
      moreover from this have "budget s' < budget s1" by (simp add: within_def)
      ultimately show ?thesis using Inl t [of 1] by simp
    next
      case (Inr b)
      with a t show ?thesis by (auto intro: Q within_keeps)
    qed
  qed
qed

text \<open>
  An item of a comma list: called after a token was consumed, it may make three nodes more than
  its tokens pay for (a parameter at the end of input).
\<close>

definition item_ok :: "nat \<Rightarrow> NodeId parse \<Rightarrow> bool" where
  "item_ok n m \<longleftrightarrow> (\<forall>s0 d k s. within s0 d k s \<longrightarrow> budget s0 \<le> n \<and> 0 < d \<and> 3 \<le> k \<longrightarrow>
     wp m (\<lambda>i s'. within s0 d (k - 3) s' \<and> id_ok i s' \<and> keeps s s') s)"

lemma wp_call:
  assumes "handler_ok n m" and w: "within s0 d k s" and b: "budget s0 \<le> n \<and> 0 < d"
    and "\<And>i s'. within s0 (Suc d) k s' \<Longrightarrow> id_ok i s' \<Longrightarrow> keeps s s' \<Longrightarrow> Q i s'"
  shows "wp m Q s"
  using assms(1) w
proof (rule wp_handler)
  show "budget s < n" using w b by (simp add: within_budget)
qed (rule assms(4))

lemma handler_item:
  assumes "handler_ok n m"
  shows "item_ok n m"
  unfolding item_ok_def
proof (intro allI impI)
  fix s0 d k s
  assume w: "within s0 d k s" and b: "budget s0 \<le> n \<and> 0 < d \<and> 3 \<le> k"
  show "wp m (\<lambda>i s'. within s0 d (k - 3) s' \<and> id_ok i s' \<and> keeps s s') s"
    by (rule wp_call [OF assms w]) (use b in \<open>auto intro: within_weaken\<close>)
qed

lemma wp_item:
  assumes "item_ok n m" and "within s0 d k s" and "budget s0 \<le> n \<and> 0 < d \<and> 3 \<le> k"
    and Q: "\<And>i s'. within s0 d (k - 3) s' \<Longrightarrow> id_ok i s' \<Longrightarrow> keeps s s' \<Longrightarrow> Q i s'"
  shows "wp m Q s"
  by (rule wp_mono [where P = "\<lambda>i s'. within s0 d (k - 3) s' \<and> id_ok i s' \<and> keeps s s'"])
    (use assms in \<open>auto simp: item_ok_def\<close>)

lemma wp_ifpI: "(c s \<Longrightarrow> wp m Q s) \<Longrightarrow> (\<not> c s \<Longrightarrow> wp m' Q s) \<Longrightarrow> wp (ifp c m m') Q s"
  by (simp add: wp_ifp)

lemma wp_comma_loop:
  assumes it: "item_ok n item" and w: "within s0 d k s" and b: "budget s0 \<le> n"
    and Q: "\<And>s'. within s0 d k s' \<Longrightarrow> keeps s s' \<Longrightarrow> Q () s'"
  shows "wp (comma_loop item) Q s"
  unfolding comma_loop_def
proof (rule wp_loop_within [OF w, where J = "\<lambda>_ _. True" and R = "\<lambda>_ _. True"])
  fix a :: unit and s1
  assume w1: "within s1 0 0 s1" and "budget s1 \<le> budget s"
  with b w have b1: "budget s1 \<le> n" by (simp add: within_def)
  show "wp (ifm Comma (bnd item (\<lambda>_. ret (Inl ()))) (ret (Inr ())))
      (\<lambda>r s'. case r of Inl a' \<Rightarrow> within s1 1 0 s' \<and> True | Inr b \<Rightarrow> within s1 0 0 s' \<and> True) s1"
    by (rule wp_ifm [OF w1], simp, unfold wp_bnd, rule wp_item [OF it], assumption)
       (use b1 w1 in \<open>auto intro: within_weaken\<close>)
qed (use Q in auto)

lemma wp_list_items:
  assumes it: "item_ok n item" and w: "within s0 d k s" and b: "budget s0 \<le> n \<and> 0 < d \<and> 3 \<le> k"
    and Q: "\<And>i s'. within s0 d (k - 3) s' \<Longrightarrow> null_or_ok i s' \<Longrightarrow> keeps s s' \<Longrightarrow> Q i s'"
  shows "wp (list_items item) Q s"
  unfolding list_items_def
proof (rule wp_ifpI)
  show "wp (bnd item (\<lambda>first. bnd (comma_loop item) (\<lambda>_. ret first))) Q s"
    unfolding wp_bnd
  proof (rule wp_item [OF it w b])
    fix i s1
    assume s1: "within s0 d (k - 3) s1" "id_ok i s1" "keeps s s1"
    show "wp (comma_loop item) (\<lambda>a. wp (ret i) Q) s1"
      by (rule wp_comma_loop [OF it s1(1)])
        (use s1 b in \<open>auto intro: Q simp: keeps_def keepsD\<close>)
  qed
qed (use w in \<open>auto intro!: Q within_weaken [OF w] simp: keeps_def\<close>)

lemma wp_block_loop:
  assumes pS: "handler_ok n pS" and w: "within s0 d k s" and b: "budget s0 \<le> n \<and> 0 < d"
    and Q: "\<And>s'. within s0 d k s' \<Longrightarrow> keeps s s' \<Longrightarrow> Q () s'"
  shows "wp (block_loop pS) Q s"
  unfolding block_loop_def
proof (rule wp_loop_within [OF w, where J = "\<lambda>_ _. True" and R = "\<lambda>_ _. True"])
  fix a :: unit and s1
  assume w1: "within s1 0 0 s1" and "budget s1 \<le> budget s"
  with b w have b1: "budget s1 < n" by (simp add: within_def)
  show "wp (ifp (\<lambda>s. \<not> check BrRight s \<and> \<not> check Eof s) (bnd pS (\<lambda>_. ret (Inl ()))) (ret (Inr ())))
      (\<lambda>r s'. case r of Inl a' \<Rightarrow> within s1 1 0 s' \<and> True | Inr b \<Rightarrow> within s1 0 0 s' \<and> True) s1"
    by (rule wp_ifpI, unfold wp_bnd, rule wp_handler [OF pS w1 b1])
       (use w1 in \<open>auto intro: within_weaken\<close>)
qed (use Q in auto)

lemma wp_ident_node:
  assumes "within s0 d k s" and "0 < k"
    and "\<And>i s'. within s0 d (k - 1) s' \<Longrightarrow> id_ok i s' \<Longrightarrow> keeps s s' \<Longrightarrow> Q i s'"
  shows "wp (ident_node t) Q s"
  unfolding ident_node_def using assms by (intro wp_make_node) simp_all

lemma wp_node:
  assumes w: "within s0 d k s" and k: "0 < k"
    and c: "\<And>c. c \<in> set (children (f (new_node nk off len))) \<Longrightarrow> null_or_ok c s"
    and Q: "\<And>i s'. within s0 d (k - 1) s' \<Longrightarrow> id_ok i s' \<Longrightarrow> keeps s s' \<Longrightarrow> Q i s'"
  shows "wp (make_node nk off len f) Q s"
  using w k c Q by (rule wp_make_node)

lemma check_anyD: "check_any ts s \<Longrightarrow> tok_type (win0 s) \<in> set ts"
  by (simp add: check_any_def peek_p_def)

lemma checkD: "check t s \<Longrightarrow> tok_type (win0 s) = t"
  by (simp add: check_def peek_p_def)

lemma wp_node_at:
  "wp (make_node nk (g s) len f) Q s \<Longrightarrow> wp (\<lambda>s. make_node nk (g s) len f s) Q s"
  by (simp add: wp_def)

lemma wp_create_at:
  "wp (create nk (g s) len) Q s \<Longrightarrow> wp (\<lambda>s. create nk (g s) len s) Q s"
  by (simp add: wp_def)

lemma wp_error_at: "parser_inv s \<Longrightarrow> wp (\<lambda>s. raiseError (peek_p 0 s) msg s) Q s"
  using wp_raiseError_peek [of s 0 msg Q] by (simp add: wp_def)

lemma children_loop:
  "c \<in> set (children (set_evalOp x y z (new_node CompileTimeJump off len))) \<Longrightarrow>
    null_or_ok x s \<Longrightarrow> null_or_ok y s \<Longrightarrow> null_or_ok z s \<Longrightarrow> null_or_ok c s"
  by (drule subsetD [OF children_set(12)]) auto

lemma children_ctrl:
  "op \<in> {kBreak, kContinue} \<Longrightarrow> children (set_unary op kNullNode (new_node CompileTimeJump off len)) = []"
  by auto

lemma wp_optional_semi:
  assumes w: "within s0 d k s"
    and Q: "\<And>s'. within s0 d k s' \<Longrightarrow> keeps s s' \<Longrightarrow> Q () s'"
  shows "wp optional_semi Q s"
  unfolding optional_semi_def
proof (rule wp_ifpI)
  assume "check Semi s"
  then show "wp (bnd advance_p (\<lambda>_. ret ())) Q s"
    unfolding wp_bnd
    by (intro wp_advance_within [OF w]) (auto simp: checkD intro!: Q intro: within_weaken)
qed (use w Q in \<open>auto simp: keeps_def\<close>)

lemma wp_advance_any:
  assumes w: "within s0 d k s"
    and Q: "\<And>t s'. within s0 d k s' \<Longrightarrow> keeps s s' \<Longrightarrow> Q t s'"
  shows "wp advance_p Q s"
proof (rule wp_advance [OF within_inv [OF w]])
  fix s'
  assume "parser_inv s'" "tree s' = tree s" "source (plexer s') = source (plexer s)"
    "if tok_type (win0 s) = Eof then budget s' = budget s else budget s' < budget s"
  with w show "Q (win0 s) s'"
    by (intro Q) (auto simp: within_def cost_def keeps_def split: if_splits)
qed

lemma wp_qualifier_step:
  assumes w: "within s 0 0 s"
  shows "wp (qualifier_step q) (\<lambda>r s'. case r of Inl q' \<Rightarrow> within s 1 0 s' \<and> True
      | Inr q' \<Rightarrow> within s 0 0 s' \<and> True) s"
  unfolding qualifier_step_def
  by (rule wp_ifm, rule w, simp, simp, blast intro: within_weaken)+ (use w in simp)

lemma wp_check_using:
  assumes "parser_inv s" and "\<And>b. Q b s"
  shows "wp check_using Q s"
  using assms
  by (simp add: check_using_def wp_def ifp_def ret_def parser_inv_def tok_in_def peek_p_def)

lemma wp_parseQualifiers:
  assumes w: "within s0 d k s"
    and Q: "\<And>q s'. within s0 d k s' \<Longrightarrow> keeps s s' \<Longrightarrow> Q q s'"
  shows "wp parseQualifiers Q s"
  unfolding parseQualifiers_def
  by (rule wp_loop_within [OF w, where J = "\<lambda>_ _. True" and R = "\<lambda>_ _. True"])
    (use Q wp_qualifier_step in auto)

context parser_calls
begin

lemmas vc = wp_ifm wp_expect wp_match wp_call [OF statement_ok] wp_call [OF expression_ok]
  wp_call [OF primary_ok] wp_list_items [OF handler_item [OF expression_ok]] wp_ident_node

lemma wp_postfix_step:
  assumes w: "within s0 0 0 s" and b: "budget s0 \<le> n" and e: "id_ok e s"
  shows "wp (postfix_step pE e) (\<lambda>r s'. case r of
      Inl e' \<Rightarrow> within s0 1 0 s' \<and> id_ok e' s' | Inr e' \<Rightarrow> within s0 0 0 s' \<and> id_ok e' s') s"
  unfolding postfix_step_def wp_bnd
  apply (rule wp_ifm, rule w, simp)
   apply (unfold wp_bnd)
   apply (rule vc, assumption, simp add: b)+
   apply (rule wp_node_at, rule wp_node, assumption, simp)
    using e apply (auto simp: keepsD)[1]
   apply (auto intro: within_weaken)[1]
  apply (rule wp_ifpI)
   apply (drule check_anyD)
   apply (unfold wp_bnd)
   apply (rule wp_advance_within, rule w, force)
   apply (rule vc, assumption, simp add: b)+
   apply (rule wp_node, assumption, simp)
    using e apply (auto simp: keepsD)[1]
   apply (auto intro: within_weaken)[1]
  apply (rule wp_ifm, rule w, simp)
   apply (unfold wp_bnd)
   apply (rule vc, assumption, simp add: b)+
   apply (rule wp_node_at, rule wp_node, assumption, simp)
    using e apply (auto simp: keepsD)[1]
   apply (auto intro: within_weaken)[1]
  apply (rule wp_ifpI)
   apply (drule check_anyD)
   apply (unfold wp_bnd)
   apply (rule wp_advance_within, rule w, force)
   apply (rule wp_node, assumption, simp)
    using e apply (auto simp: keepsD)[1]
   apply (auto intro: within_weaken)[1]
  using w e by simp

lemma wp_postfix:
  assumes w: "within s0 d k s" and b: "budget s0 \<le> n" and e: "id_ok e s"
    and Q: "\<And>i s'. within s0 d k s' \<Longrightarrow> id_ok i s' \<Longrightarrow> keeps s s' \<Longrightarrow> Q i s'"
  shows "wp (parsePostfixExpression pE e) Q s"
  unfolding parsePostfixExpression_def
proof (rule wp_loop_within [OF w, where J = id_ok and R = id_ok])
  fix e s1
  assume "id_ok e s1" and "within s1 0 0 s1" and "budget s1 \<le> budget s"
  moreover from this w b have "budget s1 \<le> n" by (simp add: within_def)
  ultimately show "wp (postfix_step pE e) (\<lambda>r s'. case r of
      Inl e' \<Rightarrow> within s1 1 0 s' \<and> id_ok e' s' | Inr e' \<Rightarrow> within s1 0 0 s' \<and> id_ok e' s') s1"
    by (intro wp_postfix_step)
qed (use e Q in auto)

lemma wp_else:
  assumes w: "within s0 d k s" and b: "budget s0 \<le> n"
    and Q: "\<And>i s'. within s0 d k s' \<Longrightarrow> null_or_ok i s' \<Longrightarrow> keeps s s' \<Longrightarrow> Q i s'"
  shows "wp (else_branch pS) Q s"
  unfolding else_branch_def
  apply (rule wp_ifm, rule w, simp)
   apply (rule vc, assumption, simp add: b)
   apply (rule Q, auto intro: within_weaken simp: keeps_def)
  using w apply (auto intro!: Q simp: keeps_def)
  done

lemma wp_eval:
  assumes w: "within s0 0 0 s" and b: "budget s0 \<le> n"
    and Q: "\<And>i s'. within s0 1 0 s' \<Longrightarrow> id_ok i s' \<Longrightarrow> keeps s s' \<Longrightarrow> Q i s'"
  shows "wp (parseEvalExpression pE pS) Q s"
  unfolding parseEvalExpression_def wp_bnd
  apply (rule wp_expect, rule w, simp)
  apply (rule vc, assumption, simp add: b)+
  apply (rule wp_else, assumption, rule b)
  apply (rule wp_node, assumption, simp, auto simp: keepsD)
  apply (rule Q, auto intro: within_weaken simp: keeps_def)
  done

lemma wp_delete:
  assumes w: "within s0 d k s" and b: "budget s0 \<le> n"
    and Q: "\<And>i s'. within s0 (Suc d) k s' \<Longrightarrow> id_ok i s' \<Longrightarrow> keeps s s' \<Longrightarrow> Q i s'"
  shows "wp (parseDeleteStatement pP) Q s"
  unfolding parseDeleteStatement_def wp_bnd
  apply (rule wp_expect, rule w, simp)
  apply (rule wp_match, assumption, simp)
   apply (rule wp_call [OF primary_ok], assumption, simp add: b)
   apply (rule wp_node, assumption, simp, simp add: set_data_qualifiers keepsD)
   apply (rule Q, auto intro: within_weaken simp: keeps_def)[1]
  apply (rule wp_call [OF primary_ok], assumption, simp add: b)
  apply (rule wp_node, assumption, simp, simp add: set_data_qualifiers keepsD)
  apply (rule Q, auto intro: within_weaken simp: keeps_def)[1]
  done

lemma wp_if:
  assumes w: "within s0 0 0 s" and b: "budget s0 \<le> n"
  shows "wp (parseIfStatement pE pS) (\<lambda>i s'. within s0 1 0 s' \<and> id_ok i s') s"
  unfolding parseIfStatement_def wp_bnd
  apply (rule wp_expect, rule w, simp)
  apply (rule vc, assumption, simp add: b)+
  apply (rule wp_else, assumption, rule b)
  apply (rule wp_node, assumption, simp, auto simp: keepsD intro: within_weaken)
  done

lemma wp_while:
  assumes w: "within s0 0 0 s" and b: "budget s0 \<le> n"
  shows "wp (parseWhileStatement pE pS) (\<lambda>i s'. within s0 1 0 s' \<and> id_ok i s') s"
  unfolding parseWhileStatement_def wp_bnd
  apply (rule wp_expect, rule w, simp)
  apply (rule vc, assumption, simp add: b)+
  apply (rule wp_node, assumption, simp, erule children_loop)
     apply (auto simp: keepsD intro: within_weaken)
  done

text \<open>\<open>if (!check(t)) x = m(); else x = kNullNode\<close>, in the form the handlers have it.\<close>

lemma wp_optional:
  assumes m: "handler_ok n m" and w: "within s0 d k s" and b: "budget s0 \<le> n \<and> 0 < d"
    and Q: "\<And>i s'. within s0 d k s' \<Longrightarrow> null_or_ok i s' \<Longrightarrow> keeps s s' \<Longrightarrow> Q i s'"
  shows "wp (ifp c m (ret kNullNode)) Q s"
  apply (rule wp_ifpI)
   apply (rule wp_call [OF m w b])
   apply (rule Q, auto intro: within_weaken)[1]
  using w apply (auto intro!: Q simp: keeps_def)
  done

lemma wp_for:
  assumes w: "within s0 0 0 s" and b: "budget s0 \<le> n"
  shows "wp (parseForStatement pE pS) (\<lambda>i s'. within s0 1 0 s' \<and> id_ok i s') s"
proof -
  have init: "wp (ifp (\<lambda>s. \<not> check Semi s) pS (bnd advance_p (\<lambda>_. ret kNullNode))) Q s1"
    if w1: "within s0 (Suc (Suc 0)) k s1"
      and Q: "\<And>i s'. within s0 (Suc 0) k s' \<Longrightarrow> null_or_ok i s' \<Longrightarrow> Q i s'" for Q s1 k
    apply (rule wp_ifpI)
     apply (rule wp_call [OF statement_ok w1], simp add: b)
     apply (rule Q, auto intro: within_weaken)[1]
    apply simp
    apply (rule wp_advance_any [OF w1])
    apply (rule Q, auto intro: within_weaken)[1]
    done
  show ?thesis
    unfolding parseForStatement_def wp_bnd
    apply (rule wp_expect, rule w, simp)
    apply (rule wp_expect, assumption, simp)
    apply (rule init, assumption)
    apply (rule wp_optional [OF expression_ok], assumption, simp add: b)
    apply (rule wp_expect, assumption, simp)
    apply (rule wp_optional [OF expression_ok], assumption, simp add: b)
    apply (rule wp_expect, assumption, simp)
    apply (rule wp_call [OF statement_ok], assumption, simp add: b)
    apply (rule wp_node, assumption, simp, erule children_loop)
       apply (auto simp: keepsD intro: within_weaken)
    done
qed

lemma wp_return:
  assumes w: "within s0 0 0 s" and b: "budget s0 \<le> n"
  shows "wp (parseReturnStatement pE) (\<lambda>i s'. within s0 1 0 s' \<and> id_ok i s') s"
  unfolding parseReturnStatement_def wp_bnd
  apply (rule wp_expect, rule w, simp)
  apply (rule wp_optional [OF expression_ok], assumption, simp add: b)
  apply (rule wp_expect, assumption, simp)
  apply (rule wp_node, assumption, simp, auto simp: keepsD intro: within_weaken)
  done

lemma wp_struct:
  assumes w: "within s0 0 0 s" and b: "budget s0 \<le> n"
  shows "wp (parseStructDecl pS) (\<lambda>i s'. within s0 1 0 s' \<and> id_ok i s') s"
  unfolding parseStructDecl_def wp_bnd optional_body_def
  apply (rule wp_expect, rule w, simp)
  apply (rule wp_expect, assumption, simp)
  apply (rule wp_optional [OF statement_ok], assumption, simp add: b)
  apply (rule wp_optional_semi, assumption)
  apply (rule wp_node, assumption, simp, auto simp: keepsD intro: within_weaken)
  done

lemma wp_namespace:
  assumes w: "within s0 0 0 s" and b: "budget s0 \<le> n"
  shows "wp (parseNamespaceDecl pS) (\<lambda>i s'. within s0 1 0 s' \<and> id_ok i s') s"
  unfolding parseNamespaceDecl_def wp_bnd
  apply (rule wp_expect, rule w, simp)
  apply (rule wp_expect, assumption, simp)
  apply (rule wp_call [OF statement_ok], assumption, simp add: b)
  apply (rule wp_node, assumption, simp, auto simp: keepsD intro: within_weaken)
  done

lemma wp_init:
  assumes w: "within s0 d k s" and b: "budget s0 \<le> n"
    and Q: "\<And>i s'. within s0 d k s' \<Longrightarrow> null_or_ok i s' \<Longrightarrow> keeps s s' \<Longrightarrow> Q i s'"
  shows "wp (optional_init pE) Q s"
  unfolding optional_init_def
  apply (rule wp_ifm, rule w, simp)
   apply (rule vc, assumption, simp add: b)
   apply (rule Q, auto intro: within_weaken simp: keeps_def)
  using w apply (auto intro!: Q simp: keeps_def)
  done

lemma param_item: "item_ok n (parseParamDecl pE)"
  unfolding item_ok_def
proof (intro allI impI)
  fix s0 d k s
  assume w: "within s0 d k s" and "budget s0 \<le> n \<and> 0 < d \<and> 3 \<le> k"
  then have b: "budget s0 \<le> n" "0 < d" "3 \<le> k" by simp_all
  have fin: "wp (optional_init pE) (\<lambda>e. wp (decl_node VarDecl q t1 t2 e)
      (\<lambda>i s'. within s0 d (k - 3) s' \<and> id_ok i s' \<and> keeps s s')) s1"
    if "within s0 d k s1" "keeps s s1" for s1 q t1 t2
    apply (rule wp_init, rule that, rule b)
    apply (rule wp_decl_node, assumption, rule b, simp, assumption)
    using that apply (auto simp: keeps_def)
    done
  show "wp (parseParamDecl pE) (\<lambda>i s'. within s0 d (k - 3) s' \<and> id_ok i s' \<and> keeps s s') s"
    unfolding parseParamDecl_def wp_bnd
    apply (rule wp_parseQualifiers [OF w])
    subgoal for q s1
      apply (cases "isAuto q"; simp)
       apply (rule wp_expect, assumption, simp)
       apply (rule fin, auto intro: within_weaken simp: keeps_def)[1]
      apply (rule wp_advance_any, assumption)
      apply (rule wp_ifpI; simp)
       apply (rule wp_advance_any, assumption)
       apply (rule fin, auto intro: within_weaken simp: keeps_def)[1]
      apply (rule fin, auto intro: within_weaken simp: keeps_def)[1]
      done
    done
qed

lemma wp_function:
  assumes w: "within s0 d k s" and b: "budget s0 \<le> n"
    and Q: "\<And>i s'. within s0 (Suc d) k s' \<Longrightarrow> id_ok i s' \<Longrightarrow> Q i s'"
  shows "wp (parseFunctionDecl pE pS q t1 t2) Q s"
  unfolding parseFunctionDecl_def wp_bnd
  apply (rule wp_expect, rule w, simp)
  apply (rule wp_list_items [OF param_item], assumption, simp add: b)
  apply (rule wp_expect, assumption, simp)
  apply (rule wp_ifpI)
   apply (rule wp_call [OF statement_ok], assumption, simp add: b)
   apply (rule wp_ident_node, assumption, simp)+
   apply (rule wp_node, assumption, simp, simp add: set_data_qualifiers, blast intro: keepsD null_or_ok_simps)
   apply (rule Q, auto intro: within_weaken simp: keeps_def)[1]
  apply simp
  apply (rule wp_expect, assumption, simp)
  apply (rule wp_ident_node, assumption, simp)+
  apply (rule wp_node, assumption, simp, simp add: set_data_qualifiers, blast intro: keepsD null_or_ok_simps)
  apply (rule Q, auto intro: within_weaken simp: keeps_def)[1]
  done

lemma wp_base_type:
  assumes w: "within s0 d k s" and b: "budget s0 \<le> n \<and> 0 < d"
    and Q: "\<And>i s'. within s0 d k s' \<Longrightarrow> null_or_ok i s' \<Longrightarrow> keeps s s' \<Longrightarrow> Q i s'"
  shows "wp (ifm Equals (pE 0) (ifm Colon pP (bnd check_using (\<lambda>b.
    if b then bnd advance_p (\<lambda>_. pP) else ret kNullNode)))) Q s"
proof -
  have P: "wp pP Q s1" "wp (pE 0) Q s1" if "within s0 d k s1" "keeps s s1" for s1
    by (rule wp_call [OF primary_ok that(1) b], rule Q,
        use that in \<open>auto intro: within_weaken simp: keeps_def\<close>)
      (rule wp_call [OF expression_ok that(1) b], rule Q,
        use that in \<open>auto intro: within_weaken simp: keeps_def\<close>)
  have A: "wp advance_p (\<lambda>_. wp pP Q) s"
    by (rule wp_advance_any [OF w], rule P)
  have N: "Q kNullNode s" using w by (intro Q) (simp_all add: keeps_def)
  have U: "wp (bnd check_using (\<lambda>b. if b then bnd advance_p (\<lambda>_. pP) else ret kNullNode)) Q s"
    unfolding wp_bnd by (rule wp_check_using [OF within_inv [OF w]]) (use A N in simp)
  show ?thesis
    by (rule wp_ifm [OF w], simp, rule P, auto intro: within_weaken)
      (rule wp_ifm [OF w], simp, rule P, auto intro: within_weaken, rule U [unfolded wp_bnd])
qed

lemma wp_type:
  assumes w: "within s0 0 0 s" and b: "budget s0 \<le> n" and c: "check kType s"
  shows "wp (parseTypeDecl pE pP pS q) (\<lambda>i s'. within s0 1 0 s' \<and> id_ok i s') s"
  unfolding parseTypeDecl_def optional_body_def wp_bnd
  apply (rule wp_advance_within, rule w, simp add: checkD [OF c])
  apply (rule wp_expect, assumption, simp)
  apply (rule wp_base_type, assumption, simp add: b)
  apply (rule wp_optional [OF statement_ok], assumption, simp add: b)
  apply (rule wp_optional_semi, assumption)
  apply (rule wp_decl_node, assumption, simp, simp)
   apply (auto simp: keepsD)[1]
  apply (auto intro: within_weaken)
  done

lemma wp_var:
  assumes w: "within s0 0 0 s" and b: "budget s0 \<le> n"
    and c: "is_decl q s"
  shows "wp (parseVarOrTypeDecl pE pP pS q) (\<lambda>i s'. within s0 1 0 s' \<and> id_ok i s') s"
proof -
  have rest: "wp (ifp (check Left) (parseFunctionDecl pE pS q t1 t2)
        (bnd (optional_init pE) (\<lambda>initExpr.
         bnd (expect Semi msg) (\<lambda>_. decl_node VarDecl q t1 t2 initExpr))))
      (\<lambda>i s'. within s0 (Suc 0) 0 s' \<and> id_ok i s') s1"
    if w1: "within s0 (Suc 0) 4 s1" for s1 t1 t2 msg
    apply (rule wp_ifpI)
     apply (rule wp_function [OF w1 b], auto intro: within_weaken)[1]
    apply (unfold wp_bnd, rule wp_init [OF w1 b])
    apply (rule wp_expect, assumption, simp)
    apply (rule wp_decl_node, assumption, simp, simp)
     apply (auto simp: keepsD)[1]
    apply (auto intro: within_weaken)
    done
  show ?thesis
    unfolding parseVarOrTypeDecl_def
    apply (rule wp_ifpI)
     apply (rule wp_type [OF w b], assumption)
    apply (cases "isAuto q"; simp)
     apply (rule wp_expect, rule w, simp)
     apply (rule rest, auto intro: within_weaken)[1]
    apply (rule wp_advance_within, rule w)
     using c apply (auto simp: is_decl_def check_def peek_p_def)[1]
    apply (rule wp_ifpI)
     apply simp
     apply (rule wp_advance_any, assumption)
     apply (rule rest, auto intro: within_weaken)[1]
    apply (rule wp_error_at, erule within_inv)
    done
qed

lemma primary_body_ok: "handler_ok (Suc n) (parsePrimary_body pS pE pP)"
  unfolding handler_ok_def
proof (intro allI impI)
  fix s
  assume "parser_ok s" "budget s < Suc n"
  then have w: "within s 0 0 s" and b: "budget s \<le> n" by (simp_all add: within_refl)
  have fin: "wp (parsePostfixExpression pE e) (\<lambda>i s'. within s 1 0 s' \<and> id_ok i s') s1"
    if "within s (Suc d) k s1" "id_ok e s1" for e s1 d k
    by (rule wp_postfix [OF that(1) b that(2)]) (auto intro: within_weaken)
  show "wp (parsePrimary_body pS pE pP) (\<lambda>i s'. within s 1 0 s' \<and> id_ok i s') s"
    unfolding parsePrimary_body_def
    apply (rule wp_ifpI)
     apply (drule check_anyD, unfold wp_bnd, rule wp_advance_within, rule w, force)
     apply (rule wp_call [OF primary_ok], assumption, simp add: b)
     apply (rule wp_node, assumption, simp, simp)
     apply (rule fin, assumption, assumption)
    apply (rule wp_ifpI)
     apply (drule check_anyD, unfold wp_bnd, rule wp_advance_within, rule w, force)
     apply (rule wp_node, assumption, simp, simp)
     apply (rule fin, assumption, assumption)
    apply (rule wp_ifpI)
     apply (drule check_anyD, unfold wp_bnd, rule wp_advance_within, rule w, force)
     apply (rule wp_ident_node, assumption, simp)
     apply (rule fin, assumption, assumption)
    apply (rule wp_ifpI)
     apply (unfold wp_bnd, rule wp_eval [OF w b])
     apply (rule fin [where d = 0], simp, assumption)
    apply (rule wp_ifpI)
     apply (unfold wp_bnd, rule wp_advance_within, rule w, simp add: check_def peek_p_def)
     apply (rule wp_delete, assumption, rule b)
     apply (rule wp_expect, assumption, simp)
     apply (rule wp_node_at, rule wp_node, assumption, simp, simp add: keepsD)
     apply (rule fin, assumption, assumption)
    apply (rule wp_ifm, rule w, simp)
     apply (unfold wp_bnd, rule wp_create_at, rule wp_create_block, assumption, simp)
     apply (rule wp_block_loop [OF statement_ok], assumption, simp add: b)
     apply (rule wp_expect, assumption, simp)
     apply (rule fin, assumption, simp add: keepsD)
    apply (rule wp_ifm, rule w, simp)
     apply (unfold wp_bnd, rule wp_call [OF expression_ok], assumption, simp add: b)
     apply (rule wp_expect, assumption, simp)
     apply (rule fin, assumption, simp add: keepsD)
    apply (rule wp_error_at, rule within_inv [OF w])
    done
qed

lemma precedence_not_Eof: "getPrecedence t \<noteq> 0 \<Longrightarrow> t \<noteq> Eof"
  by (auto simp: getPrecedence_def)

lemma wp_expression_step:
  "wp (expression_step pE i e) Q s =
     (if getPrecedence (tok_type (peek_p 0 s)) < i \<or> getPrecedence (tok_type (peek_p 0 s)) = 0 then Q (Inr e) s
      else wp (bnd advance_p (\<lambda>opTok.
            bnd (pE (getPrecedence (tok_type (peek_p 0 s)) + 1)) (\<lambda>rhs.
            bnd (make_node BinaryExpr (globalOffset opTok) 0 (set_binary (tok_type opTok) e rhs)) (\<lambda>binId.
            ret (Inl binId))))) Q s)"
  by (simp add: expression_step_def wp_def Let_def ret_def)

lemma expression_body_ok:
  assumes P: "handler_ok (Suc n) pP'"
  shows "handler_ok (Suc n) (parseExpression_body pE pP' i)"
  unfolding handler_ok_def
proof (intro allI impI)
  fix s
  assume "parser_ok s" and b: "budget s < Suc n"
  then have w: "within s 0 0 s" by (simp add: within_refl)
  have step: "wp (expression_step pE i e) (\<lambda>r s'. case r of Inl e' \<Rightarrow> within s1 1 0 s' \<and> id_ok e' s'
      | Inr e' \<Rightarrow> within s1 0 0 s' \<and> id_ok e' s') s1"
    if w1: "within s1 0 0 s1" and e: "id_ok e s1" and b1: "budget s1 \<le> n" for e s1
  proof (cases "getPrecedence (tok_type (peek_p 0 s1)) < i \<or> getPrecedence (tok_type (peek_p 0 s1)) = 0")
    case True
    with w1 e show ?thesis by (simp add: wp_expression_step)
  next
    case False
    then have ne: "tok_type (win0 s1) \<noteq> Eof" by (auto simp: peek_p_def dest: precedence_not_Eof)
    show ?thesis
      unfolding wp_expression_step if_not_P [OF False] wp_bnd
      apply (rule wp_advance_within [OF w1 ne])
      apply (rule wp_call [OF expression_ok], assumption, simp add: b1)
      apply (rule wp_node, assumption, simp)
       using e apply (auto simp: keepsD)[1]
      apply (auto intro: within_weaken)
      done
  qed
  show "wp (parseExpression_body pE pP' i) (\<lambda>i s'. within s 1 0 s' \<and> id_ok i s') s"
    unfolding parseExpression_body_def wp_bnd
    apply (rule wp_handler [OF P w b])
    apply (rule wp_loop_within [where J = id_ok and R = id_ok], assumption, assumption)
     apply (rule step, assumption, assumption)
     using b apply (simp add: within_def)
    apply (auto intro: within_weaken)
    done
qed

lemma statement_body_ok:
  assumes E: "handler_ok (Suc n) (pE 0)"
  shows "handler_ok (Suc n) (parseStatement_body pE pP pS)"
  unfolding handler_ok_def
proof (intro allI impI)
  fix s
  assume "parser_ok s" and "budget s < Suc n"
  then have w0: "within s 0 0 s" and b: "budget s \<le> n" by (simp_all add: within_refl)
  have semi: "wp optional_semi (\<lambda>_. wp (ret e) (\<lambda>i s'. within s 1 0 s' \<and> id_ok i s')) s1"
    if "within s (Suc d) k s1" "id_ok e s1" for e s1 d k
    by (rule wp_optional_semi [OF that(1)]) (use that(2) in \<open>auto intro: within_weaken simp: keepsD\<close>)
  show "wp (parseStatement_body pE pP pS) (\<lambda>i s'. within s 1 0 s' \<and> id_ok i s') s"
    unfolding parseStatement_body_def wp_bnd
  proof (rule wp_parseQualifiers [OF w0])
    fix q s1
    assume w: "within s 0 0 s1"
    show "wp (ifm BrLeft
       (bnd (\<lambda>s. create TranslationUnit (globalOffset (peek_p 0 s)) 0 s) (\<lambda>blockId.
        bnd (block_loop pS) (\<lambda>_.
        bnd (expect BrRight (''Expected '' @ quoted ''}'' @ '' at end of block'')) (\<lambda>_.
        ret blockId))))
     (ifp (check kIf) (parseIfStatement pE pS)
     (ifp (check kWhile) (parseWhileStatement pE pS)
     (ifp (check kFor) (parseForStatement pE pS)
     (ifp (check kReturn) (parseReturnStatement pE)
     (ifp (check_any [kBreak, kContinue])
       (bnd advance_p (\<lambda>ctrlTok.
        bnd (expect Semi (''Expected '' @ quoted '';'' @ '' after loop control statement'')) (\<lambda>_.
        make_node CompileTimeJump (globalOffset ctrlTok) 0 (set_unary (tok_type ctrlTok) kNullNode))))
     (ifp (check kStruct) (parseStructDecl pS)
     (ifp (check kNamespace) (parseNamespaceDecl pS)
     (ifp (check kDelete)
       (bnd (parseDeleteStatement pP) (\<lambda>delNode.
        bnd optional_semi (\<lambda>_. ret delNode)))
     (ifm kRequires
       (bnd (expect Colon (''Expected '' @ quoted '':'' @ '' after '' @ quoted ''requires'')) (\<lambda>_.
        bnd (pE 0) (\<lambda>reqExpr.
        bnd optional_semi (\<lambda>_. ret reqExpr))))
     (ifp (is_decl q) (parseVarOrTypeDecl pE pP pS q)
       (bnd (pE 0) (\<lambda>expr.
        bnd optional_semi (\<lambda>_. ret expr)))))))))))))) (\<lambda>i s'. within s 1 0 s' \<and> id_ok i s') s1"
      apply (rule wp_ifm, rule w, simp)
       apply (unfold wp_bnd, rule wp_create_at, rule wp_create_block, assumption, simp)
       apply (rule wp_block_loop [OF statement_ok], assumption, simp add: b)
       apply (rule wp_expect, assumption, simp)
       apply (auto intro: within_weaken simp: keepsD)[1]
      apply (rule wp_ifpI, rule wp_if [OF w b])
      apply (rule wp_ifpI, rule wp_while [OF w b])
      apply (rule wp_ifpI, rule wp_for [OF w b])
      apply (rule wp_ifpI, rule wp_return [OF w b])
      apply (rule wp_ifpI)
       apply (drule check_anyD, unfold wp_bnd, rule wp_advance_within, rule w, force)
       apply (rule wp_expect, assumption, simp)
       apply (rule wp_node, assumption, simp, simp add: children_ctrl)
       apply (auto intro: within_weaken)[1]
      apply (rule wp_ifpI, rule wp_struct [OF w b])
      apply (rule wp_ifpI, rule wp_namespace [OF w b])
      apply (rule wp_ifpI)
       apply (unfold wp_bnd, rule wp_delete [OF w b])
       apply (rule semi, assumption, assumption)
      apply (rule wp_ifm, rule w, simp)
       apply (unfold wp_bnd, rule wp_expect, assumption, simp)
       apply (rule wp_call [OF expression_ok], assumption, simp add: b)
       apply (rule semi, assumption, assumption)
      apply (rule wp_ifpI, rule wp_var [OF w b], assumption)
      apply (unfold wp_bnd, rule wp_handler [OF E w])
       using w b apply (simp add: within_def)
      apply (rule semi, assumption, assumption)
      done
  qed
qed

end

section \<open>The recursive handlers satisfy the contract\<close>

lemma handlers_ok:
  "handler_ok n parseStatement \<and> handler_ok n (parseExpression i) \<and> handler_ok n parsePrimaryExpression"
proof (induction n arbitrary: i)
  case 0
  then show ?case by (simp add: handler_ok_def)
next
  case (Suc n)
  then have pc: "parser_calls parseStatement parseExpression parsePrimaryExpression n"
    by (simp add: parser_calls_def)
  have eqs: "parseStatement = parseStatement_body parseExpression parsePrimaryExpression parseStatement"
    "parseExpression i = parseExpression_body parseExpression parsePrimaryExpression i"
    "parsePrimaryExpression = parsePrimary_body parseStatement parseExpression parsePrimaryExpression" for i
    by (rule ext, rule parseStatement_eq parseExpression_eq parsePrimaryExpression_eq)+
  have P: "handler_ok (Suc n) parsePrimaryExpression"
    by (subst eqs(3)) (rule parser_calls.primary_body_ok [OF pc])
  have E: "handler_ok (Suc n) (parseExpression j)" for j
    by (subst eqs(2)) (rule parser_calls.expression_body_ok [OF pc P])
  have "handler_ok (Suc n) parseStatement"
    by (subst eqs(1)) (rule parser_calls.statement_body_ok [OF pc E])
  with P E show ?case by simp
qed

interpretation parser: parser_calls parseStatement parseExpression parsePrimaryExpression n for n
  by unfold_locales (use handlers_ok in auto)

end
