(* ===== verification/Parser_Props.thy ===== *)
theory Parser_Props
  imports Parser_Spec
begin

text \<open>
  What the parser promises: it returns on every source, with a well-formed tree or a syntax
  error that names the line and column of a token of the source.
\<close>

section \<open>The whole parser\<close>

lemma init_parser_ok:
  assumes "length src < 2 ^ 30 - 4"
  obtains s where "init_parser (init_lexer src) src = Some s" and "parser_ok s"
    and "tree s = []" and "psource s = src" and "source (plexer s) = src"
    and "budget s \<le> 2 + length src"
proof -
  let ?l0 = "init_lexer src"
  have ok0: "lexer_ok ?l0" using assms by (simp add: lexer_ok_def init_lexer_def)
  have u0: "unread ?l0 = src" and s0: "source ?l0 = src" by (simp_all add: unread_def init_lexer_def)
  obtain t0 l1 where n0: "nextToken ?l0 = Some (t0, l1)" using nextToken_returns [OF ok0] by blast
  note e0 = nextToken_effect [OF ok0 n0]
  then have ok1: "lexer_ok l1" by simp
  obtain t1 l2 where n1: "nextToken l1 = Some (t1, l2)" using nextToken_returns [OF ok1] by blast
  note e1 = nextToken_effect [OF ok1 n1]
  let ?s = "\<lparr>plexer = l2, psource = src, tree = [], win0 = t0, win1 = t1\<rparr>"
  have init: "init_parser ?l0 src = Some ?s"
    by (simp add: init_parser_def initWindow_def n0 n1)
  have eof: "tok_type t0 = Eof \<Longrightarrow> tok_type t1 = Eof"
    using unread_Nil_Eof [OF ok1 _ n1] e0 by simp
  have inv: "parser_inv ?s"
    using e0 e1 eof nextToken_offset [OF ok0 n0] nextToken_offset [OF ok1 n1]
    by (auto simp: parser_inv_def tok_in_def s0 tree_wf_Nil split: if_splits)
  have b: "budget ?s \<le> 2 + length src"
    using e0 e1 u0 by (auto simp: budget_def split: if_splits)
  with assms have "cost ?s < max_nodes" by (simp add: cost_def max_nodes_def)
  with inv b e0 e1 s0 show ?thesis
    by (intro that [OF init]) (simp_all add: parser_ok_def)
qed

lemma wp_unit_step:
  assumes w: "within s 0 0 s"
  shows "wp (unit_step u) (\<lambda>r s'. case r of Inl u \<Rightarrow> within s 1 0 s' \<and> True
      | Inr u \<Rightarrow> within s 0 0 s' \<and> check Eof s') s"
  unfolding unit_step_def
proof (rule wp_ifpI)
  have g: "wp (ifp c (bnd advance_p (\<lambda>_. ret (Inl ()))) (ret (Inl ())))
      (\<lambda>r s'. case r of Inl u \<Rightarrow> within s 1 0 s' \<and> True
        | Inr u \<Rightarrow> within s 0 0 s' \<and> check Eof s') s1"
    if "within s (Suc 0) 0 s1" for s1 c
    by (rule wp_ifpI, unfold wp_bnd, rule wp_advance_any [OF that]) (use that in simp_all)
  have "wp (bnd parseStatement (\<lambda>_.
          ifp (\<lambda>s'. globalOffset (win0 s') = globalOffset (win0 s) \<and> \<not> check Eof s')
            (bnd advance_p (\<lambda>_. ret (Inl ()))) (ret (Inl ()))))
      (\<lambda>r s'. case r of Inl u \<Rightarrow> within s 1 0 s' \<and> True
        | Inr u \<Rightarrow> within s 0 0 s' \<and> check Eof s') s"
    unfolding wp_bnd
    by (rule wp_handler [OF parser.statement_ok [of "Suc (budget s)"] w]) (auto intro: g)
  then show "wp (\<lambda>s. let prevCursor = globalOffset (win0 s)
      in bnd parseStatement (\<lambda>_. ifp (\<lambda>s. globalOffset (win0 s) = prevCursor \<and> \<not> check Eof s)
           (bnd advance_p (\<lambda>_. ret (Inl ()))) (ret (Inl ()))) s)
      (\<lambda>r s'. case r of Inl u \<Rightarrow> within s 1 0 s' \<and> True
        | Inr u \<Rightarrow> within s 0 0 s' \<and> check Eof s') s"
    by (simp add: wp_def Let_def)
qed (use w in simp)

lemma wp_parseTranslationUnit:
  assumes "parser_ok s" and "cost s + 1 < max_nodes"
  shows "wp parseTranslationUnit (\<lambda>ns s'. ns = tree s' \<and> parser_inv s' \<and> check Eof s' \<and>
    tree s' \<noteq> [] \<and> length ns \<le> Suc (cost s) \<and> prefix (tree s @ [new_node TranslationUnit 0 0]) ns) s"
proof -
  let ?n = "new_node TranslationUnit 0 0"
  let ?s1 = "s\<lparr>tree := tree s @ [?n]\<rparr>"
  have "children ?n = []" by (simp add: children_def is_kind_def new_node_def)
  with assms have "parser_inv ?s1"
    using tree_wf_create [of s ?n] by (simp add: parser_ok_def parser_inv_def)
  with assms have ok1: "parser_ok ?s1" by (simp add: parser_ok_def cost_def)
  have "wp (loop unit_step ()) (\<lambda>_ s'. within ?s1 0 0 s' \<and> check Eof s') ?s1"
    by (rule wp_loop_within [OF within_refl [OF ok1], where J = "\<lambda>_ _. True" and R = "\<lambda>_. check Eof"])
      (use wp_unit_step in auto)
  then have "wp (loop unit_step ()) (\<lambda>_ s'. parser_inv s' \<and> check Eof s' \<and>
      tree s' \<noteq> [] \<and> length (tree s') \<le> Suc (cost s) \<and> prefix (tree s @ [?n]) (tree s')) ?s1"
    by (rule wp_mono) (auto simp: within_def cost_def prefix_def)
  then show ?thesis
    by (simp add: parseTranslationUnit_def wp_def bnd_def create_def createNode_def ret_def
        split: option.splits sum.splits prod.splits)
qed

lemma parse_source_ok:
  assumes "length src < 2 ^ 30 - 4"
  shows "\<exists>r. parse_source src = Some r \<and>
    (case r of
       Inl e \<Rightarrow> \<exists>msg. e = SyntaxError msg
     | Inr nodes \<Rightarrow> tree_wf nodes \<and> wf (child_rel nodes) \<and>
         prefix [new_node TranslationUnit 0 0] nodes \<and> length nodes \<le> 4 * length src + 9)"
proof -
  obtain s where s: "init_parser (init_lexer src) src = Some s" "parser_ok s" "tree s = []"
      "budget s \<le> 2 + length src"
    using init_parser_ok [OF assms] by metis
  have c: "cost s + 1 < max_nodes" "cost s \<le> 4 * length src + 8"
    using s(3,4) assms by (simp_all add: cost_def max_nodes_def)
  have out: "x \<noteq> OutOfRange \<Longrightarrow> \<exists>msg. x = SyntaxError msg" for x by (cases x) auto
  show ?thesis
    using wp_parseTranslationUnit [OF s(2) c(1)] c(2) s(3)
    by (auto simp: parse_source_def s(1) wp_def parser_inv_def intro!: wf_child_rel
        dest: out split: option.splits sum.splits prod.splits)
qed

text \<open>
  C1: The parser is total: on every source of less than \<open>2 ^ 30 - 4\<close> bytes it returns, either
  with a syntax error (never with the \<open>std::out_of_range\<close> that \<open>substr\<close> could throw) or with a
  tree whose first node is the translation unit, whose references are all null or valid and
  cannot form a cycle, and which has at most four nodes for a byte of the source.
\<close>

theorem parse_source_total:
  assumes "length src < 2 ^ 30 - 4"
  shows "\<exists>r. parse_source src = Some r \<and>
    (case r of
       Inl e \<Rightarrow> \<exists>msg. e = SyntaxError msg
     | Inr nodes \<Rightarrow> tree_wf nodes \<and> wf (child_rel nodes) \<and>
         prefix [new_node TranslationUnit 0 0] nodes \<and> length nodes \<le> 4 * length src + 9)"
  by (rule parse_source_ok [OF assms])

theorem parse_source_total_witness:
  "\<exists>r. parse_source ''int x = f(1, y) + 2;'' = Some r"
  using parse_source_total [of "''int x = f(1, y) + 2;''"] by auto

section \<open>Positions in diagnostics\<close>

lemma line_col_snoc:
  "line_col (cs @ [c]) = (if c = NEWLINE then (fst (line_col cs) + 1, 1) else (fst (line_col cs), snd (line_col cs) + 1))"
  by (simp add: line_col_def split_def)

lemma line_col_eq:
  "line_col cs = (of_nat (1 + count_list cs NEWLINE), of_nat (1 + length (takeWhile (\<lambda>c. c \<noteq> NEWLINE) (rev cs))))"
proof (induction cs rule: rev_induct)
  case Nil
  then show ?case by (simp add: line_col_def)
next
  case (snoc c cs)
  then show ?case by (simp add: line_col_snoc)
qed

text \<open>
  C8: The position in a diagnostic is right: for a token inside a source of less than
  \<open>2 ^ 32 - 1\<close> bytes the line is one more than the number of line feeds before the token, the
  column one more than the number of bytes since the last of them, and the quoted text is the
  token's.
\<close>

theorem raiseError_position:
  assumes "length (psource s) < 2 ^ 32 - 1" and "unat (globalOffset tok) \<le> length (psource s)"
    and "tok_type tok \<noteq> Eof"
    and "before = take (unat (globalOffset tok)) (psource s)"
  shows "raiseError tok msg s = Some (Inl (SyntaxError (
    ''[Line '' @ string_of_nat (1 + count_list before NEWLINE) @
    '', Col '' @ string_of_nat (1 + length (takeWhile (\<lambda>c. c \<noteq> NEWLINE) (rev before))) @
    ''] Syntax Error at '' @
    quoted (take (unat (tok_size tok)) (drop (unat (globalOffset tok)) (psource s))) @ '': '' @ msg)))"
proof -
  have len: "length before < 2 ^ 32 - 1" using assms(1,4) by simp
  have "count_list before NEWLINE \<le> length before" by (rule count_le_length)
  with len have line: "unat (of_nat (1 + count_list before NEWLINE) :: u32) = 1 + count_list before NEWLINE"
    by (intro unat_of_nat_lt) simp
  have "length (takeWhile (\<lambda>c. c \<noteq> NEWLINE) (rev before)) \<le> length before"
    using length_takeWhile_le [of _ "rev before"] by simp
  with len have col: "unat (of_nat (1 + length (takeWhile (\<lambda>c. c \<noteq> NEWLINE) (rev before))) :: u32)
      = 1 + length (takeWhile (\<lambda>c. c \<noteq> NEWLINE) (rev before))"
    by (intro unat_of_nat_lt) simp
  have "\<not> length (psource s) < unat (globalOffset tok)" using assms(2) by simp
  then show ?thesis
    using assms(3) by (simp only: raiseError_def Let_def if_False assms(4) [symmetric] line_col_eq
        prod.case line col substr_def)
qed

theorem raiseError_position_witness:
  "raiseError (mk_token 5 2 Ident) ''bad'' \<lparr>plexer = init_lexer [], psource = ''a;'' @ [NEWLINE] @ ''b xy;'',
     tree = [], win0 = default_token, win1 = default_token\<rparr> = (Some (Inl (SyntaxError
       (''[Line 2, Col 3] Syntax Error at '' @ quoted ''xy'' @ '': bad''))) :: unit outcome)"
proof -
  let ?s = "\<lparr>plexer = init_lexer [], psource = ''a;'' @ [NEWLINE] @ ''b xy;'',
     tree = [], win0 = default_token, win1 = default_token\<rparr>"
  have b: "''a;'' @ [NEWLINE] @ ''b '' = take (unat (globalOffset (mk_token 5 2 Ident))) (psource ?s)"
    by simp
  have n: "string_of_nat (1 + count_list (''a;'' @ [NEWLINE] @ ''b '') NEWLINE) = ''2''"
    "string_of_nat (1 + length (takeWhile (\<lambda>c. c \<noteq> NEWLINE) (rev (''a;'' @ [NEWLINE] @ ''b '')))) = ''3''"
    "take (unat (tok_size (mk_token 5 2 Ident))) (drop (unat (globalOffset (mk_token 5 2 Ident))) (psource ?s)) = ''xy''"
    by code_simp+
  have h: "length (psource ?s) < 2 ^ 32 - 1" "unat (globalOffset (mk_token 5 2 Ident)) \<le> length (psource ?s)"
    "tok_type (mk_token 5 2 Ident) \<noteq> Eof"
    by simp_all
  show ?thesis
    unfolding raiseError_position [OF h b] n by simp
qed

end
