(* ===== verification/Parser_Prec.thy ===== *)
theory Parser_Prec
  imports Parser_Props
begin

text \<open>
  Precedence climbing against a stratified expression grammar. \<open>prints k e ts\<close> says that the
  tokens \<open>ts\<close> are a way to write the expression \<open>e\<close> where an operand of level \<open>k\<close> is expected:
  binary operators of a level below \<open>k\<close> need parentheses, the left operand has the level of its
  operator and the right operand the next one, prefix operators bind tightest. The parser builds
  exactly the tree of \<open>e\<close>.
\<close>

section \<open>Upcoming tokens\<close>

text \<open>
  The tokens a lexer still yields before \<open>Eof\<close>; the test that it moves forward holds for every
  lexer state that is \<open>lexer_ok\<close>.
\<close>

function lex_rest :: "Lexer \<Rightarrow> Token list" where
  "lex_rest lx =
     (case nextToken lx of
        None \<Rightarrow> []
      | Some (t, lx') \<Rightarrow>
          if tok_type t = Eof \<or> length (unread lx) \<le> length (unread lx') then [] else t # lex_rest lx')"
  by pat_completeness auto
termination
  by (relation "measure (\<lambda>lx. length (unread lx))") auto

declare lex_rest.simps [simp del]

definition upcoming :: "Parser \<Rightarrow> Token list" where
  "upcoming s = (if tok_type (win0 s) = Eof then []
     else win0 s # (if tok_type (win1 s) = Eof then [] else win1 s # lex_rest (plexer s)))"

text \<open>The invariant of the window and the lexer, whatever the tree is.\<close>

definition window_ok :: "Parser \<Rightarrow> bool" where
  "window_ok s \<longleftrightarrow> parser_inv (s\<lparr>tree := []\<rparr>)"

lemma window_ok_tree [simp]: "window_ok (s\<lparr>tree := ns\<rparr>) = window_ok s"
  by (simp add: window_ok_def)

lemma upcoming_tree [simp]: "upcoming (s\<lparr>tree := ns\<rparr>) = upcoming s"
  by (simp add: upcoming_def)

lemma parser_inv_window: "parser_inv s \<Longrightarrow> window_ok s"
  by (simp add: window_ok_def parser_inv_def tree_wf_Nil)

definition first_type :: "Token list \<Rightarrow> TokenType" where
  "first_type ts = (case ts of [] \<Rightarrow> Eof | t # _ \<Rightarrow> tok_type t)"

lemma first_type_simps [simp]: "first_type [] = Eof" "first_type (t # ts) = tok_type t"
  by (simp_all add: first_type_def)

lemma peek0_upcoming: "tok_type (peek_p 0 s) = first_type (upcoming s)"
  by (simp add: peek_p_def upcoming_def)

lemma check_upcoming: "check ty s \<longleftrightarrow> first_type (upcoming s) = ty"
  by (simp add: check_def peek0_upcoming)

lemma check_any_upcoming: "check_any tys s \<longleftrightarrow> first_type (upcoming s) \<in> set tys"
  by (simp add: check_any_def peek0_upcoming)

lemma peek1_upcoming:
  assumes "window_ok s"
  shows "tok_type (peek_p 1 s) = first_type (tl (upcoming s))"
  using assms by (auto simp: peek_p_def upcoming_def window_ok_def parser_inv_def)

lemma upcoming_not_Eof: "upcoming s = t # ts \<Longrightarrow> tok_type t \<noteq> Eof \<and> win0 s = t"
  by (auto simp: upcoming_def split: if_splits)

lemma advance_upcoming:
  assumes w: "window_ok s" and u: "upcoming s = t # ts"
  shows "\<exists>s'. advance_p s = Some (Inr (t, s')) \<and> window_ok s' \<and> upcoming s' = ts \<and> tree s' = tree s"
proof -
  have t: "tok_type t \<noteq> Eof" "win0 s = t" using upcoming_not_Eof [OF u] by simp_all
  have ok: "lexer_ok (plexer s)" using w by (simp add: window_ok_def parser_inv_def)
  then obtain t1 lx where nt: "nextToken (plexer s) = Some (t1, lx)"
    using nextToken_returns by blast
  note eff = nextToken_effect [OF ok nt]
  have e: "tok_type (win1 s) = Eof \<Longrightarrow> tok_type t1 = Eof"
    using unread_Nil_Eof [OF ok _ nt] w by (simp add: window_ok_def parser_inv_def)
  let ?s' = "s\<lparr>win0 := win1 s, win1 := t1, plexer := lx\<rparr>"
  have "window_ok ?s'"
    using w eff e nextToken_offset [OF ok nt]
    by (auto simp: window_ok_def parser_inv_def tok_in_def split: if_splits)
  moreover have "upcoming ?s' = ts"
    using u e t eff nt by (auto simp: upcoming_def lex_rest.simps [of "plexer s"] split: if_splits)
  moreover have "advance_p s = Some (Inr (t, ?s'))"
    using t nt by (simp add: advance_p_def ret_def Let_def)
  ultimately show ?thesis by (intro exI [of _ ?s']) simp
qed

lemma make_node_eq:
  assumes "length (tree s) < 2 ^ 32"
  shows "make_node nk off len f s =
    Some (Inr (of_nat (length (tree s)), s\<lparr>tree := tree s @ [f (new_node nk off len)]\<rparr>))"
proof -
  have "unat (of_nat (length (tree s)) :: u32) = length (tree s)"
    using assms by (rule_tac unat_of_nat_lt) simp
  then show ?thesis
    by (simp add: make_node_def bnd_def create_def createNode_def update_def ret_def Let_def set_node_def)
qed

section \<open>The grammar\<close>

datatype expr = Atom Token | Prefix Token expr | Binary Token expr expr

definition atom_types :: "TokenType list" where
  "atom_types = [LInt, LFloat, LString, LChar, kTrue, kFalse, Ident, kVoid, kByte]"

definition prefix_types :: "TokenType list" where
  "prefix_types = [PPlus, MMinus, Excl, Tilde, Minus, Amp, Star]"

abbreviation prec_of :: "Token \<Rightarrow> int" where
  "prec_of t \<equiv> getPrecedence (tok_type t)"

inductive prints :: "int \<Rightarrow> expr \<Rightarrow> Token list \<Rightarrow> bool" where
  atom: "tok_type t \<in> set atom_types \<Longrightarrow> prints k (Atom t) [t]"
| prefix_op: "tok_type t \<in> set prefix_types \<Longrightarrow> prints 12 e ts \<Longrightarrow> prints k (Prefix t e) (t # ts)"
| binary_op: "0 < prec_of t \<Longrightarrow> k \<le> prec_of t \<Longrightarrow> prints (prec_of t) l ts \<Longrightarrow>
    prints (prec_of t + 1) r us \<Longrightarrow> prints k (Binary t l r) (ts @ t # us)"
| parens: "tok_type lp = Left \<Longrightarrow> tok_type rp = Right \<Longrightarrow> prints 0 e ts \<Longrightarrow>
    prints k e (lp # ts @ [rp])"

text \<open>The node \<open>i\<close> is the root of the tree of an expression.\<close>

fun rep :: "Node list \<Rightarrow> NodeId \<Rightarrow> expr \<Rightarrow> bool" where
  "rep ns i (Atom t) \<longleftrightarrow> unat i < length ns \<and>
     ns ! unat i = set_literal (tok_type t) 0
       (new_node (if tok_type t \<in> {Ident, kVoid, kByte} then IdentifierExpr else LiteralExpr)
         (globalOffset t) (tok_size t))"
| "rep ns i (Prefix t e) \<longleftrightarrow> unat i < length ns \<and>
     ns ! unat i = set_unary (tok_type t) (word1 (ns ! unat i))
       (new_node UnaryExpr (globalOffset t) (tok_size t)) \<and>
     rep ns (word1 (ns ! unat i)) e"
| "rep ns i (Binary t l r) \<longleftrightarrow> unat i < length ns \<and>
     ns ! unat i = set_binary (tok_type t) (word1 (ns ! unat i)) (word2 (ns ! unat i))
       (new_node BinaryExpr (globalOffset t) 0) \<and>
     rep ns (word1 (ns ! unat i)) l \<and> rep ns (word2 (ns ! unat i)) r"

lemma rep_prefix: "rep ns i e \<Longrightarrow> prefix ns ms \<Longrightarrow> rep ms i e"
proof (induction ns i e rule: rep.induct)
qed (auto simp: prefix_nth dest: prefix_length_le)

text \<open>What may follow an operand of level \<open>k\<close>.\<close>

definition postfix_types :: "TokenType list" where
  "postfix_types = [Left, Dot, Arrow, SqLeft, PPlus, MMinus]"

definition stops :: "int \<Rightarrow> Token list \<Rightarrow> bool" where
  "stops k rest \<longleftrightarrow> first_type rest \<notin> set postfix_types \<and> getPrecedence (first_type rest) \<le> k"

lemma prec_range: "0 \<le> getPrecedence t \<and> getPrecedence t \<le> 11"
  by (simp add: getPrecedence_def)

lemma prec_not_postfix: "0 < getPrecedence t \<Longrightarrow> t \<notin> set postfix_types"
  by (auto simp: postfix_types_def getPrecedence_def)

lemma postfix_stops:
  assumes "first_type (upcoming s) \<notin> set postfix_types"
  shows "parsePostfixExpression pE i s = Some (Inr (i, s))"
  using assms
  by (simp add: parsePostfixExpression_def loop.simps [of "postfix_step pE"] postfix_step_def ifm_def
      match_p_def bnd_def ifp_def check_upcoming check_any_upcoming ret_def postfix_types_def)

lemma loop_stops:
  assumes "getPrecedence (first_type (upcoming s)) < m \<or> getPrecedence (first_type (upcoming s)) = 0"
  shows "loop (expression_step pE m) i s = Some (Inr (i, s))"
  using assms
  by (subst loop.simps) (simp add: expression_step_def Let_def peek0_upcoming ret_def)

section \<open>Primary expressions\<close>

text \<open>
  \<open>s1\<close> is what parsing \<open>e\<close> from \<open>s\<close> ends in: the tokens of \<open>e\<close> are consumed, the tree has grown
  by at most one node for each of them, and \<open>i\<close> is the root of \<open>e\<close>.
\<close>

definition built :: "Parser \<Rightarrow> Token list \<Rightarrow> Token list \<Rightarrow> expr \<Rightarrow> NodeId \<Rightarrow> Parser \<Rightarrow> bool" where
  "built s ts rest e i s1 \<longleftrightarrow> window_ok s1 \<and> upcoming s1 = rest \<and> rep (tree s1) i e \<and>
     prefix (tree s) (tree s1) \<and> length (tree s1) \<le> length (tree s) + length ts"

lemma bnd_Some: "m s = Some (Inr (a, s')) \<Longrightarrow> bnd m f s = f a s'"
  by (simp add: bnd_def)

lemma primary_atom:
  assumes w: "window_ok s" and u: "upcoming s = t # rest" and t: "tok_type t \<in> set atom_types"
    and r: "first_type rest \<notin> set postfix_types" and len: "length (tree s) + 1 < 2 ^ 32"
  shows "\<exists>i s1. parsePrimaryExpression s = Some (Inr (i, s1)) \<and> built s [t] rest (Atom t) i s1"
proof -
  obtain s' where s': "advance_p s = Some (Inr (t, s'))" "window_ok s'" "upcoming s' = rest" "tree s' = tree s"
    using advance_upcoming [OF w u] by blast
  let ?k = "if tok_type t \<in> {Ident, kVoid, kByte} then IdentifierExpr else LiteralExpr"
  let ?n = "set_literal (tok_type t) 0 (new_node ?k (globalOffset t) (tok_size t))"
  let ?i = "of_nat (length (tree s)) :: u32" and ?s1 = "s'\<lparr>tree := tree s' @ [?n]\<rparr>"
  have mk: "make_node ?k (globalOffset t) (tok_size t) (set_literal (tok_type t) 0) s' = Some (Inr (?i, ?s1))"
    using len s'(4) by (simp add: make_node_eq)
  have post: "parsePostfixExpression parseExpression ?i ?s1 = Some (Inr (?i, ?s1))"
    using r s'(3) by (intro postfix_stops) simp
  have c1: "\<not> check_any [PPlus, MMinus, Excl, Tilde, Minus, Amp, Star] s"
    and c2: "check_any [LInt, LFloat, LString, LChar, kTrue, kFalse] s \<longleftrightarrow> tok_type t \<notin> {Ident, kVoid, kByte}"
    and c3: "check_any [Ident, kVoid, kByte] s \<longleftrightarrow> tok_type t \<in> {Ident, kVoid, kByte}"
    using t u by (auto simp: check_any_upcoming atom_types_def)
  have "parsePrimaryExpression s = Some (Inr (?i, ?s1))"
  proof (cases "tok_type t \<in> {Ident, kVoid, kByte}")
    case True
    with mk post show ?thesis
      unfolding parsePrimaryExpression_eq [of s] parsePrimary_body_def ifp_def c1 c2 c3
      by (simp only: c1 if_True if_False not_not simp_thms bnd_Some [where m = advance_p, OF s'(1)]
          ident_node_def bnd_Some)
  next
    case False
    with mk post show ?thesis
      unfolding parsePrimaryExpression_eq [of s] parsePrimary_body_def ifp_def c1 c2 c3
      by (simp only: c1 if_True if_False not_not simp_thms bnd_Some [where m = advance_p, OF s'(1)]
          bnd_Some)
  qed
  moreover have "unat ?i = length (tree s)" using len by (intro unat_of_nat_lt) simp
  ultimately show ?thesis
    using s' by (intro exI [of _ ?i] exI [of _ ?s1]) (simp add: built_def)
qed

lemma primary_prefix:
  assumes w: "window_ok s" and u: "upcoming s = t # ts @ rest" and t: "tok_type t \<in> set prefix_types"
    and r: "first_type rest \<notin> set postfix_types" and len: "length (tree s) + length (t # ts) < 2 ^ 32"
    and operand: "\<And>s. window_ok s \<Longrightarrow> upcoming s = ts @ rest \<Longrightarrow> length (tree s) + length ts < 2 ^ 32 \<Longrightarrow>
      \<exists>i s1. parsePrimaryExpression s = Some (Inr (i, s1)) \<and> built s ts rest e i s1"
  shows "\<exists>i s1. parsePrimaryExpression s = Some (Inr (i, s1)) \<and> built s (t # ts) rest (Prefix t e) i s1"
proof -
  obtain s' where s': "advance_p s = Some (Inr (t, s'))" "window_ok s'" "upcoming s' = ts @ rest" "tree s' = tree s"
    using advance_upcoming [OF w u] by blast
  obtain j s2 where s2: "parsePrimaryExpression s' = Some (Inr (j, s2))" "built s' ts rest e j s2"
    using operand [OF s'(2,3)] s'(4) len by auto
  have l2: "length (tree s2) < 2 ^ 32" using s2(2) s'(4) len by (simp add: built_def)
  let ?n = "set_unary (tok_type t) j (new_node UnaryExpr (globalOffset t) (tok_size t))"
  let ?i = "of_nat (length (tree s2)) :: u32" and ?s1 = "s2\<lparr>tree := tree s2 @ [?n]\<rparr>"
  have mk: "make_node UnaryExpr (globalOffset t) (tok_size t) (set_unary (tok_type t) j) s2 = Some (Inr (?i, ?s1))"
    using l2 by (simp add: make_node_eq)
  have post: "parsePostfixExpression parseExpression ?i ?s1 = Some (Inr (?i, ?s1))"
    using r s2(2) by (intro postfix_stops) (simp add: built_def)
  have "parsePrimaryExpression s = Some (Inr (?i, ?s1))"
    using t u s'(1) s2(1) mk post
    by (subst parsePrimaryExpression_eq)
      (simp add: parsePrimary_body_def ifp_def check_any_upcoming prefix_types_def bnd_Some)
  moreover have "unat ?i = length (tree s2)" using l2 by (intro unat_of_nat_lt) simp
  moreover have "word1 ?n = j" by (simp add: set_unary_def)
  moreover have "rep (tree s2 @ [?n]) j e"
    using s2(2) by (auto simp: built_def intro: rep_prefix)
  ultimately show ?thesis
    using s2(2) s' by (intro exI [of _ ?i] exI [of _ ?s1]) (simp add: built_def)
qed

lemma prints_first:
  "prints k e ts \<Longrightarrow> ts \<noteq> [] \<and> first_type ts \<in> set atom_types \<union> set prefix_types \<union> {Left}"
proof (induction rule: prints.induct)
  case (binary_op t k l ts r us)
  then show ?case by (cases ts) auto
qed auto

lemma primary_parens:
  assumes w: "window_ok s" and u: "upcoming s = lp # ts @ rp # rest"
    and lp: "tok_type lp = Left" and rp: "tok_type rp = Right"
    and ne: "ts \<noteq> []" "first_type ts \<noteq> kDelete"
    and r: "first_type rest \<notin> set postfix_types" and len: "length (tree s) + length (lp # ts @ [rp]) < 2 ^ 32"
    and inner: "\<And>s. window_ok s \<Longrightarrow> upcoming s = ts @ rp # rest \<Longrightarrow> length (tree s) + length ts < 2 ^ 32 \<Longrightarrow>
      \<exists>i s1. parseExpression 0 s = loop (expression_step parseExpression 0) i s1 \<and> built s ts (rp # rest) e i s1"
  shows "\<exists>i s1. parsePrimaryExpression s = Some (Inr (i, s1)) \<and> built s (lp # ts @ [rp]) rest e i s1"
proof -
  obtain s' where s': "advance_p s = Some (Inr (lp, s'))" "window_ok s'" "upcoming s' = ts @ rp # rest" "tree s' = tree s"
    using advance_upcoming [OF w u] by blast
  obtain i s2 where s2: "parseExpression 0 s' = loop (expression_step parseExpression 0) i s2"
      "built s' ts (rp # rest) e i s2"
    using inner [OF s'(2,3)] s'(4) len by auto
  have u2: "upcoming s2 = rp # rest" "window_ok s2" using s2(2) by (simp_all add: built_def)
  have "loop (expression_step parseExpression 0) i s2 = Some (Inr (i, s2))"
    using u2 rp by (intro loop_stops) (simp add: getPrecedence_def)
  with s2(1) have e: "parseExpression 0 s' = Some (Inr (i, s2))" by simp
  obtain s3 where s3: "advance_p s2 = Some (Inr (rp, s3))" "window_ok s3" "upcoming s3 = rest" "tree s3 = tree s2"
    using advance_upcoming [OF u2(2,1)] by blast
  have x: "expect Right msg s2 = Some (Inr (rp, s3))" for msg
    using s3(1) u2(1) rp by (simp add: expect_def ifp_def check_upcoming)
  have post: "parsePostfixExpression parseExpression i s3 = Some (Inr (i, s3))"
    using r s3(3) by (intro postfix_stops) simp
  have p1: "tok_type (peek_p 1 s) \<noteq> kDelete"
    using peek1_upcoming [OF w] u ne by (cases ts) simp_all
  have "parsePrimaryExpression s = Some (Inr (i, s3))"
    using u lp p1 s'(1) e x post
    by (subst parsePrimaryExpression_eq)
      (simp add: parsePrimary_body_def ifp_def ifm_def match_p_def check_any_upcoming check_upcoming
        bnd_Some ret_def bnd_def)
  then show ?thesis
    using s2(2) s3 s' by (intro exI [of _ i] exI [of _ s3]) (simp add: built_def)
qed

section \<open>Precedence climbing\<close>

text \<open>From a primary expression \<open>parseExpression m\<close> goes on with its loop.\<close>

lemma expression_from_primary:
  assumes "parsePrimaryExpression s = Some (Inr (i, s1))"
  shows "parseExpression m s = loop (expression_step parseExpression m) i s1"
  using assms by (subst parseExpression_eq) (simp add: parseExpression_body_def bnd_Some)

lemma parse_prints:
  assumes "prints k e ts"
  shows "window_ok s \<Longrightarrow> upcoming s = ts @ rest \<Longrightarrow> length (tree s) + length ts < 2 ^ 32 \<Longrightarrow>
    stops k rest \<Longrightarrow>
    (\<forall>m \<le> k. \<exists>i s1. parseExpression m s = loop (expression_step parseExpression m) i s1 \<and> built s ts rest e i s1) \<and>
    (12 \<le> k \<longrightarrow> (\<exists>i s1. parsePrimaryExpression s = Some (Inr (i, s1)) \<and> built s ts rest e i s1))"
  using assms
proof (induction arbitrary: s rest rule: prints.induct)
  case (atom t k)
  then have "\<exists>i s1. parsePrimaryExpression s = Some (Inr (i, s1)) \<and> built s [t] rest (Atom t) i s1"
    by (intro primary_atom) (simp_all add: stops_def)
  then show ?case using expression_from_primary by metis
next
  case (prefix_op t e ts k)
  have pre: "\<exists>i s1. parsePrimaryExpression s' = Some (Inr (i, s1)) \<and> built s' ts rest e i s1"
    if "window_ok s'" "upcoming s' = ts @ rest" "length (tree s') + length ts < 2 ^ 32" for s'
    using prefix_op.IH [OF that] prefix_op.prems(4) prec_range [of "first_type rest"]
    by (auto simp: stops_def)
  have "\<exists>i s1. parsePrimaryExpression s = Some (Inr (i, s1)) \<and> built s (t # ts) rest (Prefix t e) i s1"
    using prefix_op.prems prefix_op.hyps(1) by (intro primary_prefix pre) (simp_all add: stops_def)
  then show ?case using expression_from_primary by metis
next
  case (parens lp rp e ts k)
  have st: "stops 0 (rp # rest)"
    using parens.hyps(2) by (simp add: stops_def postfix_types_def getPrecedence_def)
  have inner: "\<exists>i s1. parseExpression 0 s' = loop (expression_step parseExpression 0) i s1 \<and>
      built s' ts (rp # rest) e i s1"
    if "window_ok s'" "upcoming s' = ts @ rp # rest" "length (tree s') + length ts < 2 ^ 32" for s'
    using parens.IH [OF that st] by auto
  have "ts \<noteq> []" "first_type ts \<noteq> kDelete"
    using prints_first [OF parens.hyps(3)] by (auto simp: atom_types_def prefix_types_def)
  then have "\<exists>i s1. parsePrimaryExpression s = Some (Inr (i, s1)) \<and> built s (lp # ts @ [rp]) rest e i s1"
    using parens.prems parens.hyps(1,2) by (intro primary_parens inner) (simp_all add: stops_def)
  then show ?case using expression_from_primary by metis
next
  case (binary_op t k l ts r us)
  let ?q = "prec_of t"
  have st_l: "stops ?q (t # us @ rest)"
    using binary_op.hyps(1) prec_not_postfix by (simp add: stops_def)
  have st_r: "stops (?q + 1) rest"
    using binary_op.prems(4) binary_op.hyps(2) by (auto simp: stops_def)
  have "\<exists>i s1. parseExpression m s = loop (expression_step parseExpression m) i s1 \<and>
      built s (ts @ t # us) rest (Binary t l r) i s1" if m: "m \<le> k" for m
  proof -
    have "length (tree s) + length ts < 2 ^ 32" and ul: "upcoming s = ts @ (t # us @ rest)"
      using binary_op.prems(2,3) by simp_all
    from binary_op.IH(1) [OF binary_op.prems(1) this(2,1) st_l]
    have "\<exists>i s1. parseExpression m s = loop (expression_step parseExpression m) i s1 \<and>
        built s ts (t # us @ rest) l i s1"
      using order.trans [OF m binary_op.hyps(2)] by blast
    then obtain il s1 where l: "parseExpression m s = loop (expression_step parseExpression m) il s1"
        "built s ts (t # us @ rest) l il s1"
      by blast
    have u1: "upcoming s1 = t # us @ rest" "window_ok s1" using l(2) by (simp_all add: built_def)
    obtain s2 where s2: "advance_p s1 = Some (Inr (t, s2))" "window_ok s2" "upcoming s2 = us @ rest" "tree s2 = tree s1"
      using advance_upcoming [OF u1(2,1)] by blast
    have len2: "length (tree s2) + length us < 2 ^ 32"
      using l(2) s2(4) binary_op.prems(3) by (simp add: built_def)
    obtain ir s3 where r: "parseExpression (?q + 1) s2 = loop (expression_step parseExpression (?q + 1)) ir s3"
        "built s2 us rest r ir s3"
      using binary_op.IH(2) [OF s2(2,3) len2 st_r] by auto
    have "loop (expression_step parseExpression (?q + 1)) ir s3 = Some (Inr (ir, s3))"
      using r(2) binary_op.prems(4) binary_op.hyps(2) by (intro loop_stops) (auto simp: stops_def built_def)
    with r(1) have rr: "parseExpression (?q + 1) s2 = Some (Inr (ir, s3))" by simp
    let ?n = "set_binary (tok_type t) il ir (new_node BinaryExpr (globalOffset t) 0)"
    let ?i = "of_nat (length (tree s3)) :: u32" and ?s4 = "s3\<lparr>tree := tree s3 @ [?n]\<rparr>"
    have l3: "length (tree s3) < 2 ^ 32"
      using r(2) len2 by (simp add: built_def)
    have "expression_step parseExpression m il s1 = Some (Inr (Inl ?i, ?s4))"
      using u1 m binary_op.hyps(1,2) s2(1) rr l3
      by (simp add: expression_step_def Let_def peek0_upcoming bnd_Some make_node_eq ret_def)
    then have "loop (expression_step parseExpression m) il s1 = loop (expression_step parseExpression m) ?i ?s4"
      by (subst loop.simps) simp
    with l(1) have "parseExpression m s = loop (expression_step parseExpression m) ?i ?s4" by simp
    moreover have "unat ?i = length (tree s3)" using l3 by (intro unat_of_nat_lt) simp
    moreover have "word1 ?n = il" "word2 ?n = ir" by (simp_all add: set_binary_def)
    moreover have "rep (tree s3 @ [?n]) il l" "rep (tree s3 @ [?n]) ir r"
      using l(2) r(2) s2(4) by (auto simp: built_def intro: rep_prefix prefix_order.trans)
    moreover have "prefix (tree s) (tree s3)"
      using l(2) r(2) s2(4) by (auto simp: built_def intro: prefix_order.trans)
    ultimately show ?thesis
      using l(2) r(2) s2(4) by (intro exI [of _ ?i] exI [of _ ?s4]) (simp add: built_def)
  qed
  moreover have "\<not> 12 \<le> k" using binary_op.hyps(2) prec_range [of "tok_type t"] by linarith
  ultimately show ?case by simp
qed

text \<open>
  C2: Precedence climbing is complete for the precedence grammar: whenever the upcoming tokens
  start with a way to write the expression \<open>e\<close> and go on with a token that continues no
  expression, \<open>parseExpression(0)\<close> returns, has consumed exactly the tokens of \<open>e\<close>, only appended
  to the tree, and its answer is the root of the tree of \<open>e\<close>: the eleven levels of
  \<open>getPrecedence\<close>, left grouping within a level, prefix operators and parentheses come out as the
  grammar says.
\<close>

theorem parseExpression_grammar:
  assumes "parser_inv s" and "upcoming s = ts @ rest" and "prints 0 e ts"
    and "first_type rest \<notin> set postfix_types" and "getPrecedence (first_type rest) = 0"
    and "length (tree s) + length ts < 2 ^ 32"
  shows "\<exists>i s'. parseExpression 0 s = Some (Inr (i, s')) \<and> upcoming s' = rest \<and>
    rep (tree s') i e \<and> prefix (tree s) (tree s')"
proof -
  have "stops 0 rest" using assms(4,5) by (simp add: stops_def)
  from parse_prints [OF assms(3) parser_inv_window [OF assms(1)] assms(2,6) this]
  obtain i s1 where "parseExpression 0 s = loop (expression_step parseExpression 0) i s1"
      and b: "built s ts rest e i s1"
    by auto
  moreover have "loop (expression_step parseExpression 0) i s1 = Some (Inr (i, s1))"
    using b assms(5) by (intro loop_stops) (simp add: built_def)
  ultimately show ?thesis by (auto simp: built_def)
qed

theorem parseExpression_grammar_witness:
  "\<exists>s i s'. init_parser (init_lexer ''a-b-c*-d;'') ''a-b-c*-d;'' = Some s \<and>
     parseExpression 0 s = Some (Inr (i, s')) \<and> upcoming s' = [mk_token 8 1 Semi] \<and>
     rep (tree s') i (Binary (mk_token 3 1 Minus)
       (Binary (mk_token 1 1 Minus) (Atom (mk_token 0 1 Ident)) (Atom (mk_token 2 1 Ident)))
       (Binary (mk_token 5 1 Star) (Atom (mk_token 4 1 Ident))
         (Prefix (mk_token 6 1 Minus) (Atom (mk_token 7 1 Ident)))))"
proof -
  let ?src = "''a-b-c*-d;''"
  let ?e = "Binary (mk_token 3 1 Minus)
       (Binary (mk_token 1 1 Minus) (Atom (mk_token 0 1 Ident)) (Atom (mk_token 2 1 Ident)))
       (Binary (mk_token 5 1 Star) (Atom (mk_token 4 1 Ident))
         (Prefix (mk_token 6 1 Minus) (Atom (mk_token 7 1 Ident))))"
  let ?ts = "((([mk_token 0 1 Ident] @ mk_token 1 1 Minus # [mk_token 2 1 Ident]) @
      mk_token 3 1 Minus # ([mk_token 4 1 Ident] @ mk_token 5 1 Star # [mk_token 6 1 Minus, mk_token 7 1 Ident])))"
  obtain s where s: "init_parser (init_lexer ?src) ?src = Some s" "parser_ok s"
    using init_parser_ok [of ?src] by auto
  have "map_option (\<lambda>s. (upcoming s, tree s)) (init_parser (init_lexer ?src) ?src) =
      Some (?ts @ [mk_token 8 1 Semi], [])"
    by code_simp
  with s(1) have u: "upcoming s = ?ts @ [mk_token 8 1 Semi]" "tree s = []" by simp_all
  have p: "prints 0 ?e ?ts"
    by (intro prints.intros) (simp_all add: getPrecedence_def atom_types_def prefix_types_def)
  from parseExpression_grammar [OF _ u(1) p] s(2) u(2) obtain i s' where
    "parseExpression 0 s = Some (Inr (i, s'))" "upcoming s' = [mk_token 8 1 Semi]" "rep (tree s') i ?e"
    by (auto simp: parser_ok_def postfix_types_def getPrecedence_def)
  with s(1) show ?thesis by blast
qed

section \<open>What the trees of some programs look like\<close>

text \<open>
  Assignments group to the left: \<open>a = b = c\<close> becomes the assignment of \<open>c\<close> to the node of
  \<open>a = b\<close> (node 3), not of \<open>b = c\<close> to \<open>a\<close>.
\<close>

theorem assignment_groups_left:
  "map_option (map_sum id (\<lambda>ns. (length ns, children (ns ! 3), children (ns ! 5))))
     (parse_source ''a = b = c;'') = Some (Inr (6, [1, 2], [3, 4]))"
  by code_simp

text \<open>
  The increment of a \<open>for\<close> loop is lost: in the tree of \<open>for (;a;b) {}\<close> the node of the
  increment \<open>b\<close> (node 2) is no child of any node; the loop (node 4) refers to its condition, its
  body and its initialisation only.
\<close>

lemma for_increment_lost:
  "map_option (map_sum id (\<lambda>ns. (children (ns ! 4), 2 \<in> set (concat (map children ns)))))
     (parse_source ''for (;a;b) {}'') = Some (Inr ([1, 3, kNullNode], False))"
  by code_simp

text \<open>
  The compound assignments \<open><<=\<close>, \<open>>>=\<close> and \<open>~=\<close> that the lexer reads are not operators of
  the parser: an expression statement that uses one is a syntax error at the operator.
\<close>

theorem shift_assignment_rejected:
  "parse_source ''a <<= b;'' = Some (Inl (SyntaxError
     (''[Line 1, Col 3] Syntax Error at '' @ quoted ''<<='' @ '': Unexpected token in expression'')))"
  by code_simp

end
