(* ===== verification/File_Manager.thy ===== *)
theory File_Manager
  imports Prelude
begin

text \<open>
  \<open>file/file_def.h\<close>, \<open>file/file_manager.h\<close> and \<open>file/file_manager.cpp\<close>: one growing buffer that
  holds every loaded file as its name, a NUL byte and its contents, and the table of their
  places. The file system is a parameter (\<open>None\<close> for a path that cannot be opened). The
  results: loading refines appending to a list of named files, a loaded file is never moved, and
  \<open>pop\<close> undoes a load.
\<close>

section \<open>Places\<close>

record Snippet =
  snip_offset :: u32
  snip_size :: u32

record FileInfo =
  offset_begin :: u32
  name_size :: u32
  file_size :: u32

definition cOffset :: "FileInfo \<Rightarrow> u32" where
  "cOffset f = offset_begin f + name_size f + 1"

definition content :: "FileInfo \<Rightarrow> Snippet" where
  "content f = \<lparr>snip_offset = offset_begin f + name_size f + 1, snip_size = file_size f\<rparr>"

definition content_full :: "FileInfo \<Rightarrow> Snippet" where
  "content_full f = \<lparr>snip_offset = offset_begin f, snip_size = file_size f + name_size f + 1\<rparr>"

definition name :: "FileInfo \<Rightarrow> Snippet" where
  "name f = \<lparr>snip_offset = offset_begin f, snip_size = name_size f\<rparr>"

section \<open>The manager\<close>

text \<open>
  \<open>src_path\<close> is a C string or a null pointer. A C string ends at its first NUL byte, which is
  what \<open>c_str\<close> takes of a byte string.
\<close>

record FileManager =
  src_path :: "string option"
  fdata :: string
  loaded :: "FileInfo list"

definition c_str :: "string \<Rightarrow> string" where
  "c_str p = takeWhile (\<lambda>c. c \<noteq> CHR 0x00) p"

definition NOT_FOUND :: FileInfo where
  "NOT_FOUND = \<lparr>offset_begin = 0, name_size = 0, file_size = 0\<rparr>"

definition EMPTY_SV :: string where
  "EMPTY_SV = replicate 7 (CHR 0xFF)"

definition init_manager :: "string option \<Rightarrow> FileManager" where
  "init_manager base_path = \<lparr>src_path = base_path, fdata = [], loaded = []\<rparr>"

text \<open>Reading, by a place in the buffer, relative to a file or a snippet, or a whole one.\<close>

definition read :: "FileManager \<Rightarrow> u32 \<Rightarrow> u32 \<Rightarrow> string" where
  "read m global_offset n = take (unat n) (drop (unat global_offset) (fdata m))"

definition read_file :: "FileManager \<Rightarrow> FileInfo \<Rightarrow> u32 \<Rightarrow> u32 \<Rightarrow> string" where
  "read_file m f local_offset n = read m (offset_begin f + local_offset) n"

definition read_snippet :: "FileManager \<Rightarrow> Snippet \<Rightarrow> u32 \<Rightarrow> u32 \<Rightarrow> string" where
  "read_snippet m s local_offset n = read m (snip_offset s + local_offset) n"

definition getChar :: "FileManager \<Rightarrow> u32 \<Rightarrow> char" where
  "getChar m global_offset = fdata m ! unat global_offset"

definition getChar_file :: "FileManager \<Rightarrow> FileInfo \<Rightarrow> u32 \<Rightarrow> char" where
  "getChar_file m f local_offset = fdata m ! unat (offset_begin f + local_offset)"

definition getChar_snippet :: "FileManager \<Rightarrow> Snippet \<Rightarrow> u32 \<Rightarrow> char" where
  "getChar_snippet m s local_offset = fdata m ! unat (snip_offset s + local_offset)"

definition snippet_text :: "FileManager \<Rightarrow> Snippet \<Rightarrow> string" where
  "snippet_text m s = read m (snip_offset s) (snip_size s)"

definition file_text :: "FileManager \<Rightarrow> FileInfo \<Rightarrow> string" where
  "file_text m f = snippet_text m (content f)"

definition getName :: "FileManager \<Rightarrow> FileInfo \<Rightarrow> string" where
  "getName m f = take (unat (name_size f)) (drop (unat (offset_begin f)) (fdata m))"

text \<open>The argument of \<open>_findFile\<close> is \<open>None\<close> for a view without data.\<close>

definition findFile :: "FileManager \<Rightarrow> string option \<Rightarrow> FileInfo" where
  "findFile m nm =
     (case nm of
        None \<Rightarrow> NOT_FOUND
      | Some n \<Rightarrow>
          if n = EMPTY_SV then NOT_FOUND
          else (case List.find (\<lambda>i. n = getName m i) (loaded m) of
                  Some i \<Rightarrow> i | None \<Rightarrow> NOT_FOUND))"

definition isLoaded :: "FileManager \<Rightarrow> string option \<Rightarrow> bool" where
  "isLoaded m nm = (findFile m nm \<noteq> NOT_FOUND)"

section \<open>Line ends\<close>

text \<open>
  The pass that rewrites the contents in place: \<open>r\<close> reads, \<open>w\<close> (\<open>sanitized_len\<close>) writes, both
  stay below the length \<open>n\<close>, so their 32 bits do not wrap.
\<close>

abbreviation CR :: char where "CR \<equiv> CHR 0x0D"
abbreviation LF :: char where "LF \<equiv> CHR 0x0A"

function norm_loop :: "string \<Rightarrow> nat \<Rightarrow> nat \<Rightarrow> nat \<Rightarrow> string \<times> nat" where
  "norm_loop dest r w n =
     (if r < n then
        (let ch = dest ! r in
         if ch = CR then
           (let dest = dest[w := LF] in
            if r + 1 < n \<and> dest ! (r + 1) = LF then norm_loop dest (r + 2) (w + 1) n
            else norm_loop dest (r + 1) (w + 1) n)
         else norm_loop (dest[w := ch]) (r + 1) (w + 1) n)
      else (dest, w))"
  by pat_completeness auto
termination
  by (relation "measure (\<lambda>(dest, r, w, n). n - r)") (auto simp: Let_def)

declare norm_loop.simps [simp del]

text \<open>What the pass is for.\<close>

definition skip_LF :: "string \<Rightarrow> string" where
  "skip_LF cs = (if cs \<noteq> [] \<and> hd cs = LF then tl cs else cs)"

lemma length_skip_LF [termination_simp]: "length (skip_LF cs) < Suc (length cs)"
  by (cases cs) (auto simp: skip_LF_def)

fun normalize :: "string \<Rightarrow> string" where
  "normalize [] = []"
| "normalize (c # cs) =
     (if c = CR then LF # normalize (skip_LF cs)
      else c # normalize cs)"

section \<open>Loading\<close>

definition full_path :: "string option \<Rightarrow> string \<Rightarrow> string" where
  "full_path src path =
     (case src of
        None \<Rightarrow> path
      | Some b \<Rightarrow>
          (let b = c_str b in
           if b = [] then path
           else if last b \<noteq> CHR ''/'' \<and> last b \<noteq> CHR 0x5C then b @ ''/'' @ path
           else b @ path))"

text \<open>The bytes that \<open>resize\<close> adds hold any value, \<open>fill\<close>.\<close>

definition loadFile ::
  "char \<Rightarrow> (string \<Rightarrow> string option) \<Rightarrow> string option \<Rightarrow> FileManager \<Rightarrow> FileInfo \<times> FileManager" where
  "loadFile fill fs path m =
     (case path of
        None \<Rightarrow> (NOT_FOUND, m)
      | Some p \<Rightarrow>
          (let name_sv = c_str p;
               existing = findFile m (Some name_sv)
           in if existing \<noteq> NOT_FOUND then (existing, m)
              else (case fs (full_path (src_path m) name_sv) of
                      None \<Rightarrow> (NOT_FOUND, m)
                    | Some file \<Rightarrow>
                        (let name_len = of_nat (length name_sv) :: u32;
                             raw_content_len = of_nat (length file) :: u32;
                             current_offset = of_nat (length (fdata m)) :: u32;
                             max_entry_size = name_len + 1 + raw_content_len;
                             data = vec_resize fill (unat current_offset + unat max_entry_size) (fdata m);
                             data = write_at (unat current_offset) (take (unat name_len) name_sv) data;
                             data = write_at (unat current_offset + unat name_len) [CHR 0x00] data;
                             dest = unat current_offset + unat name_len + 1;
                             data = write_at dest (take (unat raw_content_len) file) data;
                             (body, sanitized) = norm_loop (drop dest data) 0 0 (unat raw_content_len);
                             data = take dest data @ body;
                             sanitized_len = of_nat sanitized :: u32;
                             actual_entry_size = name_len + 1 + sanitized_len;
                             data = vec_resize fill (unat current_offset + unat actual_entry_size) data;
                             info = \<lparr>offset_begin = current_offset, name_size = name_len,
                                     file_size = sanitized_len\<rparr>
                         in (info, m\<lparr>fdata := data, loaded := loaded m @ [info]\<rparr>)))))"

text \<open>The view's data pointer is null for \<open>None\<close>; its length then is 0.\<close>

definition loadFromView ::
  "char \<Rightarrow> string option \<Rightarrow> string option \<Rightarrow> FileManager \<Rightarrow> FileInfo \<times> FileManager" where
  "loadFromView fill view filename m =
     (case filename of
        None \<Rightarrow> (NOT_FOUND, m)
      | Some p \<Rightarrow>
          (let name_sv = c_str p;
               existing = findFile m (Some name_sv)
           in if existing \<noteq> NOT_FOUND then (existing, m)
              else
                (let bytes = (case view of None \<Rightarrow> [] | Some bs \<Rightarrow> bs);
                     name_len = of_nat (length name_sv) :: u32;
                     content_len = of_nat (length bytes) :: u32;
                     current_offset = of_nat (length (fdata m)) :: u32;
                     total_entry_size = name_len + 1 + content_len;
                     data = vec_resize fill (unat current_offset + unat total_entry_size) (fdata m);
                     data = write_at (unat current_offset) (take (unat name_len) name_sv) data;
                     data = write_at (unat current_offset + unat name_len) [CHR 0x00] data;
                     data = (if 0 < content_len \<and> view \<noteq> None
                             then write_at (unat current_offset + unat name_len + 1)
                                    (take (unat content_len) bytes) data
                             else data);
                     info = \<lparr>offset_begin = current_offset, name_size = name_len,
                             file_size = content_len\<rparr>
                 in (info, m\<lparr>fdata := data, loaded := loaded m @ [info]\<rparr>))))"

definition pop :: "char \<Rightarrow> FileManager \<Rightarrow> FileManager" where
  "pop fill m =
     (if loaded m = [] then m
      else (let last_info = last (loaded m)
            in m\<lparr>loaded := butlast (loaded m),
                 fdata := vec_resize fill (unat (offset_begin last_info)) (fdata m)\<rparr>))"

section \<open>Normalization\<close>

lemma take_Suc_update: "w < length xs \<Longrightarrow> take (Suc w) (xs[w := x]) = take w xs @ [x]"
  by (simp add: take_Suc_conv_app_nth)

lemma drop_update: "w < r \<Longrightarrow> drop r (xs[w := x]) = drop r xs"
  by simp

lemma take_drop_Cons:
  "r < n \<Longrightarrow> n \<le> length xs \<Longrightarrow> take (n - r) (drop r xs) = xs ! r # take (n - Suc r) (drop (Suc r) xs)"
  by (simp add: Cons_nth_drop_Suc [of r xs, symmetric] Suc_diff_Suc [of r n, symmetric])

lemma norm_loop_normalize:
  assumes "w \<le> r" and "r \<le> n" and "n \<le> length dest" and "norm_loop dest r w n = (d, k)"
  shows "length d = length dest \<and>
    take k d = take w dest @ normalize (take (n - r) (drop r dest)) \<and>
    k = w + length (normalize (take (n - r) (drop r dest)))"
  using assms
proof (induction dest r w n rule: norm_loop.induct)
  case (1 dest r w n)
  show ?case
  proof (cases "r < n")
    case False
    then have "norm_loop dest r w n = (dest, w)" by (subst norm_loop.simps) simp
    with False "1.prems" show ?thesis by simp
  next
    case r: True
    let ?rest = "take (n - Suc r) (drop (Suc r) dest)"
    have body: "take (n - r) (drop r dest) = dest ! r # ?rest"
      using r "1.prems" by (intro take_drop_Cons) simp_all
    have w: "w < length dest" using r "1.prems" by simp
    show ?thesis
    proof (cases "dest ! r = CR")
      case False
      have eq: "norm_loop dest r w n = norm_loop (dest[w := dest ! r]) (r + 1) (w + 1) n"
        using r False by (simp add: norm_loop.simps [of dest r w n] Let_def)
      show ?thesis
        using "1.prems"(4)[unfolded eq] "1.IH"(3) [OF r refl False] False r "1.prems" w
        by (auto simp: take_Suc_update body)
    next
      case cr: True
      let ?d = "dest[w := LF]"
      show ?thesis
      proof (cases "r + 1 < n \<and> ?d ! (r + 1) = LF")
        case True
        then have nl: "dest ! Suc r = LF" and r1: "Suc r < n" using "1.prems" by simp_all
        have rest: "?rest = LF # take (n - Suc (Suc r)) (drop (Suc (Suc r)) dest)"
          using take_drop_Cons [OF r1 "1.prems"(3)] nl by simp
        have eq: "norm_loop dest r w n = norm_loop ?d (r + 2) (w + 1) n"
          using r cr True by (subst norm_loop.simps) (simp add: Let_def)
        show ?thesis
          using "1.prems"(4)[unfolded eq] "1.IH"(1) [OF r refl cr refl True] cr r1 "1.prems" w
          by (auto simp: take_Suc_update skip_LF_def body rest)
      next
        case False
        have rest: "skip_LF ?rest = ?rest"
        proof (cases "Suc r < n")
          case r1: True
          then have "dest ! Suc r \<noteq> LF" using False "1.prems" by simp
          then show ?thesis using take_drop_Cons [OF r1 "1.prems"(3)] by (simp add: skip_LF_def)
        qed (simp add: skip_LF_def)
        have eq: "norm_loop dest r w n = norm_loop ?d (r + 1) (w + 1) n"
          using r cr False by (subst norm_loop.simps) (auto simp: Let_def)
        show ?thesis
          using "1.prems"(4)[unfolded eq] "1.IH"(2) [OF r refl cr refl False] cr r "1.prems" w rest
          by (auto simp: take_Suc_update body)
      qed
    qed
  qed
qed

lemma length_normalize_le: "length (normalize cs) \<le> length cs"
proof (induction cs rule: normalize.induct)
  case (2 c cs)
  then show ?case using length_skip_LF [of cs] by auto
qed simp

lemma normalize_no_CR: "CR \<notin> set (normalize cs)"
proof (induction cs rule: normalize.induct)
  case (2 c cs)
  then show ?case by auto
qed simp

lemma normalize_id: "CR \<notin> set cs \<Longrightarrow> normalize cs = cs"
  by (induction cs) auto

section \<open>The manager as a list of named files\<close>

definition entry :: "string \<times> string \<Rightarrow> string" where
  "entry f = fst f @ CHR 0x00 # snd f"

definition entries :: "(string \<times> string) list \<Rightarrow> string" where
  "entries files = concat (map entry files)"

definition info_at :: "nat \<Rightarrow> string \<times> string \<Rightarrow> FileInfo" where
  "info_at off f = \<lparr>offset_begin = of_nat off, name_size = of_nat (length (fst f)),
     file_size = of_nat (length (snd f))\<rparr>"

fun layout :: "nat \<Rightarrow> (string \<times> string) list \<Rightarrow> FileInfo list" where
  "layout off [] = []"
| "layout off (f # fs) = info_at off f # layout (off + length (entry f)) fs"

definition represents :: "FileManager \<Rightarrow> (string \<times> string) list \<Rightarrow> bool" where
  "represents m files \<longleftrightarrow> fdata m = entries files \<and> loaded m = layout 0 files \<and>
     length (fdata m) < 2 ^ 32"

lemma entries_simps [simp]:
  "entries [] = []" "entries (f # fs) = entry f @ entries fs" "entries (fs @ gs) = entries fs @ entries gs"
  by (simp_all add: entries_def)

lemma length_entry [simp]: "length (entry f) = length (fst f) + 1 + length (snd f)"
  by (simp add: entry_def)

lemma layout_append:
  "layout off (fs @ gs) = layout off fs @ layout (off + length (entries fs)) gs"
  by (induction fs arbitrary: off) (simp_all add: add.assoc)

lemma length_layout [simp]: "length (layout off fs) = length fs"
  by (induction fs arbitrary: off) simp_all

lemma represents_init: "represents (init_manager p) []"
  by (simp add: represents_def init_manager_def)

lemma layout_nth:
  assumes "files = fs @ f # gs"
  shows "layout 0 files ! length fs = info_at (length (entries fs)) f"
  by (simp add: assms layout_append nth_append)

text \<open>Reading the name and the contents of a represented file.\<close>

lemma read_entry:
  assumes d: "fdata m = entries (fs @ f # gs)" and len: "length (fdata m) < 2 ^ 32"
  shows "getName m (info_at (length (entries fs)) f) = fst f"
    and "file_text m (info_at (length (entries fs)) f) = snd f"
proof -
  let ?off = "length (entries fs)" and ?n = "length (fst f)" and ?c = "length (snd f)"
  have le: "?off + ?n + 1 + ?c < 2 ^ 32" using d len by simp
  then have u: "unat (of_nat ?off :: u32) = ?off" "unat (of_nat ?n :: u32) = ?n" "unat (of_nat ?c :: u32) = ?c"
    by (intro unat_of_nat_lt; simp)+
  have "unat (of_nat ?off + of_nat ?n + 1 :: u32) = unat (of_nat (?off + ?n + 1) :: u32)" by (simp add: ac_simps)
  also have "\<dots> = ?off + ?n + 1" using le by (intro unat_of_nat_lt) simp
  finally have o: "unat (of_nat ?off + of_nat ?n + 1 :: u32) = ?off + ?n + 1" .
  show "getName m (info_at ?off f) = fst f"
    unfolding getName_def info_at_def FileInfo.simps u d by (simp add: entry_def)
  show "file_text m (info_at ?off f) = snd f"
    unfolding file_text_def snippet_text_def read_def content_def info_at_def FileInfo.simps
      Snippet.simps u o d
    by (simp add: entry_def)
qed

lemma represents_read:
  assumes "represents m files" and "j < length files"
  shows "getName m (layout 0 files ! j) = fst (files ! j)"
    and "file_text m (layout 0 files ! j) = snd (files ! j)"
proof -
  have s: "files = take j files @ files ! j # drop (Suc j) files"
    using assms(2) by (simp add: id_take_nth_drop)
  have e: "layout 0 files ! j = info_at (length (entries (take j files))) (files ! j)"
    using layout_nth [OF s] assms(2) by simp
  have d: "fdata m = entries (take j files @ files ! j # drop (Suc j) files)"
    "length (fdata m) < 2 ^ 32"
    using assms(1) s unfolding represents_def by metis+
  show "getName m (layout 0 files ! j) = fst (files ! j)"
    "file_text m (layout 0 files ! j) = snd (files ! j)"
    unfolding e using read_entry [OF d] by blast+
qed

lemma find_map: "List.find P (map f xs) = map_option f (List.find (\<lambda>x. P (f x)) xs)"
  by (induction xs) auto

lemma find_file:
  assumes r: "represents m files" and n: "nm \<noteq> EMPTY_SV"
  shows "findFile m (Some nm) =
    (case List.find (\<lambda>j. fst (files ! j) = nm) [0..<length files] of
       None \<Rightarrow> NOT_FOUND | Some j \<Rightarrow> layout 0 files ! j)"
proof -
  have "List.find (\<lambda>i. nm = getName m i) (layout 0 files) =
      map_option ((!) (layout 0 files)) (List.find (\<lambda>j. nm = getName m (layout 0 files ! j)) [0..<length files])"
    using find_map [of "\<lambda>i. nm = getName m i" "(!) (layout 0 files)" "[0..<length files]"]
      map_nth [of "layout 0 files"] by simp
  also have "List.find (\<lambda>j. nm = getName m (layout 0 files ! j)) [0..<length files] =
      List.find (\<lambda>j. fst (files ! j) = nm) [0..<length files]"
    by (rule find_cong) (auto simp: represents_read(1) [OF r])
  finally show ?thesis
    using n r by (auto simp: findFile_def represents_def split: option.splits)
qed

section \<open>What a load does\<close>

lemma norm_loop_all:
  assumes "norm_loop dest 0 0 (length dest) = (d, k)"
  shows "length d = length dest" and "take k d = normalize dest" and "k = length (normalize dest)"
  using norm_loop_normalize [OF _ _ _ assms] by auto

lemma unat_entry_size:
  assumes "n + 1 + r < 2 ^ 32"
  shows "unat (of_nat n + 1 + of_nat r :: u32) = n + 1 + r"
proof -
  have "of_nat n + 1 + of_nat r = (of_nat (n + 1 + r) :: u32)" by (simp add: ac_simps)
  moreover have "unat (of_nat (n + 1 + r) :: u32) = n + 1 + r"
    by (rule unat_of_nat_lt) (use assms in simp)
  ultimately show ?thesis by (rule ssubst [OF arg_cong [where f = unat]])
qed

lemma write_name:
  "write_at (length xs) n (xs @ replicate (length n + 1 + r) c) = (xs @ n) @ replicate (1 + r) c"
  by (subst write_at_append) (simp_all del: replicate_Suc)

lemma write_nul:
  "write_at (length xs + length n) [z] ((xs @ n) @ replicate (1 + r) c) = (xs @ n @ [z]) @ replicate r c"
  by (subst write_at_append) simp_all

lemma write_body:
  "write_at (length xs + length n + 1) bs ((xs @ n @ [z]) @ replicate (length bs) c) = (xs @ n @ [z]) @ bs"
  by (subst write_at_append) simp_all

lemma loadFile_new:
  assumes nf: "findFile m (Some (c_str p)) = NOT_FOUND"
    and fs: "fs (full_path (src_path m) (c_str p)) = Some bytes"
    and len: "length (fdata m) + length (c_str p) + 1 + length bytes < 2 ^ 32"
  shows "loadFile fill fs (Some p) m =
    (let f = (c_str p, normalize bytes); i = info_at (length (fdata m)) f
     in (i, m\<lparr>fdata := fdata m @ entry f, loaded := loaded m @ [i]\<rparr>))"
proof -
  let ?n = "c_str p"
  let ?L = "length (fdata m)" and ?N = "length (c_str p)" and ?R = "length bytes"
  obtain d k where loop: "norm_loop bytes 0 0 ?R = (d, k)" by (cases "norm_loop bytes 0 0 ?R")
  note nl = norm_loop_all [OF loop]
  have k: "k \<le> ?R" using nl(3) length_normalize_le [of bytes] by simp
  have u: "unat (of_nat ?L :: u32) = ?L" "unat (of_nat ?N :: u32) = ?N" "unat (of_nat ?R :: u32) = ?R"
    using len by (intro unat_of_nat_lt; simp)+
  have sz: "unat (of_nat ?N + 1 + of_nat r :: u32) = ?N + 1 + r" if "r \<le> ?R" for r
    by (rule unat_entry_size) (use len that in simp)
  have r1: "vec_resize fill (?L + (?N + 1 + ?R)) (fdata m) = fdata m @ replicate (?N + 1 + ?R) fill"
    by (simp add: vec_resize_def)
  have r2: "vec_resize fill (?L + (?N + 1 + k)) ((fdata m @ ?n @ [CHR 0x00]) @ d)
      = fdata m @ entry (?n, normalize bytes)"
    using k nl by (simp add: vec_resize_shrink entry_def)
  have tk: "take (?L + ?N + 1) ((fdata m @ ?n @ [CHR 0x00]) @ bytes) = fdata m @ ?n @ [CHR 0x00]"
    "drop (?L + ?N + 1) ((fdata m @ ?n @ [CHR 0x00]) @ bytes) = bytes"
    by simp_all
  show ?thesis
    unfolding loadFile_def Let_def option.case nf fs u sz [OF order_refl] take_all [OF order_refl]
      r1 write_name write_nul write_body tk loop prod.case sz [OF k] r2
    by (simp add: info_at_def nl(3))
qed

lemma loadFromView_new:
  assumes nf: "findFile m (Some (c_str p)) = NOT_FOUND"
    and len: "length (fdata m) + length (c_str p) + 1 + length bytes < 2 ^ 32"
  shows "loadFromView fill (Some bytes) (Some p) m =
    (let f = (c_str p, bytes); i = info_at (length (fdata m)) f
     in (i, m\<lparr>fdata := fdata m @ entry f, loaded := loaded m @ [i]\<rparr>))"
proof -
  let ?L = "length (fdata m)" and ?N = "length (c_str p)" and ?R = "length bytes"
  have u: "unat (of_nat ?L :: u32) = ?L" "unat (of_nat ?N :: u32) = ?N" "unat (of_nat ?R :: u32) = ?R"
    using len by (intro unat_of_nat_lt; simp)+
  have sz: "unat (of_nat ?N + 1 + of_nat ?R :: u32) = ?N + 1 + ?R"
    by (rule unat_entry_size) (use len in simp)
  have r1: "vec_resize fill (?L + (?N + 1 + ?R)) (fdata m) = fdata m @ replicate (?N + 1 + ?R) fill"
    by (simp add: vec_resize_def)
  have w3: "(if 0 < (of_nat ?R :: u32) \<and> Some bytes \<noteq> None
      then write_at (?L + ?N + 1) bytes ((fdata m @ c_str p @ [CHR 0x00]) @ replicate ?R fill)
      else (fdata m @ c_str p @ [CHR 0x00]) @ replicate ?R fill)
    = (fdata m @ c_str p @ [CHR 0x00]) @ bytes"
    unfolding write_body using u(3) by (auto simp: word_gt_0 unat_eq_zero)
  show ?thesis
    unfolding loadFromView_def Let_def option.case nf u sz take_all [OF order_refl]
      r1 write_name write_nul w3
    by (simp add: info_at_def entry_def)
qed

text \<open>The new file is at the end of the represented list and can be read back.\<close>

lemma represents_snoc:
  assumes "represents m files" and "length (fdata m) + length (entry f) < 2 ^ 32"
  shows "represents (m\<lparr>fdata := fdata m @ entry f,
      loaded := loaded m @ [info_at (length (fdata m)) f]\<rparr>) (files @ [f])"
  using assms by (simp add: represents_def layout_append)

lemma layout_not_NOT_FOUND:
  assumes "represents m files" and "j < length files" and "fst (files ! j) \<noteq> []"
  shows "layout 0 files ! j \<noteq> NOT_FOUND"
proof
  assume "layout 0 files ! j = NOT_FOUND"
  then have "getName m (layout 0 files ! j) = []" by (simp add: getName_def NOT_FOUND_def)
  with represents_read(1) [OF assms(1,2)] assms(3) show False by simp
qed

lemma find_new:
  assumes "represents m files" and "nm \<notin> fst ` set files" and "nm \<noteq> EMPTY_SV"
  shows "findFile m (Some nm) = NOT_FOUND"
proof -
  have "List.find (\<lambda>j. fst (files ! j) = nm) [0..<length files] = None"
    using assms(2) by (auto simp: find_None_iff)
  then show ?thesis using find_file [OF assms(1,3)] by simp
qed

lemma find_old:
  assumes "represents m files" and "nm \<in> fst ` set files" and "nm \<noteq> EMPTY_SV"
  obtains j where "j < length files" and "fst (files ! j) = nm" and "\<forall>k < j. fst (files ! k) \<noteq> nm"
    and "findFile m (Some nm) = layout 0 files ! j"
proof -
  obtain k where k: "k < length files" "fst (files ! k) = nm"
    using assms(2) by (auto simp: in_set_conv_nth)
  then have "List.find (\<lambda>j. fst (files ! j) = nm) [0..<length files] \<noteq> None"
    by (auto simp: find_None_iff)
  then obtain j where j: "List.find (\<lambda>j. fst (files ! j) = nm) [0..<length files] = Some j" by blast
  then have "j < length files \<and> fst (files ! j) = nm \<and> (\<forall>k < j. fst (files ! k) \<noteq> nm)"
    by (auto simp: find_Some_iff)
  moreover have "findFile m (Some nm) = layout 0 files ! j"
    using find_file [OF assms(1,3)] j by simp
  ultimately show thesis using that by blast
qed

section \<open>The results\<close>

text \<open>
  C15: Loading a file that is not loaded yet refines appending it, with its line ends
  normalized, to the list of named files that the manager represents; the place returned gives
  back the name and the contents, and the file counts as loaded from then on.
\<close>

theorem loadFile_refines:
  assumes "represents m files" and "c_str p \<noteq> []" and "c_str p \<noteq> EMPTY_SV"
    and "c_str p \<notin> fst ` set files"
    and "fs (full_path (src_path m) (c_str p)) = Some bytes"
    and "length (fdata m) + length (c_str p) + 1 + length bytes < 2 ^ 32"
  shows "\<exists>i m'. loadFile fill fs (Some p) m = (i, m') \<and>
    represents m' (files @ [(c_str p, normalize bytes)]) \<and>
    getName m' i = c_str p \<and> file_text m' i = normalize bytes \<and> isLoaded m' (Some (c_str p))"
proof -
  define f where "f = (c_str p, normalize bytes)"
  define i where "i = info_at (length (fdata m)) f"
  define m' where "m' = m\<lparr>fdata := fdata m @ entry f, loaded := loaded m @ [i]\<rparr>"
  have l: "loadFile fill fs (Some p) m = (i, m')"
    using loadFile_new [of m p fs bytes fill] find_new [OF assms(1,4,3)] assms(5,6)
    by (simp add: f_def i_def m'_def Let_def)
  have r: "represents m' (files @ [f])"
    unfolding m'_def i_def
    by (rule represents_snoc) (use assms(1,6) length_normalize_le [of bytes] in \<open>simp_all add: f_def\<close>)
  have "layout 0 (files @ [f]) ! length files = i"
    using assms(1) by (simp add: layout_append nth_append i_def represents_def)
  then have i: "getName m' i = fst f" "file_text m' i = snd f"
    using represents_read [OF r, of "length files"] by simp_all
  have "fst f \<in> fst ` set (files @ [f])" by simp
  then obtain j where j: "j < length (files @ [f])" "fst ((files @ [f]) ! j) = fst f"
    "findFile m' (Some (fst f)) = layout 0 (files @ [f]) ! j"
    using find_old [OF r] assms(3) by (metis f_def fst_conv)
  have "isLoaded m' (Some (c_str p))"
    using layout_not_NOT_FOUND [OF r j(1)] j assms(2) by (simp add: isLoaded_def f_def)
  with l r i show ?thesis by (auto simp: f_def)
qed

theorem loadFile_refines_witness:
  "\<exists>i m'. loadFile CHR ''x'' (\<lambda>q. if q = ''d/a'' then Some (''u'' @ [CR, LF, CR] @ ''v'') else None)
      (Some ''a'') (init_manager (Some ''d'')) = (i, m') \<and>
    represents m' [(''a'', normalize (''u'' @ [CR, LF, CR] @ ''v''))] \<and>
    getName m' i = ''a'' \<and> file_text m' i = ''u'' @ [LF, LF] @ ''v''"
proof -
  have "normalize (''u'' @ [CR, LF, CR] @ ''v'') = ''u'' @ [LF, LF] @ ''v''" by (simp add: skip_LF_def)
  moreover have "c_str ''a'' = ''a''" "''a'' \<noteq> EMPTY_SV" "full_path (Some ''d'') ''a'' = ''d/a''"
    by (simp_all add: c_str_def EMPTY_SV_def full_path_def Let_def numeral_eq_Suc)
  ultimately show ?thesis
    using loadFile_refines [OF represents_init [of "Some ''d''"], of "''a''"
        "\<lambda>q. if q = ''d/a'' then Some (''u'' @ [CR, LF, CR] @ ''v'') else None"
        "''u'' @ [CR, LF, CR] @ ''v''" "CHR ''x''"]
    by (auto simp: init_manager_def)
qed

text \<open>
  A file is stored once: asked for a name that is loaded, both loaders answer with the place
  of the first file of that name, whatever the file system or the view hold now, and leave the
  manager as it is.
\<close>

lemma load_again:
  assumes "represents m files" and "c_str p \<noteq> []" and "c_str p \<noteq> EMPTY_SV"
    and "c_str p \<in> fst ` set files"
  shows "\<exists>j < length files. fst (files ! j) = c_str p \<and> (\<forall>k < j. fst (files ! k) \<noteq> c_str p) \<and>
    (\<forall>fill fs view. loadFile fill fs (Some p) m = (loaded m ! j, m) \<and>
                 loadFromView fill view (Some p) m = (loaded m ! j, m)) \<and>
    file_text m (loaded m ! j) = snd (files ! j)"
proof -
  obtain j where j: "j < length files" "fst (files ! j) = c_str p"
      "\<forall>k < j. fst (files ! k) \<noteq> c_str p" "findFile m (Some (c_str p)) = layout 0 files ! j"
    using find_old [OF assms(1,4,3)] by blast
  have "layout 0 files ! j \<noteq> NOT_FOUND"
    using layout_not_NOT_FOUND [OF assms(1) j(1)] j(2) assms(2) by simp
  moreover have "loaded m = layout 0 files" using assms(1) by (simp add: represents_def)
  ultimately show ?thesis
    using j represents_read(2) [OF assms(1) j(1)]
    by (intro exI [of _ j]) (simp add: loadFile_def loadFromView_def)
qed

text \<open>
  C16: \<open>pop\<close> undoes a load: after a file or a view of a new name is loaded, \<open>pop\<close> restores the
  buffer and the table to what they were.
\<close>

theorem pop_undoes_load:
  assumes "findFile m (Some (c_str p)) = NOT_FOUND"
    and "length (fdata m) + length (c_str p) + 1 + length bytes < 2 ^ 32"
  shows "pop fill (snd (loadFromView fill (Some bytes) (Some p) m)) = m \<and>
    (fs (full_path (src_path m) (c_str p)) = Some bytes \<longrightarrow>
      pop fill (snd (loadFile fill fs (Some p) m)) = m)"
proof -
  have o: "unat (of_nat (length (fdata m)) :: u32) = length (fdata m)"
    by (rule unat_of_nat_lt) (use assms(2) in simp)
  show ?thesis
    using assms loadFromView_new [of m p bytes fill] loadFile_new [of m p fs bytes fill]
    by (auto simp: pop_def Let_def info_at_def o vec_resize_shrink)
qed

definition example_manager :: FileManager where
  "example_manager = \<lparr>src_path = None, fdata = ''a'' @ CHR 0x00 # ''xy'',
     loaded = [\<lparr>offset_begin = 0, name_size = 1, file_size = 2\<rparr>]\<rparr>"

lemma represents_example: "represents example_manager [(''a'', ''xy'')]"
  by (simp add: example_manager_def represents_def info_at_def entry_def)

theorem pop_undoes_load_witness:
  "pop CHR ''x'' (snd (loadFromView CHR ''x'' (Some ''int'') (Some ''a'') (init_manager None))) = init_manager None"
  using pop_undoes_load [of "init_manager None" "''a''" "''int''" "CHR ''x''" "\<lambda>_. None"]
  by (simp add: init_manager_def c_str_def findFile_def)



text \<open>
  C18: The pass over the contents in one buffer, with its two indices, computes the
  recursive \<open>normalize\<close>: \<open>CR LF\<close> and a lone \<open>CR\<close> become one \<open>LF\<close>, every other byte is kept in
  order, no \<open>CR\<close> is left, the result is not longer, and a second pass changes nothing.
\<close>

theorem normalization_in_place:
  "(let (d, k) = norm_loop bytes 0 0 (length bytes) in
     take k d = normalize bytes \<and> k \<le> length bytes \<and> length d = length bytes \<and>
     CR \<notin> set (take k d) \<and> normalize (take k d) = take k d)"
proof -
  obtain d k where l: "norm_loop bytes 0 0 (length bytes) = (d, k)"
    by (cases "norm_loop bytes 0 0 (length bytes)")
  then show ?thesis
    using norm_loop_all [OF l] length_normalize_le [of bytes] normalize_no_CR [of bytes]
    by (simp add: normalize_id)
qed

text \<open>
  The first file of the manager, when its name and its contents are empty, has the place
  that stands for "not found": loading it succeeds but answers \<open>NOT_FOUND\<close>, \<open>isLoaded\<close> denies it,
  and every further load stores it once more.
\<close>

theorem empty_file_not_found:
  "loadFromView fill (Some []) (Some []) (init_manager base)
     = (NOT_FOUND, \<lparr>src_path = base, fdata = [CHR 0x00], loaded = [NOT_FOUND]\<rparr>) \<and>
   \<not> isLoaded \<lparr>src_path = base, fdata = [CHR 0x00], loaded = [NOT_FOUND]\<rparr> (Some []) \<and>
   length (loaded (snd (loadFromView fill (Some []) (Some [])
      \<lparr>src_path = base, fdata = [CHR 0x00], loaded = [NOT_FOUND]\<rparr>))) = 2"
  by (simp add: loadFromView_def init_manager_def c_str_def findFile_def NOT_FOUND_def isLoaded_def
      EMPTY_SV_def vec_resize_def write_at_def getName_def Let_def)

end
