(* ===== verification/Preproc_Token.thy ===== *)
theory Preproc_Token
  imports Common_Def
begin

text \<open>
  \<open>preproc/preproc_token.h\<close>: the kinds of directives, the recognition of a directive by the
  hash of its text (the hash alone: the text is not compared), and the packing of a macro name
  into 64 bits. The results: every directive is recognized as its own kind, and two names
  pack to the same word exactly if they agree in their first ten characters and their capped length.
\<close>

section \<open>Directives\<close>

datatype MacroType =
  M_None | M_Unknown | M_Define | M_Define_M | M_Include | M_If | M_Ifndef | M_Else | M_Elif
  | M_Endif | M_Enddef | M_Skip | M_Import | M_Param

text \<open>The \<open>case\<close> labels, in the order of the source.\<close>

definition directive_labels :: "(string \<times> MacroType) list" where
  "directive_labels =
    [(''#define'', M_Define), (''#define_m'', M_Define_M), (''#if'', M_If), (''#ifndef'', M_Ifndef),
     (''#else'', M_Else), (''#elif'', M_Elif), (''#endif'', M_Endif), (''#enddef'', M_Enddef),
     (''#include'', M_Include), (''#skip'', M_Skip), (''#import'', M_Import), (''#param'', M_Param)]"

definition macro_hash_match :: "string \<Rightarrow> MacroType" where
  "macro_hash_match token =
     (case List.find (\<lambda>l. hash_directive (fst l) = hash_directive token) directive_labels of
        Some l \<Rightarrow> snd l
      | None \<Rightarrow> M_Unknown)"

section \<open>Packed names\<close>

definition char_to_6bit :: "char \<Rightarrow> u64" where
  "char_to_6bit c = ucast (IDENT_CHAR_LUT ! of_char c)"

text \<open>Lengths are \<open>size_t\<close>; the extra length is at most 14, so nothing wraps.\<close>

definition macro_name_pack :: "string \<Rightarrow> u64" where
  "macro_name_pack name =
     (let l_of = 15 + 10 \<le> length name;
          toPack = (if length name < 10 then length name else 10);
          packed_v = (if l_of then push_bit 60 15 else push_bit 60 (of_nat (length name - toPack)))
      in fold (\<lambda>i packed_v. packed_v OR push_bit (6 * i) (char_to_6bit (name ! i))) [0..<toPack] packed_v)"

definition check_packing :: "u64 \<Rightarrow> string \<Rightarrow> u8" where
  "check_packing name_h test =
     (if macro_name_pack test = name_h then 3
      else if drop_bit 60 name_h + 10 = of_nat (length test) then 1
      else 0)"

text \<open>
  \<open>possible_match\<close> has no return statement after its first line: reaching the end is undefined
  behaviour, \<open>None\<close> here.
\<close>

definition possible_match :: "u64 \<Rightarrow> u64 \<Rightarrow> bool option" where
  "possible_match name_h test_h = (if name_h = test_h then Some True else None)"

definition POffsetMax :: "32 word" where "POffsetMax = - 1"
definition PCursorMax :: "32 word" where "PCursorMax = - 1"
definition PLengthMax :: "32 word" where "PLengthMax = - 1"

section \<open>Recognition\<close>

definition directive_hashes :: "u64 list" where
  "directive_hashes = map (\<lambda>l. hash_directive (fst l)) directive_labels"

lemma distinct_directive_hashes: "distinct (map (\<lambda>l. hash_directive (fst l)) directive_labels)"
proof -
  have "distinct (map uint (map (\<lambda>l. hash_directive (fst l)) directive_labels))"
    by (simp add: directive_labels_def hash_directive_def fnv_step_def char_to_u64_def)
  then show ?thesis by (simp only: distinct_map)
qed

lemma macro_hash_match_label:
  assumes "(s, t) \<in> set directive_labels"
  shows "macro_hash_match s = t"
  using find_Some_distinct [OF distinct_directive_hashes assms] by (simp add: macro_hash_match_def)

lemma macro_hash_match_simps [simp]:
  "macro_hash_match ''#define'' = M_Define" "macro_hash_match ''#define_m'' = M_Define_M"
  "macro_hash_match ''#if'' = M_If" "macro_hash_match ''#ifndef'' = M_Ifndef"
  "macro_hash_match ''#else'' = M_Else" "macro_hash_match ''#elif'' = M_Elif"
  "macro_hash_match ''#endif'' = M_Endif" "macro_hash_match ''#enddef'' = M_Enddef"
  "macro_hash_match ''#include'' = M_Include" "macro_hash_match ''#skip'' = M_Skip"
  "macro_hash_match ''#import'' = M_Import" "macro_hash_match ''#param'' = M_Param"
  by (rule macro_hash_match_label; simp add: directive_labels_def)+

text \<open>
  Evaluation looks a directive up by its text first; only a text that is no directive
  needs its hash.
\<close>

lemma macro_hash_match_code [code]:
  "macro_hash_match token =
     (case List.find (\<lambda>l. fst l = token) directive_labels of
        Some l \<Rightarrow> snd l
      | None \<Rightarrow> (case List.find (\<lambda>l. hash_directive (fst l) = hash_directive token) directive_labels of
                  Some l \<Rightarrow> snd l | None \<Rightarrow> M_Unknown))"
proof (cases "List.find (\<lambda>l. fst l = token) directive_labels")
  case None
  then show ?thesis by (simp add: macro_hash_match_def)
next
  case (Some l)
  then have "l \<in> set directive_labels" and "fst l = token" by (auto simp: find_Some_iff)
  with Some show ?thesis using macro_hash_match_label [of token "snd l"] by (cases l) auto
qed

section \<open>Packing\<close>

text \<open>The value of a name is defined by its extra length and the codes of its first ten characters.\<close>

definition extra_length :: "string \<Rightarrow> nat" where
  "extra_length name = (if 25 \<le> length name then 15 else length name - 10)"

lemma extra_length_less: "extra_length name < 16"
  by (auto simp: extra_length_def)

lemma macro_name_pack_fold:
  "macro_name_pack name =
     fold (\<lambda>i v. v OR push_bit (6 * i) (char_to_6bit (name ! i))) [0..<length (take 10 name)]
       (push_bit 60 (of_nat (extra_length name)))"
  by (auto simp: macro_name_pack_def extra_length_def min_def Let_def)

lemma bit_fold_or:
  "bit (fold (\<lambda>i v. v OR push_bit (6 * i) (g i)) [0..<k] (v :: u64)) n \<longleftrightarrow>
     bit v n \<or> (\<exists>i < k. bit (push_bit (6 * i) (g i)) n)"
  by (induction k) (auto simp: bit_or_iff less_Suc_eq)

lemma bit_char_to_6bit: "bit (char_to_6bit c) n \<Longrightarrow> n < 6"
proof (rule ccontr)
  assume b: "bit (char_to_6bit c) n" and n: "\<not> n < 6"
  have c: "of_char c < (256 :: nat)" by simp
  have "bit (IDENT_CHAR_LUT ! of_char c) n" using b by (simp add: char_to_6bit_def bit_simps)
  then have "bit (unat (ident_6bit (of_char c))) n"
    by (simp add: IDENT_CHAR_LUT_nth [OF c] bit_unsigned_iff bit_imp_le_length)
  moreover have "take_bit 6 (unat (ident_6bit (of_char c))) = unat (ident_6bit (of_char c))"
    using ident_6bit_nat_less by (simp add: unat_ident_6bit take_bit_nat_eq_self)
  ultimately show False using n by (metis bit_take_bit_iff)
qed

lemma bit_pack_low:
  assumes "i < 10" and "j < 6"
  shows "bit (macro_name_pack name) (6 * i + j) \<longleftrightarrow> i < length name \<and> bit (char_to_6bit (name ! i)) j"
proof -
  have "bit (push_bit (6 * i') (char_to_6bit (name ! i'))) (6 * i + j) \<longleftrightarrow>
      i' = i \<and> bit (char_to_6bit (name ! i)) j" for i'
  proof (cases "i' = i")
    case True
    then show ?thesis using assms by (simp add: bit_simps)
  next
    case False
    have "\<not> (6 * i' \<le> 6 * i + j \<and> 6 * i + j - 6 * i' < 6)" using False assms(2) by arith
    then show ?thesis using False bit_char_to_6bit by (auto simp: bit_simps)
  qed
  moreover have "\<not> bit (push_bit 60 (of_nat (extra_length name)) :: u64) (6 * i + j)"
    using assms by (auto simp: bit_simps)
  ultimately show ?thesis using assms(1) by (auto simp: macro_name_pack_fold bit_fold_or)
qed

lemma bit_pack_high:
  assumes "j < 4"
  shows "bit (macro_name_pack name) (60 + j) \<longleftrightarrow> bit (extra_length name) j"
proof -
  have "\<not> bit (push_bit (6 * i) (char_to_6bit (name ! i))) (60 + j)" if "i < 10" for i
    using that bit_char_to_6bit [of "name ! i" "60 + j - 6 * i"] by (auto simp: bit_simps)
  moreover have "bit (push_bit 60 (of_nat (extra_length name)) :: u64) (60 + j) \<longleftrightarrow> bit (extra_length name) j"
    using assms by (auto simp: bit_simps)
  ultimately show ?thesis by (auto simp: macro_name_pack_fold bit_fold_or)
qed

lemma u64_pack_eqI:
  fixes v w :: u64
  assumes "\<And>i j. i < 10 \<Longrightarrow> j < 6 \<Longrightarrow> bit v (6 * i + j) = bit w (6 * i + j)"
    and "\<And>j. j < 4 \<Longrightarrow> bit v (60 + j) = bit w (60 + j)"
  shows "v = w"
proof (rule bit_word_eqI)
  fix n
  assume n: "n < LENGTH(64)"
  show "bit v n = bit w n"
  proof (cases "n < 60")
    case True
    then have "bit v (6 * (n div 6) + n mod 6) = bit w (6 * (n div 6) + n mod 6)"
      by (intro assms(1)) (simp_all add: div_less_iff_less_mult)
    then show ?thesis by simp
  next
    case False
    then have "bit v (60 + (n - 60)) = bit w (60 + (n - 60))"
      using n by (intro assms(2)) simp
    then show ?thesis using False by simp
  qed
qed

lemma pack_eqI:
  assumes "take 10 a = take 10 b" and "extra_length a = extra_length b"
  shows "macro_name_pack a = macro_name_pack b"
proof (rule u64_pack_eqI)
  fix i j :: nat
  assume "i < 10" "j < 6"
  have "i < length a \<longleftrightarrow> i < length (take 10 a)" "i < length b \<longleftrightarrow> i < length (take 10 b)"
    using \<open>i < 10\<close> by simp_all
  moreover have "take 10 a ! i = a ! i" "take 10 b ! i = b ! i"
    using \<open>i < 10\<close> by simp_all
  ultimately show "bit (macro_name_pack a) (6 * i + j) = bit (macro_name_pack b) (6 * i + j)"
    using assms(1) \<open>i < 10\<close> \<open>j < 6\<close> by (metis bit_pack_low)
next
  fix j :: nat
  assume "j < 4"
  then show "bit (macro_name_pack a) (60 + j) = bit (macro_name_pack b) (60 + j)"
    using assms(2) by (simp only: bit_pack_high)
qed

lemma pack_codes:
  assumes "macro_name_pack a = macro_name_pack b" and "i < 10"
  shows "(if i < length a then char_to_6bit (a ! i) else 0) = (if i < length b then char_to_6bit (b ! i) else 0)"
proof (rule bit_word_eqI)
  fix n
  assume "n < LENGTH(64)"
  show "bit (if i < length a then char_to_6bit (a ! i) else 0) n
      = bit (if i < length b then char_to_6bit (b ! i) else 0) n"
  proof (cases "n < 6")
    case True
    then show ?thesis
      using bit_pack_low [OF assms(2) True, of a] bit_pack_low [OF assms(2) True, of b] assms(1)
      by auto
  next
    case False
    then have "\<not> bit (char_to_6bit c) n" for c using bit_char_to_6bit by blast
    then show ?thesis by simp
  qed
qed

lemma pack_extra:
  assumes "macro_name_pack a = macro_name_pack b"
  shows "extra_length a = extra_length b"
proof (rule bit_eqI)
  fix n
  have t: "take_bit 4 (extra_length c) = extra_length c" for c
    using extra_length_less [of c] by (simp add: take_bit_nat_eq_self)
  show "bit (extra_length a) n = bit (extra_length b) n"
  proof (cases "n < 4")
    case True
    then show ?thesis using bit_pack_high [OF True, of a] bit_pack_high [OF True, of b] assms by simp
  next
    case False
    then show ?thesis using t [of a] t [of b] by (metis bit_take_bit_iff)
  qed
qed

lemma unat_char_to_6bit: "unat (char_to_6bit c) = ident_6bit_nat (of_char c)"
proof -
  have "unat (ident_6bit (of_char c)) < 2 ^ LENGTH(64)"
    using ident_6bit_nat_less [of "of_char c"] by (simp add: unat_ident_6bit)
  then show ?thesis
    by (simp only: char_to_6bit_def IDENT_CHAR_LUT_nth [OF nat_of_char_less_256] unat_ucast_lt unat_ident_6bit)
qed

lemma char_to_6bit_nonzero: "char_to_6bit c \<noteq> 0 \<longleftrightarrow> IS_IDENT_CHAR c"
  using ident_6bit_nat_pos [of "of_char c"] unat_char_to_6bit [of c]
  by (auto simp: IS_IDENT_CHAR_conv ident_6bit_nonzero unat_eq_zero)

lemma char_to_6bit_inj:
  assumes "IS_IDENT_CHAR c" and "IS_IDENT_CHAR d" and "char_to_6bit c = char_to_6bit d"
  shows "c = d"
proof -
  have "ident_byte (of_char c)" "ident_byte (of_char d)"
    using assms(1,2) by (simp_all only: IS_IDENT_CHAR_conv ident_6bit_nonzero)
  moreover have "ident_6bit_nat (of_char c) = ident_6bit_nat (of_char d)"
    by (metis assms(3) unat_char_to_6bit)
  ultimately have "(of_char c :: nat) = of_char d" by (rule ident_6bit_nat_inj)
  then show ?thesis by simp
qed

lemma pack_take:
  assumes "macro_name_pack a = macro_name_pack b"
    and "\<forall>c \<in> set a. IS_IDENT_CHAR c" and "\<forall>c \<in> set b. IS_IDENT_CHAR c"
  shows "take 10 a = take 10 b"
proof -
  have same: "i < length a \<longleftrightarrow> i < length b" if "i < 10" for i
    using pack_codes [OF assms(1) that] assms(2,3) char_to_6bit_nonzero nth_mem by metis
  have len: "length (take 10 a) = length (take 10 b)"
  proof (rule ccontr)
    assume "length (take 10 a) \<noteq> length (take 10 b)"
    then have "length a < 10 \<and> length a < length b \<or> length b < 10 \<and> length b < length a" by auto
    then show False using same by blast
  qed
  show ?thesis
  proof (rule nth_equalityI [OF len])
    fix i
    assume "i < length (take 10 a)"
    then have "i < 10" "i < length a" "i < length b" using len by auto
    then show "take 10 a ! i = take 10 b ! i"
      using pack_codes [OF assms(1) \<open>i < 10\<close>] assms(2,3) char_to_6bit_inj by simp
  qed
qed

lemma take_extra_length:
  assumes "take 10 a = take 10 b"
  shows "extra_length a = extra_length b \<longleftrightarrow> min 25 (length a) = min 25 (length b)"
proof -
  have "min 10 (length a) = min 10 (length b)"
    using arg_cong [OF assms, of length] by (simp add: min.commute)
  then show ?thesis by (auto simp: extra_length_def min_def split: if_splits)
qed

text \<open>
  Two identifiers are packed into the same 64 bits exactly if they agree in their first
  ten characters and in their length capped at 25: on names of at most ten characters the packing
  loses nothing.
\<close>

lemma macro_name_pack_identifiers:
  assumes "\<forall>c \<in> set a. IS_IDENT_CHAR c" and "\<forall>c \<in> set b. IS_IDENT_CHAR c"
  shows "macro_name_pack a = macro_name_pack b \<longleftrightarrow>
    take 10 a = take 10 b \<and> min 25 (length a) = min 25 (length b)"
  using pack_take [OF _ assms] pack_extra [of a b] pack_eqI [of a b] take_extra_length [of a b] by blast

text \<open>
  Each of the twelve directives is recognized as its own kind although only hashes are
  compared, and any other text is unknown unless its hash is the hash of a directive.
\<close>

lemma macro_hash_match_directives:
  "(\<forall>(s, t) \<in> set directive_labels. macro_hash_match s = t) \<and>
   (macro_hash_match token \<noteq> M_Unknown \<longrightarrow>
      (\<exists>(s, t) \<in> set directive_labels. hash_directive s = hash_directive token \<and> macro_hash_match token = t))"
proof -
  have "\<exists>l \<in> set directive_labels. hash_directive (fst l) = hash_directive token \<and> macro_hash_match token = snd l"
    if "macro_hash_match token \<noteq> M_Unknown"
  proof -
    from that obtain l where "List.find (\<lambda>l. hash_directive (fst l) = hash_directive token) directive_labels = Some l"
      "macro_hash_match token = snd l"
      by (auto simp: macro_hash_match_def split: option.splits)
    then show ?thesis by (metis (mono_tags, lifting) find_Some_iff nth_mem)
  qed
  then show ?thesis using macro_hash_match_label by fastforce
qed

end
