(* ===== verification/Preprocessor.thy ===== *)
theory Preprocessor
  imports File_Manager Preproc_Token
begin

text \<open>
  \<open>preproc/preprocessor.h\<close> and \<open>preproc/preprocessor.cpp\<close>: the preprocessor works on a stack of
  source frames (a file's contents and a cursor), the defined macros, the flags of the open
  conditional branches and the output. The vectors \<open>inputStack\<close> and \<open>branchFlags\<close> are
  lists with their back element first. Logging is left out. \<open>evalCondition\<close> and \<open>process\<close>
  are partial functions: \<open>None\<close> stands for a call that does not return. Cursors are 32-bit words.
\<close>

section \<open>State\<close>

datatype PreprocLogLevel = Log_Off | Log_Summary | Log_Events | Log_Trace

definition SNIPPET_SENT :: Snippet where
  "SNIPPET_SENT = \<lparr>snip_offset = POffsetMax, snip_size = PLengthMax\<rparr>"

record SourceFrame =
  frame_content :: Snippet
  frame_cursor :: u32

record Defined =
  def_content :: Snippet
  def_t :: MacroType
  def_flags :: u16

record Preprocessor =
  file_mgr :: FileManager
  sourceFile :: FileInfo
  out_cursor :: u64
  output_buffer :: string
  log_level :: PreprocLogLevel
  inputStack :: "SourceFrame list"
  storedMacros :: "string \<Rightarrow> Defined option"
  branchFlags :: "u8 list"
  currActive :: MacroType

definition ACTIVE :: u8 where "ACTIVE = 1"
definition EVER_TAKEN :: u8 where "EVER_TAKEN = 2"

definition default_Defined :: Defined where
  "default_Defined = \<lparr>def_content = \<lparr>snip_offset = 0, snip_size = 0\<rparr>, def_t = M_None, def_flags = 1\<rparr>"

definition init_preprocessor_info :: "string option \<Rightarrow> FileInfo \<Rightarrow> PreprocLogLevel \<Rightarrow> Preprocessor" where
  "init_preprocessor_info base_path srcFile lvl =
     \<lparr>file_mgr = init_manager base_path, sourceFile = srcFile, out_cursor = 0, output_buffer = [],
      log_level = lvl, inputStack = [\<lparr>frame_content = content srcFile, frame_cursor = 0\<rparr>],
      storedMacros = Map.empty, branchFlags = [], currActive = M_None\<rparr>"

definition init_preprocessor ::
  "char \<Rightarrow> (string \<Rightarrow> string option) \<Rightarrow> string option \<Rightarrow> string option \<Rightarrow> PreprocLogLevel \<Rightarrow> Preprocessor" where
  "init_preprocessor fill fs base_path file_path lvl =
     (let (srcFile, m) = loadFile fill fs file_path (init_manager base_path)
      in (init_preprocessor_info base_path srcFile lvl)\<lparr>file_mgr := m\<rparr>)"

definition setLogLevel :: "PreprocLogLevel \<Rightarrow> Preprocessor \<Rightarrow> Preprocessor" where
  "setLogLevel lvl P = P\<lparr>log_level := lvl\<rparr>"

definition get_result :: "Preprocessor \<Rightarrow> string" where
  "get_result P = output_buffer P"

definition loadView ::
  "char \<Rightarrow> (string \<Rightarrow> string option) \<Rightarrow> string \<Rightarrow> Preprocessor \<Rightarrow> Snippet \<times> Preprocessor" where
  "loadView fill fs pathrel P =
     (let (info, m) = loadFile fill fs (Some pathrel) (file_mgr P)
      in (content info, P\<lparr>file_mgr := m\<rparr>))"

section \<open>The top frame\<close>

definition cursor :: "Preprocessor \<Rightarrow> u32" where
  "cursor P = frame_cursor (hd (inputStack P))"

definition set_cursor :: "u32 \<Rightarrow> Preprocessor \<Rightarrow> Preprocessor" where
  "set_cursor c P = P\<lparr>inputStack := (hd (inputStack P))\<lparr>frame_cursor := c\<rparr> # tl (inputStack P)\<rparr>"

definition sourceContent :: "Preprocessor \<Rightarrow> Snippet" where
  "sourceContent P = frame_content (hd (inputStack P))"

abbreviation ssize :: "Preprocessor \<Rightarrow> u32" where
  "ssize P \<equiv> snip_size (sourceContent P)"

definition at_end :: "Preprocessor \<Rightarrow> bool" where
  "at_end P = (ssize P \<le> cursor P)"

definition forward :: "u32 \<Rightarrow> Preprocessor \<Rightarrow> Snippet" where
  "forward n P = \<lparr>snip_offset = cursor P + snip_offset (sourceContent P), snip_size = n\<rparr>"

definition backward :: "u32 \<Rightarrow> Preprocessor \<Rightarrow> Snippet" where
  "backward n P = \<lparr>snip_offset = snip_offset (sourceContent P) + cursor P - n, snip_size = n\<rparr>"

definition to_cursor :: "u32 \<Rightarrow> Preprocessor \<Rightarrow> Snippet" where
  "to_cursor end_cursor P =
     \<lparr>snip_offset = snip_offset (sourceContent P) + cursor P, snip_size = end_cursor - cursor P\<rparr>"

definition from_cursor :: "u32 \<Rightarrow> Preprocessor \<Rightarrow> Snippet" where
  "from_cursor start_cursor P =
     \<lparr>snip_offset = snip_offset (sourceContent P) + start_cursor, snip_size = cursor P - start_cursor\<rparr>"

definition toAbs :: "u32 \<Rightarrow> Preprocessor \<Rightarrow> Snippet" where
  "toAbs end_pos P =
     \<lparr>snip_offset = snip_offset (sourceContent P) + cursor P,
      snip_size = end_pos - cursor P - snip_offset (sourceContent P)\<rparr>"

definition fromAbs :: "u32 \<Rightarrow> Preprocessor \<Rightarrow> Snippet" where
  "fromAbs start_pos P =
     \<lparr>snip_offset = start_pos, snip_size = snip_offset (sourceContent P) + cursor P - start_pos\<rparr>"

definition currChar :: "Preprocessor \<Rightarrow> char" where
  "currChar P = getChar_snippet (file_mgr P) (sourceContent P) (cursor P)"

definition nextChar :: "Preprocessor \<Rightarrow> char" where
  "nextChar P = getChar_snippet (file_mgr P) (sourceContent P) (cursor P + 1)"

definition text_of :: "Preprocessor \<Rightarrow> Snippet \<Rightarrow> string" where
  "text_of P s = snippet_text (file_mgr P) s"

lemma word_below:
  fixes cur :: "'a::len word"
  assumes "cur < s"
  shows "unat (cur + 1) = Suc (unat cur)" and "unat cur < unat s"
proof -
  show l: "unat cur < unat s" using assms by (simp add: word_less_nat_alt)
  show "unat (cur + 1) = Suc (unat cur)" by (rule unat_Suc_lt [OF l]) (rule unsigned_less)
qed

lemma unat_u32: "unat (x :: u32) < 4294967296"
  using unsigned_less [of x, where 'a = nat] by simp

lemma word_left:
  fixes cur :: "'a::len word"
  shows "cur < s \<Longrightarrow> unat s - unat (cur + 1) < unat s - unat cur"
  using word_below [of cur s] by simp

lemma cursor_set_cursor [simp]:
  "cursor (set_cursor c P) = c" "sourceContent (set_cursor c P) = sourceContent P"
  by (simp_all add: cursor_def set_cursor_def sourceContent_def)

lemma set_cursor_frame [simp]:
  "file_mgr (set_cursor c P) = file_mgr P" "sourceFile (set_cursor c P) = sourceFile P"
  "output_buffer (set_cursor c P) = output_buffer P" "storedMacros (set_cursor c P) = storedMacros P"
  "branchFlags (set_cursor c P) = branchFlags P" "currActive (set_cursor c P) = currActive P"
  "tl (inputStack (set_cursor c P)) = tl (inputStack P)"
  by (simp_all add: set_cursor_def)

section \<open>Searching\<close>

text \<open>The loop of the searches: the first position from \<open>cur\<close> on whose byte satisfies \<open>p\<close>.\<close>

function find_loop :: "(char \<Rightarrow> bool) \<Rightarrow> FileManager \<Rightarrow> Snippet \<Rightarrow> u32 \<Rightarrow> u32" where
  "find_loop p m s cur =
     (if cur < snip_size s then
        (if p (getChar_snippet m s cur) then cur else find_loop p m s (cur + 1))
      else PCursorMax)"
  by pat_completeness auto
termination
  by (relation "measure (\<lambda>(p, m, s, cur). unat (snip_size s) - unat cur)") (simp_all add: word_left)

declare find_loop.simps [simp del]

definition findNext_char :: "char \<Rightarrow> Preprocessor \<Rightarrow> u32" where
  "findNext_char c P = find_loop (\<lambda>x. x = c) (file_mgr P) (sourceContent P) (cursor P)"

definition findNext_chars :: "string \<Rightarrow> Preprocessor \<Rightarrow> u32" where
  "findNext_chars cs P =
     (if length cs = 0 then PCursorMax
      else if length cs = 1 then findNext_char (hd cs) P
      else (let lut = fold (\<lambda>c lut. lut[of_char c := True]) cs (replicate 256 False)
            in find_loop (\<lambda>x. lut ! of_char x) (file_mgr P) (sourceContent P) (cursor P)))"

definition findNext_lut :: "u64 list \<Rightarrow> Preprocessor \<Rightarrow> u32" where
  "findNext_lut charLUT P =
     find_loop (\<lambda>x. is_in charLUT (of_char x)) (file_mgr P) (sourceContent P) (cursor P)"

definition findNextInv :: "u64 list \<Rightarrow> Preprocessor \<Rightarrow> u32" where
  "findNextInv falseLUT P =
     find_loop (\<lambda>x. \<not> is_in falseLUT (of_char x)) (file_mgr P) (sourceContent P) (cursor P)"

definition findNextIdent :: "Preprocessor \<Rightarrow> u32" where
  "findNextIdent P = findNext_lut IDENT_CHAR_BITMASK P"

definition findNextIdentInv :: "Preprocessor \<Rightarrow> u32" where
  "findNextIdentInv P = findNextInv IDENT_CHAR_BITMASK P"

function findPrev_loop :: "char \<Rightarrow> FileManager \<Rightarrow> Snippet \<Rightarrow> u32 \<Rightarrow> u32" where
  "findPrev_loop c m s cur =
     (if 0 < cur then
        (let cur = cur - 1
         in if getChar_snippet m s cur = c then cur else findPrev_loop c m s cur)
      else PCursorMax)"
  by pat_completeness auto
termination
  by (relation "measure (\<lambda>(c, m, s, cur). unat cur)") (auto simp: unat_minus_one word_neq_0_conv unat_gt_0)

declare findPrev_loop.simps [simp del]

definition findPrev :: "char \<Rightarrow> Preprocessor \<Rightarrow> u32" where
  "findPrev c P = findPrev_loop c (file_mgr P) (sourceContent P) (cursor P)"

text \<open>\<open>std::string_view::find\<close>; \<open>None\<close> is \<open>npos\<close>.\<close>

fun sv_find :: "string \<Rightarrow> string \<Rightarrow> nat option" where
  "sv_find sequence [] = (if sequence = [] then Some 0 else None)"
| "sv_find sequence (c # cs) =
     (if take (length sequence) (c # cs) = sequence then Some 0
      else map_option Suc (sv_find sequence cs))"

definition seq_result :: "nat option \<Rightarrow> Preprocessor \<Rightarrow> u32" where
  "seq_result nextC P =
     (case nextC of
        None \<Rightarrow> PCursorMax
      | Some n \<Rightarrow> if uint PCursorMax < int n + uint (cursor P) then PCursorMax else cursor P + of_nat n)"

definition findNext_seq :: "string \<Rightarrow> Preprocessor \<Rightarrow> u32" where
  "findNext_seq sequence P =
     (let forwards_str = text_of P (to_cursor (ssize P) P)
      in seq_result (sv_find sequence forwards_str) P)"

fun min_pos_loop :: "string list \<Rightarrow> string \<Rightarrow> nat option \<Rightarrow> nat option" where
  "min_pos_loop [] forwards_str min_pos = min_pos"
| "min_pos_loop (sequence # sequences) forwards_str min_pos =
     (case sv_find sequence forwards_str of
        None \<Rightarrow> min_pos_loop sequences forwards_str min_pos
      | Some pos \<Rightarrow>
          if min_pos = None \<or> pos < the min_pos
          then (if pos = 0 then Some pos else min_pos_loop sequences forwards_str (Some pos))
          else min_pos_loop sequences forwards_str min_pos)"

definition findNext_seqs :: "string list \<Rightarrow> Preprocessor \<Rightarrow> u32" where
  "findNext_seqs sequences P =
     (let forwards_str = text_of P (to_cursor (ssize P) P)
      in (case min_pos_loop sequences forwards_str None of
            None \<Rightarrow> PCursorMax
          | Some n \<Rightarrow> if uint PCursorMax \<le> int n + uint (cursor P) then PCursorMax
                      else cursor P + of_nat n))"

definition findInLine :: "string \<Rightarrow> Preprocessor \<Rightarrow> u32" where
  "findInLine sequence P =
     (let endLine = findNext_char LF P
      in if endLine = PCursorMax then PCursorMax
         else seq_result (sv_find sequence (text_of P (to_cursor endLine P))) P)"

definition peekToNext :: "char \<Rightarrow> Preprocessor \<Rightarrow> Snippet" where
  "peekToNext c P =
     (let nextC = findNext_char c P in if nextC = PCursorMax then SNIPPET_SENT else to_cursor nextC P)"

definition skipToNext :: "char \<Rightarrow> Preprocessor \<Rightarrow> bool \<times> Preprocessor" where
  "skipToNext c P =
     (let foundCur = findNext_char c P
      in if foundCur \<noteq> PCursorMax then (True, set_cursor foundCur P) else (False, P))"

definition readToNext :: "char \<Rightarrow> Preprocessor \<Rightarrow> Snippet \<times> Preprocessor" where
  "readToNext c P =
     (let nextC = findNext_char c P
      in if nextC = PCursorMax then (SNIPPET_SENT, P)
         else (let oldCursor = cursor P; P = set_cursor nextC P in (from_cursor oldCursor P, P)))"

definition readToNext_chars :: "string \<Rightarrow> Preprocessor \<Rightarrow> Snippet \<times> Preprocessor" where
  "readToNext_chars cs P =
     (let nextC = findNext_chars cs P
      in if nextC = PCursorMax then (SNIPPET_SENT, P)
         else (let oldCursor = cursor P; P = set_cursor nextC P in (from_cursor oldCursor P, P)))"

text \<open>Two ways the sources leave a line: with or without going to the end when there is no newline.\<close>

text \<open>\<open>cursor() = nameEnd\<close>: to the end of the identifier, or of the frame.\<close>

definition skip_ident :: "Preprocessor \<Rightarrow> Preprocessor" where
  "skip_ident P =
     (let endName = findNextIdentInv P
      in set_cursor (if endName = PCursorMax then ssize P else endName) P)"

definition skip_line_or_end :: "Preprocessor \<Rightarrow> Preprocessor" where
  "skip_line_or_end P =
     (let endLine = findNext_char LF P
      in set_cursor (if endLine = PCursorMax then ssize P else endLine + 1) P)"

definition skip_line :: "Preprocessor \<Rightarrow> Preprocessor" where
  "skip_line P =
     (let endLine = findNext_char LF P
      in if endLine \<noteq> PCursorMax then set_cursor (endLine + 1) P else P)"

definition blank :: "char \<Rightarrow> bool" where
  "blank c = (c = CHR '' '' \<or> c = CHR 0x09 \<or> c = CR)"

function ol :: "Preprocessor \<Rightarrow> Preprocessor" where
  "ol P = (if cursor P < ssize P then
             (if blank (currChar P) then ol (set_cursor (cursor P + 1) P) else P)
           else P)"
  by pat_completeness auto
termination
  by (relation "measure (\<lambda>P. unat (ssize P) - unat (cursor P))") (simp_all add: word_left)

declare ol.simps [simp del]

function ol_back :: "Preprocessor \<Rightarrow> Preprocessor" where
  "ol_back P = (if 0 < cursor P then
                  (if blank (getChar_snippet (file_mgr P) (sourceContent P) (cursor P - 1))
                   then ol_back (set_cursor (cursor P - 1) P) else P)
                else P)"
  by pat_completeness auto
termination
  by (relation "measure (\<lambda>P. unat (cursor P))") (auto simp: unat_minus_one word_neq_0_conv unat_gt_0)

declare ol_back.simps [simp del]

section \<open>Macros\<close>

definition findDefined :: "string \<Rightarrow> Preprocessor \<Rightarrow> Defined" where
  "findDefined macroName P =
     (case storedMacros P macroName of
        Some d \<Rightarrow> d
      | None \<Rightarrow> default_Defined\<lparr>def_flags := 0\<rparr>)"

definition isDefined :: "string \<Rightarrow> Preprocessor \<Rightarrow> bool" where
  "isDefined macroName P = (storedMacros P macroName \<noteq> None)"

definition addMacro :: "string \<Rightarrow> Defined \<Rightarrow> Preprocessor \<Rightarrow> int \<times> Preprocessor" where
  "addMacro macroName macroC P =
     (if storedMacros P macroName \<noteq> None
      then (1, P\<lparr>storedMacros := (storedMacros P)(macroName \<mapsto> macroC)\<rparr>)
      else (0, P\<lparr>storedMacros := (storedMacros P)(macroName \<mapsto> macroC)\<rparr>))"

definition forgetMacro :: "string \<Rightarrow> Preprocessor \<Rightarrow> Preprocessor" where
  "forgetMacro macroName P = P\<lparr>storedMacros := (storedMacros P)(macroName := None)\<rparr>"

section \<open>Trimming\<close>

definition space :: "char \<Rightarrow> bool" where
  "space c = (c = CHR '' '' \<or> c = CHR 0x09 \<or> c = CR \<or> c = LF)"

text \<open>\<open>find_first_not_of\<close> and \<open>find_last_not_of\<close> on the four blanks; \<open>None\<close> is \<open>npos\<close>.\<close>

definition find_first_not_space :: "string \<Rightarrow> nat option" where
  "find_first_not_space s =
     (let n = length (takeWhile space s) in if n < length s then Some n else None)"

definition find_last_not_space :: "string \<Rightarrow> nat option" where
  "find_last_not_space s =
     (let n = length (dropWhile space (rev s)) in if 0 < n then Some (n - 1) else None)"

definition trim_sv :: "string \<Rightarrow> string" where
  "trim_sv s =
     (case find_first_not_space s of
        None \<Rightarrow> []
      | Some b \<Rightarrow>
          (case find_last_not_space s of
             None \<Rightarrow> []
           | Some e \<Rightarrow> take (e - b + 1) (drop b s)))"

section \<open>Conditions\<close>

text \<open>The value an operand stands for: that of a macro with a value, or its own text.\<close>

definition has_value :: "Defined \<Rightarrow> bool" where
  "has_value def = (0 < snip_size (def_content def) \<and> def_content def \<noteq> SNIPPET_SENT)"

definition operand_value :: "string \<Rightarrow> Preprocessor \<Rightarrow> string" where
  "operand_value s P =
     (if isDefined s P then
        (let def = findDefined s P
         in if has_value def then trim_sv (text_of P (def_content def)) else s)
      else s)"

definition eval_comparison :: "string \<Rightarrow> bool \<Rightarrow> nat \<Rightarrow> Preprocessor \<Rightarrow> int" where
  "eval_comparison trimmed is_eq op_pos P =
     (let lhs = trim_sv (take op_pos trimmed);
          rhs = trim_sv (drop (op_pos + 2) trimmed);
          match = (operand_value lhs P = operand_value rhs P)
      in if is_eq then (if match then 1 else 0) else (if \<not> match then 1 else 0))"

partial_function (option) evalCondition :: "Preprocessor \<Rightarrow> Snippet \<Rightarrow> int option" where
  "evalCondition P cond =
     (let expr = text_of P cond
      in if find_first_not_space expr = None then Some 0
         else
           (let trimmed = trim_sv expr
            in if currActive P = M_Ifndef then Some (if \<not> isDefined trimmed P then 1 else 0)
               else if currActive P = M_If \<or> currActive P = M_Elif then
                 (if trimmed = ''0'' \<or> trimmed = ''false'' then Some 0
                  else if trimmed = ''1'' \<or> trimmed = ''true'' then Some 1
                  else if sv_find ''=='' trimmed \<noteq> None
                  then Some (eval_comparison trimmed True (the (sv_find ''=='' trimmed)) P)
                  else if sv_find ''!='' trimmed \<noteq> None
                  then Some (eval_comparison trimmed False (the (sv_find ''!='' trimmed)) P)
                  else if isDefined trimmed P then
                    (let def = findDefined trimmed P
                     in if has_value def then evalCondition P (def_content def) else Some 1)
                  else Some 0)
               else Some (-1)))"

declare evalCondition.simps [code]

section \<open>Skipping a branch\<close>

definition end_branching :: "Preprocessor \<Rightarrow> int \<times> Preprocessor" where
  "end_branching P =
     (let endLine = findNext_char LF P
      in if endLine = PCursorMax then (422, set_cursor (ssize P) P)
         else (0, set_cursor (endLine + 1) P))"

text \<open>The text of a directive: the cursor is on its \<open>#\<close> and ends behind its name.\<close>

definition read_directive :: "Preprocessor \<Rightarrow> string \<times> Preprocessor" where
  "read_directive P =
     (let startHash = cursor P;
          P = set_cursor (cursor P + 1) P;
          P = skip_ident P
      in (text_of P (from_cursor startHash P), P))"

text \<open>
  One turn of the loop of \<open>skip_if_branch\<close>: \<open>Inl\<close> goes on with the state, the two string
  flags and the nesting count, \<open>Inr\<close> is a return.
\<close>

type_synonym skip_state = "Preprocessor \<times> bool \<times> bool \<times> u16"

definition skip_directive :: "Preprocessor \<Rightarrow> u16 \<Rightarrow> (Preprocessor \<times> u16) + (int \<times> Preprocessor)" where
  "skip_directive P nestCount =
     (let (macroName, P) = read_directive P;
          matched = macro_hash_match macroName;
          flags = (if branchFlags P = [] then 0 else hd (branchFlags P))
      in if matched = M_If \<or> matched = M_Ifndef then Inl (P, nestCount + 1)
         else if matched = M_Define then Inl (skip_line_or_end P, nestCount)
         else if matched = M_Define_M then
           (let endDef = findNext_seq ''#enddef'' P
            in Inl (set_cursor (if endDef = PCursorMax then ssize P else endDef + 7) P, nestCount))
         else if matched = M_Skip then
           (let endLine1 = findNext_char LF P
            in if endLine1 \<noteq> PCursorMax
               then Inl (skip_line_or_end (set_cursor (endLine1 + 1) P), nestCount)
               else Inl (set_cursor (ssize P) P, nestCount))
         else if matched = M_Elif \<and> nestCount = 1 then
           (if flags AND EVER_TAKEN \<noteq> 0 then Inl (skip_line_or_end P, nestCount)
            else Inr (105102, P))
         else if matched = M_Else \<and> nestCount = 1 then
           (if flags AND EVER_TAKEN \<noteq> 0 then Inl (skip_line_or_end P, nestCount)
            else Inr (end_branching P))
         else if matched = M_Endif then
           (if nestCount = 1 then Inr (end_branching P) else Inl (P, nestCount - 1))
         else Inl (P, nestCount))"

definition skip_step :: "skip_state \<Rightarrow> skip_state + (int \<times> Preprocessor)" where
  "skip_step s =
     (let (P, stringed2, stringed1, nestCount) = s;
          currInitial = currChar P;
          advance = set_cursor (cursor P + 1) P
      in if currInitial = CHR 0x22 then Inl (advance, \<not> stringed2, stringed1, nestCount)
         else if currInitial = CHR 0x27 then Inl (advance, stringed2, \<not> stringed1, nestCount)
         else if stringed1 \<or> stringed2 then Inl (advance, stringed2, stringed1, nestCount)
         else if currInitial = CHR ''/'' \<and> cursor P + 1 < ssize P \<and> nextChar P = CHR ''/''
         then Inl (skip_line_or_end P, stringed2, stringed1, nestCount)
         else if currInitial = CHR ''/'' \<and> cursor P + 1 < ssize P \<and> nextChar P = CHR ''*''
         then (let P = set_cursor (cursor P + 2) P;
                   endBlock = findNext_seq ''*/'' P
               in Inl (set_cursor (if endBlock = PCursorMax then ssize P else endBlock + 2) P,
                       stringed2, stringed1, nestCount))
         else if currInitial = CHR ''#''
         then (case skip_directive P nestCount of
                 Inl (P, nestCount) \<Rightarrow> Inl (P, stringed2, stringed1, nestCount)
               | Inr r \<Rightarrow> Inr r)
         else Inl (advance, stringed2, stringed1, nestCount))"

section \<open>Moving forward\<close>

text \<open>\<open>reaches P P'\<close>: \<open>P'\<close> is \<open>P\<close> with the cursor further on in the same frame, not behind its end.\<close>

definition reaches :: "Preprocessor \<Rightarrow> Preprocessor \<Rightarrow> bool" where
  "reaches P P' \<longleftrightarrow> cursor P \<le> cursor P' \<and> cursor P' \<le> ssize P \<and> set_cursor 0 P' = set_cursor 0 P"

lemma set_cursor_set_cursor [simp]: "set_cursor c (set_cursor d P) = set_cursor c P"
  by (simp add: set_cursor_def)

lemma set_cursor_fields:
  assumes "set_cursor c P' = set_cursor c P"
  shows "sourceContent P' = sourceContent P" "file_mgr P' = file_mgr P" "sourceFile P' = sourceFile P"
    "output_buffer P' = output_buffer P" "storedMacros P' = storedMacros P"
    "branchFlags P' = branchFlags P" "currActive P' = currActive P"
    "tl (inputStack P') = tl (inputStack P)"
proof -
  note eq = arg_cong [OF assms]
  show "sourceContent P' = sourceContent P" using eq [of sourceContent] by simp
  show "file_mgr P' = file_mgr P" using eq [of file_mgr] by simp
  show "sourceFile P' = sourceFile P" using eq [of sourceFile] by simp
  show "output_buffer P' = output_buffer P" using eq [of output_buffer] by simp
  show "storedMacros P' = storedMacros P" using eq [of storedMacros] by simp
  show "branchFlags P' = branchFlags P" using eq [of branchFlags] by simp
  show "currActive P' = currActive P" using eq [of currActive] by simp
  show "tl (inputStack P') = tl (inputStack P)" using eq [of "\<lambda>P. tl (inputStack P)"] by simp
qed

lemma reaches_fields:
  assumes "reaches P P'"
  shows "sourceContent P' = sourceContent P" "file_mgr P' = file_mgr P" "sourceFile P' = sourceFile P"
    "output_buffer P' = output_buffer P" "storedMacros P' = storedMacros P"
    "branchFlags P' = branchFlags P" "currActive P' = currActive P"
    "tl (inputStack P') = tl (inputStack P)"
    "cursor P \<le> cursor P'" "cursor P' \<le> ssize P"
proof -
  have "set_cursor 0 P' = set_cursor 0 P" using assms unfolding reaches_def by blast
  then show "sourceContent P' = sourceContent P" "file_mgr P' = file_mgr P" "sourceFile P' = sourceFile P"
    "output_buffer P' = output_buffer P" "storedMacros P' = storedMacros P"
    "branchFlags P' = branchFlags P" "currActive P' = currActive P"
    "tl (inputStack P') = tl (inputStack P)"
    by (rule set_cursor_fields)+
  show "cursor P \<le> cursor P'" "cursor P' \<le> ssize P" using assms unfolding reaches_def by blast+
qed

lemma reaches_refl: "cursor P \<le> ssize P \<Longrightarrow> reaches P P"
  by (simp add: reaches_def)

lemma reaches_trans: "reaches P P' \<Longrightarrow> reaches P' P'' \<Longrightarrow> reaches P P''"
  unfolding reaches_def by (metis order_trans set_cursor_fields(1))

lemma reaches_set: "cursor P \<le> c \<Longrightarrow> c \<le> ssize P \<Longrightarrow> reaches P (set_cursor c P)"
  by (simp add: reaches_def)

lemma reaches_set2: "d \<le> c \<Longrightarrow> c \<le> ssize P \<Longrightarrow> reaches (set_cursor d P) (set_cursor c P)"
  by (simp add: reaches_def)

lemma reaches_set_from: "reaches P P' \<Longrightarrow> cursor P' \<le> c \<Longrightarrow> c \<le> ssize P \<Longrightarrow> reaches P (set_cursor c P')"
  by (rule reaches_trans [OF _ reaches_set]) (simp_all add: reaches_fields)

lemma find_loop_result:
  "find_loop p m s cur = PCursorMax \<or>
   (cur \<le> find_loop p m s cur \<and> find_loop p m s cur < snip_size s \<and>
    p (getChar_snippet m s (find_loop p m s cur)))"
proof (induction p m s cur rule: find_loop.induct)
  case (1 p m s cur)
  show ?case
  proof (cases "cur < snip_size s \<and> \<not> p (getChar_snippet m s cur)")
    case True
    then have "find_loop p m s cur = find_loop p m s (cur + 1)" by (simp add: find_loop.simps [of p m s cur])
    moreover have "cur \<le> cur + 1" using True word_below [of cur "snip_size s"]
      by (simp add: word_le_nat_alt)
    ultimately show ?thesis using 1 True by (auto intro: order_trans)
  next
    case False
    then show ?thesis by (auto simp: find_loop.simps [of p m s cur])
  qed
qed

lemmas find_defs = findNext_char_def findNext_lut_def findNextInv_def findNextIdentInv_def

lemma find_result:
  assumes "r = findNext_char c P \<or> r = findNextIdentInv P" and "r \<noteq> PCursorMax"
  shows "cursor P \<le> r" "r < ssize P"
  using assms find_loop_result by (auto simp: find_defs)

lemma le_PCursorMax [simp]: "c \<le> PCursorMax"
  by (simp add: PCursorMax_def)

lemma word_Suc_le:
  fixes r s :: "'a::len word"
  shows "r < s \<Longrightarrow> r < r + 1 \<and> r + 1 \<le> s"
  using word_below [of r s] by (simp add: word_less_nat_alt word_le_nat_alt)

lemma skip_ident_reaches:
  assumes "cursor P \<le> ssize P"
  shows "reaches P (skip_ident P)"
  using assms find_result [of "findNextIdentInv P" _ P]
  by (auto simp: skip_ident_def Let_def less_imp_le intro!: reaches_set)

lemma skip_line_or_end_reaches:
  assumes "cursor P \<le> ssize P"
  shows "reaches P (skip_line_or_end P)"
proof (cases "findNext_char LF P = PCursorMax")
  case True
  then show ?thesis using assms by (simp add: skip_line_or_end_def reaches_set)
next
  case False
  then have "cursor P \<le> findNext_char LF P" "findNext_char LF P < ssize P"
    using find_result by blast+
  then show ?thesis using False word_Suc_le [of "findNext_char LF P" "ssize P"]
    by (auto simp: skip_line_or_end_def Let_def intro!: reaches_set)
qed

lemma skip_line_reaches:
  assumes "cursor P \<le> ssize P"
  shows "reaches P (skip_line P)"
  using skip_line_or_end_reaches [OF assms] reaches_refl [OF assms]
  by (auto simp: skip_line_def skip_line_or_end_def Let_def split: if_splits)

lemma end_branching_reaches:
  assumes "cursor P \<le> ssize P"
  shows "reaches P (snd (end_branching P))"
  using skip_line_or_end_reaches [OF assms]
  by (auto simp: end_branching_def skip_line_or_end_def Let_def split: if_splits)

lemma sv_find_bound: "sv_find sequence s = Some n \<Longrightarrow> n + length sequence \<le> length s"
proof (induction sequence s arbitrary: n rule: sv_find.induct)
  case (2 sequence c cs)
  show ?case
  proof (cases "take (length sequence) (c # cs) = sequence")
    case True
    then have "length sequence \<le> length (c # cs)" by (metis length_take min.cobounded1)
    with True 2 show ?thesis by simp
  next
    case False
    with 2 show ?thesis by auto
  qed
qed (simp split: if_splits)

lemma length_text_of: "length (text_of P s) \<le> unat (snip_size s)"
  by (simp add: text_of_def snippet_text_def read_def)

lemma findNext_seq_result:
  assumes "cursor P \<le> ssize P" and "findNext_seq sequence P \<noteq> PCursorMax"
  shows "unat (cursor P) \<le> unat (findNext_seq sequence P) \<and>
    unat (findNext_seq sequence P) + length sequence \<le> unat (ssize P)"
proof -
  let ?t = "text_of P (to_cursor (ssize P) P)"
  obtain n where n: "sv_find sequence ?t = Some n" and r: "findNext_seq sequence P = cursor P + of_nat n"
    using assms(2) by (auto simp: findNext_seq_def seq_result_def Let_def split: option.splits if_splits)
  have "length ?t \<le> unat (ssize P - cursor P)"
    using length_text_of [of P "to_cursor (ssize P) P"] by (simp add: to_cursor_def)
  also have "\<dots> = unat (ssize P) - unat (cursor P)"
    using assms(1) by (intro unat_diff_le) (simp add: word_le_nat_alt)
  finally have b: "n + length sequence + unat (cursor P) \<le> unat (ssize P)"
    using sv_find_bound [OF n] assms(1) by (simp add: word_le_nat_alt)
  have "unat (of_nat n :: u32) = n"
    by (rule unat_of_nat_lt) (use b unat_u32 [of "ssize P"] in simp)
  moreover have "unat (cursor P + of_nat n) = unat (cursor P) + unat (of_nat n :: u32)"
    by (rule unat_add_lt) (use b unat_u32 [of "ssize P"] calculation in simp)
  ultimately show ?thesis using b r by simp
qed

lemma seq_end_reaches:
  assumes "cursor P \<le> ssize P" and "k = length sequence" and "k < 2 ^ 32"
  shows "reaches P (set_cursor (if findNext_seq sequence P = PCursorMax then ssize P
    else findNext_seq sequence P + of_nat k) P)"
proof (cases "findNext_seq sequence P = PCursorMax")
  case True
  then show ?thesis using assms by (simp add: reaches_set)
next
  case False
  have b: "unat (cursor P) \<le> unat (findNext_seq sequence P)"
    "unat (findNext_seq sequence P) + k \<le> unat (ssize P)"
    using findNext_seq_result [OF assms(1) False] assms(2) by simp_all
  have "unat (of_nat k :: u32) = k" using assms(3) by (intro unat_of_nat_lt) simp
  moreover have "unat (findNext_seq sequence P + of_nat k) = unat (findNext_seq sequence P) + unat (of_nat k :: u32)"
    by (rule unat_add_lt) (use b unat_u32 [of "ssize P"] calculation in simp)
  ultimately show ?thesis using False b by (auto simp: word_le_nat_alt intro!: reaches_set)
qed

definition progresses :: "Preprocessor \<Rightarrow> Preprocessor \<Rightarrow> bool" where
  "progresses P P' \<longleftrightarrow> reaches P P' \<and> cursor P < cursor P'"

lemma progresses_trans: "progresses P P' \<Longrightarrow> reaches P' P'' \<Longrightarrow> progresses P P''"
  unfolding progresses_def using reaches_trans reaches_fields(9) by (metis less_le_trans)

lemma progresses_end: "progresses P P' \<Longrightarrow> cursor P' \<le> ssize P'"
  unfolding progresses_def using reaches_fields(1,10) by metis

lemma progresses_measure:
  "progresses P P' \<Longrightarrow> unat (ssize P') - unat (cursor P') < unat (ssize P) - unat (cursor P)"
  using reaches_fields(1,10) [of P P'] by (auto simp: progresses_def word_less_nat_alt word_le_nat_alt)

lemma progresses_Suc: "cursor P < ssize P \<Longrightarrow> progresses P (set_cursor (cursor P + 1) P)"
  using word_Suc_le [of "cursor P" "ssize P"] by (auto simp: progresses_def intro!: reaches_set)

lemma progresses_Suc_trans:
  "cursor P < ssize P \<Longrightarrow> reaches (set_cursor (cursor P + 1) P) P' \<Longrightarrow> progresses P P'"
  by (rule progresses_trans [OF progresses_Suc])

lemma progresses_Suc_Suc: "cursor P + 1 < ssize P \<Longrightarrow> cursor P < ssize P \<Longrightarrow> progresses P (set_cursor (cursor P + 2) P)"
  using progresses_Suc_trans [of P "set_cursor (cursor P + 2) P"]
    reaches_set_from [OF reaches_refl, of "set_cursor (cursor P + 1) P" "cursor P + 2"]
    word_Suc_le [of "cursor P + 1" "ssize P"] by (simp add: less_imp_le add.assoc)

lemma read_directive_progresses:
  assumes "cursor P < ssize P"
  shows "progresses P (snd (read_directive P))"
proof (rule progresses_Suc_trans [OF assms])
  let ?P = "set_cursor (cursor P + 1) P"
  have "cursor ?P \<le> ssize ?P" using word_Suc_le [OF assms] by simp
  then show "reaches ?P (snd (read_directive P))"
    using skip_ident_reaches [of ?P] by (simp add: read_directive_def Let_def)
qed

lemma skip_line_or_end_skips:
  assumes "cursor P < ssize P"
  shows "progresses P (skip_line_or_end P)"
  using skip_line_or_end_reaches [of P] assms find_result [of "findNext_char LF P" LF P]
    word_Suc_le [of "findNext_char LF P" "ssize P"]
  by (auto simp: progresses_def skip_line_or_end_def Let_def)

lemma next_line_progresses:
  assumes "findNext_char LF P \<noteq> PCursorMax"
  shows "progresses P (set_cursor (findNext_char LF P + 1) P)"
proof -
  have "cursor P \<le> findNext_char LF P" "findNext_char LF P < ssize P" using assms find_result by blast+
  then show ?thesis using word_Suc_le [of "findNext_char LF P" "ssize P"]
    by (auto simp: progresses_def intro!: reaches_set)
qed

lemma skip_directive_progresses:
  assumes "cursor P < ssize P"
  shows "case skip_directive P n of Inl (P', n') \<Rightarrow> progresses P P' | Inr (k, P') \<Rightarrow> progresses P P'"
proof -
  obtain nm P1 where rd: "read_directive P = (nm, P1)" by (cases "read_directive P")
  have P1: "progresses P P1" using read_directive_progresses [OF assms] rd by simp
  then have c: "cursor P1 \<le> ssize P1" by (rule progresses_end)
  have next_line: "reaches P1 (skip_line_or_end (set_cursor (findNext_char LF P1 + 1) P1))"
    if "findNext_char LF P1 \<noteq> PCursorMax"
  proof -
    have "cursor P1 \<le> findNext_char LF P1" "findNext_char LF P1 < ssize P1" using that find_result by blast+
    then have n: "cursor P1 \<le> findNext_char LF P1 + 1" "findNext_char LF P1 + 1 \<le> ssize P1"
      using word_Suc_le [of "findNext_char LF P1" "ssize P1"] by auto
    show ?thesis by (rule reaches_trans [OF reaches_set [OF n] skip_line_or_end_reaches]) (simp add: n)
  qed
  have en: "reaches P1 (snd (end_branching P1))" "reaches P1 (skip_line_or_end P1)"
    "reaches P1 (set_cursor (ssize P1) P1)"
    using c by (simp_all add: end_branching_reaches skip_line_or_end_reaches reaches_set)
  have dm: "reaches P1 (set_cursor (if findNext_seq ''#enddef'' P1 = PCursorMax then ssize P1
      else findNext_seq ''#enddef'' P1 + 7) P1)"
    using seq_end_reaches [OF c, of 7 "''#enddef''"] by (auto split: if_splits)
  obtain k P2 where eb: "end_branching P1 = (k, P2)" by (cases "end_branching P1")
  have refl: "reaches P1 P1" using c by (rule reaches_refl)
  note pr = progresses_trans [OF P1]
  have en: "progresses P P2" "progresses P P1" "progresses P (skip_line_or_end P1)"
    "progresses P (set_cursor (ssize P1) P1)"
    using en eb refl by (simp_all add: pr)
  show ?thesis
    by (cases "macro_hash_match nm")
      (simp_all add: skip_directive_def rd eb Let_def en pr dm next_line)
qed

lemma skip_step_progresses:
  assumes "cursor P < ssize P"
  shows "case skip_step (P, s2, s1, n) of Inl (P', _) \<Rightarrow> progresses P P' | Inr (k, P') \<Rightarrow> progresses P P'"
proof -
  have c2: "progresses P (set_cursor (if findNext_seq ''*/'' P2 = PCursorMax then ssize P2
      else findNext_seq ''*/'' P2 + 2) P2)" if "cursor P + 1 < ssize P" "P2 = set_cursor (cursor P + 2) P" for P2
    using progresses_Suc_Suc [OF that(1) assms] seq_end_reaches [of P2 2 "''*/''"] progresses_end [of P P2] that
    by (auto intro: progresses_trans)
  show ?thesis
    using progresses_Suc [OF assms] skip_line_or_end_skips [OF assms] c2 [OF _ refl]
      skip_directive_progresses [OF assms, of n]
    by (auto simp: skip_step_def Let_def split: sum.splits prod.splits)
qed

text \<open>The loop of \<open>skip_if_branch\<close>: every turn moves the cursor on.\<close>

function skip_loop :: "Preprocessor \<Rightarrow> bool \<Rightarrow> bool \<Rightarrow> u16 \<Rightarrow> int \<times> Preprocessor" where
  "skip_loop P stringed2 stringed1 nestCount =
     (if 0 < nestCount \<and> cursor P < ssize P then
        (case skip_step (P, stringed2, stringed1, nestCount) of
           Inl (P, stringed2, stringed1, nestCount) \<Rightarrow> skip_loop P stringed2 stringed1 nestCount
         | Inr r \<Rightarrow> r)
      else (if nestCount = 0 then 0 else -422, P))"
  by pat_completeness auto
termination
proof (relation "measure (\<lambda>(P, s2, s1, n). unat (ssize P) - unat (cursor P))")
  fix P :: Preprocessor and s2 s1 n s x y P' t2 t1 n'
  assume "0 < n \<and> cursor P < ssize P" "skip_step (P, s2, s1, n) = Inl s" "(P', x) = s" "(t2, y) = x" "(t1, n') = y"
  then show "((P', t2, t1, n'), P, s2, s1, n) \<in> measure (\<lambda>(P, s2, s1, n). unat (ssize P) - unat (cursor P))"
    using skip_step_progresses [of P s2 s1 n] progresses_measure by auto
qed simp

declare skip_loop.simps [simp del]

definition skip_if_branch :: "Preprocessor \<Rightarrow> int \<times> Preprocessor" where
  "skip_if_branch P = skip_loop P False False 1"

lemma skip_loop_reaches:
  assumes "cursor P \<le> ssize P"
  shows "reaches P (snd (skip_loop P s2 s1 n))"
  using assms
proof (induction P s2 s1 n rule: skip_loop.induct)
  case (1 P s2 s1 n)
  show ?case
  proof (cases "0 < n \<and> cursor P < ssize P")
    case False
    then show ?thesis using 1 by (subst skip_loop.simps) (auto intro: reaches_refl)
  next
    case True
    show ?thesis
    proof (cases "skip_step (P, s2, s1, n)")
      case (Inr r)
      then show ?thesis using True skip_step_progresses [of P s2 s1 n]
        by (subst skip_loop.simps) (auto simp: progresses_def split: prod.splits)
    next
      case (Inl s')
      obtain P' t2 t1 n' where s': "s' = (P', t2, t1, n')" by (cases s')
      have p: "progresses P P'" using True skip_step_progresses [of P s2 s1 n] Inl s' by simp
      have "reaches P' (snd (skip_loop P' t2 t1 n'))"
        using 1(1) [OF True Inl s'[symmetric] refl refl] progresses_end [OF p] by simp
      then show ?thesis using True Inl s' progresses_trans [OF p]
        by (subst skip_loop.simps) (simp add: progresses_def)
    qed
  qed
qed

lemma skip_if_branch_reaches: "cursor P \<le> ssize P \<Longrightarrow> reaches P (snd (skip_if_branch P))"
  by (simp add: skip_if_branch_def skip_loop_reaches)

lemma ol_reaches: "cursor P \<le> ssize P \<Longrightarrow> reaches P (ol P)"
proof (induction P rule: ol.induct)
  case (1 P)
  show ?case
  proof (cases "cursor P < ssize P \<and> blank (currChar P)")
    case True
    then have "reaches (set_cursor (cursor P + 1) P) (ol P)"
      using 1 word_Suc_le [of "cursor P" "ssize P"] by (subst ol.simps) simp
    then show ?thesis using progresses_Suc_trans True by (auto simp: progresses_def)
  next
    case False
    then show ?thesis using 1 by (subst ol.simps) (auto intro: reaches_refl)
  qed
qed

lemma ol_back_set: "\<exists>c \<le> cursor P. ol_back P = set_cursor c P \<or> ol_back P = P \<and> c = cursor P"
proof (induction P rule: ol_back.induct)
  case (1 P)
  show ?case
  proof (cases "0 < cursor P \<and> blank (getChar_snippet (file_mgr P) (sourceContent P) (cursor P - 1))")
    case True
    then have eq: "ol_back P = ol_back (set_cursor (cursor P - 1) P)" by (subst ol_back.simps) simp
    have le: "cursor P - 1 \<le> cursor P" using True by (simp add: word_le_nat_alt unat_diff_le Suc_leI unat_gt_0 word_neq_0_conv)
    obtain c where "c \<le> cursor P - 1" "ol_back P = set_cursor c P"
      using 1 True eq by auto
    then show ?thesis using le by (auto intro: order_trans)
  next
    case False
    then have "ol_back P = P" by (subst ol_back.simps) auto
    then show ?thesis by auto
  qed
qed

end
