(* ===== verification/Preproc_Handlers.thy ===== *)
theory Preproc_Handlers
  imports Preprocessor
begin

text \<open>
  The directive handlers of \<open>preproc/preprocessor.cpp\<close>. A handler returns its code and the
  new state; the three that evaluate a condition return an option, as \<open>evalCondition\<close> does.
\<close>

section \<open>Definitions of macros\<close>

function amp_names_loop :: "Preprocessor \<Rightarrow> Preprocessor" where
  "amp_names_loop P =
     (if cursor P < ssize P \<and> currChar P = CHR ''&''
      then amp_names_loop (skip_ident (set_cursor (cursor P + 1) P)) else P)"
  by pat_completeness auto
termination
proof (relation "measure (\<lambda>P. unat (ssize P) - unat (cursor P))")
  fix P
  assume "cursor P < ssize P \<and> currChar P = CHR ''&''"
  then have "progresses P (skip_ident (set_cursor (cursor P + 1) P))"
    using word_Suc_le [of "cursor P" "ssize P"] by (intro progresses_Suc_trans skip_ident_reaches) simp_all
  then show "(skip_ident (set_cursor (cursor P + 1) P), P) \<in> measure (\<lambda>P. unat (ssize P) - unat (cursor P))"
    using progresses_measure by simp
qed simp

declare amp_names_loop.simps [simp del]

text \<open>Lines that contain \<open>__/__\<close> or \<open>__ / __\<close> continue the value on the next line.\<close>

definition has_continuation :: "string \<Rightarrow> bool" where
  "has_continuation lineStr = (sv_find ''__/__'' lineStr \<noteq> None \<or> sv_find ''__ / __'' lineStr \<noteq> None)"

function value_loop :: "Preprocessor \<Rightarrow> u32 \<Rightarrow> u32 \<times> Preprocessor" where
  "value_loop P contentEnd =
     (if cursor P < ssize P then
        (let endL = findNext_char LF P;
             lineLimit = (if endL = PCursorMax then ssize P else endL);
             lineStr = text_of P (to_cursor lineLimit P)
         in if has_continuation lineStr \<and> endL \<noteq> PCursorMax
            then value_loop (set_cursor (endL + 1) P) contentEnd
            else (lineLimit, if endL \<noteq> PCursorMax then set_cursor (lineLimit + 1) P
                             else set_cursor lineLimit P))
      else (contentEnd, P))"
  by pat_completeness auto
termination
proof (relation "measure (\<lambda>(P, contentEnd). unat (ssize P) - unat (cursor P))")
  fix P contentEnd x xa xb
  assume "cursor P < ssize P" "x = findNext_char LF P"
    "xa = (if x = PCursorMax then ssize P else x)" "xb = text_of P (to_cursor xa P)"
    "has_continuation xb \<and> x \<noteq> PCursorMax"
  then have "progresses P (set_cursor (x + 1) P)" using next_line_progresses by blast
  then show "((set_cursor (x + 1) P, contentEnd), P, contentEnd)
      \<in> measure (\<lambda>(P, contentEnd). unat (ssize P) - unat (cursor P))"
    using progresses_measure [of P "set_cursor (x + 1) P"] by simp
qed simp

declare value_loop.simps [simp del]

function trim_end_loop :: "FileManager \<Rightarrow> Snippet \<Rightarrow> u32 \<Rightarrow> u32 \<Rightarrow> u32" where
  "trim_end_loop m s startVal contentEnd =
     (if startVal < contentEnd then
        (if blank (getChar_snippet m s (contentEnd - 1))
         then trim_end_loop m s startVal (contentEnd - 1) else contentEnd)
      else contentEnd)"
  by pat_completeness auto
termination
  by (relation "measure (\<lambda>(m, s, startVal, contentEnd). unat contentEnd)")
    (auto simp: unat_minus_one word_less_nat_alt simp flip: unat_gt_0)

declare trim_end_loop.simps [simp del]

text \<open>Registering every name of an \<open>&\<close>-separated list.\<close>

function register_loop :: "string \<Rightarrow> nat \<Rightarrow> Defined \<Rightarrow> Preprocessor \<Rightarrow> Preprocessor" where
  "register_loop namesCombined prev_pos def P =
     (if prev_pos < length namesCombined then
        (let next_amp = map_option ((+) prev_pos) (sv_find ''&'' (drop prev_pos namesCombined));
             count = (case next_amp of None \<Rightarrow> length namesCombined - prev_pos | Some k \<Rightarrow> k - prev_pos);
             singleName = take count (drop prev_pos namesCombined);
             P = (if find_first_not_space singleName \<noteq> None
                  then snd (addMacro (trim_sv singleName) def P) else P)
         in (case next_amp of None \<Rightarrow> P | Some k \<Rightarrow> register_loop namesCombined (k + 1) def P))
      else P)"
  by pat_completeness auto
termination
  by (relation "measure (\<lambda>(namesCombined, prev_pos, def, P). length namesCombined - prev_pos)")
    (auto dest!: sym [of "Some _"])

declare register_loop.simps [simp del]

definition handle_define :: "Preprocessor \<Rightarrow> int \<times> Preprocessor" where
  "handle_define P =
     (let P = ol P;
          startName = cursor P;
          P = skip_ident P;
          P = amp_names_loop P;
          namesCombined = text_of P (from_cursor startName P);
          P = ol P;
          startVal = cursor P;
          (contentEnd, P) = value_loop P startVal;
          contentEnd = trim_end_loop (file_mgr P) (sourceContent P) startVal contentEnd;
          defContent = \<lparr>snip_offset = snip_offset (sourceContent P) + startVal,
                        snip_size = contentEnd - startVal\<rparr>;
          def = \<lparr>def_content = defContent, def_t = M_Define, def_flags = 1\<rparr>
      in (0, register_loop namesCombined 0 def P))"

function names_loop :: "Preprocessor \<Rightarrow> Preprocessor" where
  "names_loop P =
     (if cursor P < ssize P then
        (let P1 = ol (skip_ident P)
         in if cursor P1 < ssize P1 \<and> currChar P1 = CHR ''&''
            then names_loop (ol (set_cursor (cursor P1 + 1) P1)) else P1)
      else P)"
  by pat_completeness auto
termination
proof (relation "measure (\<lambda>P. unat (ssize P) - unat (cursor P))")
  fix P P1
  assume c: "cursor P < ssize P" and P1: "P1 = ol (skip_ident P)"
    and P1c: "cursor P1 < ssize P1 \<and> currChar P1 = CHR ''&''"
  have r: "reaches P (skip_ident P)" using c by (intro skip_ident_reaches) simp
  then have "cursor (skip_ident P) \<le> ssize (skip_ident P)" by (metis reaches_fields(1,10))
  then have "reaches P P1" unfolding P1 by (intro reaches_trans [OF r] ol_reaches)
  moreover have "progresses P1 (ol (set_cursor (cursor P1 + 1) P1))"
    using P1c word_Suc_le [of "cursor P1" "ssize P1"] by (intro progresses_Suc_trans ol_reaches) simp_all
  ultimately show "(ol (set_cursor (cursor P1 + 1) P1), P) \<in> measure (\<lambda>P. unat (ssize P) - unat (cursor P))"
    using progresses_measure [of P1 "ol (set_cursor (cursor P1 + 1) P1)"] reaches_fields(1,9) [of P P1]
    by (auto simp: word_le_nat_alt)
qed simp

declare names_loop.simps [simp del]

definition handle_define_m :: "Preprocessor \<Rightarrow> int \<times> Preprocessor" where
  "handle_define_m P =
     (let P = ol P;
          startName = cursor P;
          P = names_loop P;
          namesEnd = cursor P;
          namesCombined = text_of P \<lparr>snip_offset = snip_offset (sourceContent P) + startName,
                                     snip_size = namesEnd - startName\<rparr>;
          endDef = findNext_seq ''#enddef'' P
      in if endDef = PCursorMax then (-3, P)
         else
           (let defContent = to_cursor endDef P;
                P = set_cursor (endDef + 7) P;
                P = skip_line P;
                def = \<lparr>def_content = defContent, def_t = M_Define_M, def_flags = 1\<rparr>
            in (0, register_loop namesCombined 0 def P)))"

section \<open>Inclusion\<close>

definition push_frame :: "Snippet \<Rightarrow> Preprocessor \<Rightarrow> Preprocessor" where
  "push_frame s P = P\<lparr>inputStack := \<lparr>frame_content = s, frame_cursor = 0\<rparr> # inputStack P\<rparr>"

definition handle_include ::
  "char \<Rightarrow> (string \<Rightarrow> string option) \<Rightarrow> Preprocessor \<Rightarrow> int \<times> Preprocessor" where
  "handle_include fill fs P =
     (let P = ol P
      in if at_end P then (-1, P)
         else
           (let openChar = currChar P
            in if openChar \<noteq> CHR 0x22 \<and> openChar \<noteq> CHR ''<'' then (-1, P)
               else
                 (let closeChar = (if openChar = CHR 0x22 then CHR 0x22 else CHR ''>'');
                      P = set_cursor (cursor P + 1) P;
                      (pathSnippet, P) = readToNext closeChar P
                  in if snip_offset pathSnippet = snip_offset SNIPPET_SENT then (-1, P)
                     else
                       (let P = set_cursor (cursor P + 1) P;
                            P = skip_line P;
                            includePath = text_of P pathSnippet;
                            (includedContent, P) = loadView fill fs includePath P
                        in if snip_offset includedContent = snip_offset SNIPPET_SENT \<or>
                              snip_size includedContent = PLengthMax \<or> snip_size includedContent = 0
                           then (-2, P)
                           else (0, push_frame includedContent P)))))"

definition handle_import ::
  "char \<Rightarrow> (string \<Rightarrow> string option) \<Rightarrow> Preprocessor \<Rightarrow> int \<times> Preprocessor" where
  "handle_import fill fs P = handle_include fill fs P"

section \<open>Branches\<close>

definition push_flags :: "bool \<Rightarrow> Preprocessor \<Rightarrow> Preprocessor" where
  "push_flags condPassed P =
     P\<lparr>branchFlags := (if condPassed then ACTIVE OR EVER_TAKEN else 0) # branchFlags P\<rparr>"

definition set_flags :: "u8 \<Rightarrow> Preprocessor \<Rightarrow> Preprocessor" where
  "set_flags flags P = P\<lparr>branchFlags := flags # tl (branchFlags P)\<rparr>"

text \<open>\<open>rawCond\<close> of \<open>#if\<close> and \<open>#elif\<close>: the rest of the line without blanks at its ends.\<close>

definition read_condition :: "Preprocessor \<Rightarrow> u32 \<Rightarrow> Snippet \<times> Preprocessor" where
  "read_condition P endLine =
     (let beginning = cursor P;
          P = ol_back (set_cursor endLine P);
          rawCond = from_cursor beginning P
      in (rawCond, set_cursor (endLine + 1) P))"

definition handle_if :: "Preprocessor \<Rightarrow> (int \<times> Preprocessor) option" where
  "handle_if P =
     (let P = P\<lparr>currActive := M_If\<rparr>;
          P = ol P;
          endLine = findNext_char LF P
      in if endLine = PCursorMax then Some (-422, P)
         else
           (let (rawCond, P) = read_condition P endLine
            in (case evalCondition P rawCond of
                  None \<Rightarrow> None
                | Some res \<Rightarrow>
                    if res < 0 then Some (res, P)
                    else (let condPassed = odd res;
                              P = push_flags condPassed P
                          in if \<not> condPassed then Some (skip_if_branch P) else Some (0, P)))))"

definition handle_ifndef :: "Preprocessor \<Rightarrow> (int \<times> Preprocessor) option" where
  "handle_ifndef P =
     (let P = P\<lparr>currActive := M_Ifndef\<rparr>;
          P = ol P;
          startName = cursor P;
          P = skip_ident P;
          nameSnippet = from_cursor startName P;
          P = skip_line P
      in (case evalCondition P nameSnippet of
            None \<Rightarrow> None
          | Some res \<Rightarrow>
              (let condPassed = odd res;
                   P = push_flags condPassed P
               in if \<not> condPassed then Some (skip_if_branch P) else Some (0, P))))"

definition handle_else :: "Preprocessor \<Rightarrow> int \<times> Preprocessor" where
  "handle_else P =
     (if branchFlags P = [] then (-400, P)
      else
        (let P = skip_line P;
             flags = hd (branchFlags P)
         in if flags AND EVER_TAKEN \<noteq> 0
            then skip_if_branch (set_flags (flags AND NOT ACTIVE) P)
            else (0, set_flags (ACTIVE OR EVER_TAKEN) P)))"

definition handle_elif :: "Preprocessor \<Rightarrow> (int \<times> Preprocessor) option" where
  "handle_elif P =
     (if branchFlags P = [] then Some (-400, P)
      else
        (let P = P\<lparr>currActive := M_Elif\<rparr>;
             flags = hd (branchFlags P)
         in if flags AND EVER_TAKEN \<noteq> 0
            then Some (skip_if_branch (set_flags (flags AND NOT ACTIVE) P))
            else
              (let P = ol P;
                   endLine = findNext_char LF P
               in if endLine = PCursorMax then Some (-422, P)
                  else
                    (let (rawCond, P) = read_condition P endLine
                     in (case evalCondition P rawCond of
                           None \<Rightarrow> None
                         | Some res \<Rightarrow>
                             if res < 0 then Some (res, P)
                             else (let condPassed = odd res;
                                       P = set_flags (if condPassed then ACTIVE OR EVER_TAKEN else 0) P
                                   in if \<not> condPassed then Some (skip_if_branch P) else Some (0, P)))))))"

definition handle_endif :: "Preprocessor \<Rightarrow> int \<times> Preprocessor" where
  "handle_endif P =
     (if branchFlags P = [] then (-400, P)
      else (0, skip_line (P\<lparr>branchFlags := tl (branchFlags P)\<rparr>)))"

definition handle_skip :: "Preprocessor \<Rightarrow> int \<times> Preprocessor" where
  "handle_skip P =
     (let endLine1 = findNext_char LF P
      in if endLine1 = PCursorMax \<or> ssize P \<le> endLine1 + 1 then (0, set_cursor (ssize P) P)
         else (let P = set_cursor (endLine1 + 1) P;
                   endLine2 = findNext_char LF P
               in if endLine2 = PCursorMax then (0, set_cursor (ssize P) P)
                  else (0, set_cursor (endLine2 + 1) P)))"

definition handle_none :: "Preprocessor \<Rightarrow> int \<times> Preprocessor" where
  "handle_none P = (0, P)"

definition handle_unknown :: "Preprocessor \<Rightarrow> int \<times> Preprocessor" where
  "handle_unknown P = (-404, P)"

section \<open>Parameters\<close>

definition emit :: "string \<Rightarrow> Preprocessor \<Rightarrow> Preprocessor" where
  "emit sv P = P\<lparr>output_buffer := output_buffer P @ sv\<rparr>"

lemma emit_frame [simp]:
  "cursor (emit sv P) = cursor P" "sourceContent (emit sv P) = sourceContent P"
  "file_mgr (emit sv P) = file_mgr P" "storedMacros (emit sv P) = storedMacros P"
  "branchFlags (emit sv P) = branchFlags P" "inputStack (emit sv P) = inputStack P"
  "output_buffer (emit sv P) = output_buffer P @ sv"
  by (simp_all add: emit_def cursor_def sourceContent_def)

text \<open>The loop over the parenthesized type: the depth, or \<open>None\<close> for the return at a newline.\<close>

function paren_loop :: "Preprocessor \<Rightarrow> u16 \<Rightarrow> u16 option \<times> Preprocessor" where
  "paren_loop P parenDepth =
     (if \<not> at_end P \<and> 0 < parenDepth then
        (let c = currChar P;
             advance = set_cursor (cursor P + 1) P
         in if c = CHR ''('' then paren_loop advance (parenDepth + 1)
            else if c = CHR '')'' then
              (if parenDepth - 1 = 0 then (Some 0, P) else paren_loop advance (parenDepth - 1))
            else if c = LF then (None, P)
            else paren_loop advance parenDepth)
      else (Some parenDepth, P))"
  by pat_completeness auto
termination
  by (relation "measure (\<lambda>(P, d). unat (ssize P) - unat (cursor P))") (simp_all add: at_end_def word_left not_le)

declare paren_loop.simps [simp del]

definition param_text :: "string \<Rightarrow> string \<Rightarrow> string \<Rightarrow> string" where
  "param_text typeStr nameStr finalVal =
     ''constexpr ('' @ typeStr @ '') '' @ nameStr @ '' = static_cast<'' @ typeStr @ ''>('' @ finalVal @
     '');'' @ [LF]"

text \<open>The value of a parameter and the state in which its macro, if there is one, is forgotten.\<close>

definition param_value :: "string \<Rightarrow> string \<Rightarrow> Preprocessor \<Rightarrow> string \<times> Preprocessor" where
  "param_value nameStr defaultStr P =
     (if isDefined nameStr P then
        (let def = findDefined nameStr P;
             finalVal = (if has_value def then trim_sv (text_of P (def_content def)) else ''1'')
         in (finalVal, forgetMacro nameStr P))
      else (defaultStr, P))"

definition handle_param :: "Preprocessor \<Rightarrow> int \<times> Preprocessor" where
  "handle_param P =
     (let P = ol P
      in if at_end P \<or> currChar P \<noteq> CHR ''('' then (-400, P)
         else
           (let P = set_cursor (cursor P + 1) P;
                startType = cursor P;
                (parenDepth, P) = paren_loop P 1
            in if parenDepth \<noteq> Some 0 then (-400, P)
               else
                 (let typeStr = trim_sv (text_of P (from_cursor startType P))
                  in if typeStr = [] then (-400, P)
                     else
                       (let P = ol (set_cursor (cursor P + 1) P);
                            startName = cursor P;
                            P = skip_ident P;
                            nameStr = trim_sv (text_of P (from_cursor startName P))
                        in if nameStr = [] then (-400, P)
                           else
                             (let P = ol P
                              in if at_end P \<or> currChar P \<noteq> CHR ''='' then (-400, P)
                                 else
                                   (let P = ol (set_cursor (cursor P + 1) P);
                                        startDef = cursor P;
                                        endLine = findNext_char LF P;
                                        P = set_cursor (if endLine = PCursorMax then ssize P else endLine) P;
                                        defaultStr = trim_sv (text_of P (from_cursor startDef P));
                                        P = (if endLine \<noteq> PCursorMax then set_cursor (cursor P + 1) P else P);
                                        (finalVal, P) = param_value nameStr defaultStr P
                                    in (0, emit (param_text typeStr nameStr finalVal) P)))))))"

section \<open>Dispatch\<close>

definition process_directive ::
  "char \<Rightarrow> (string \<Rightarrow> string option) \<Rightarrow> MacroType \<Rightarrow> Preprocessor \<Rightarrow> (int \<times> Preprocessor) option" where
  "process_directive fill fs type P =
     (case type of
        M_None \<Rightarrow> Some (handle_none P)
      | M_Unknown \<Rightarrow> Some (handle_unknown P)
      | M_Define \<Rightarrow> Some (handle_define P)
      | M_Define_M \<Rightarrow> Some (handle_define_m P)
      | M_Include \<Rightarrow> Some (handle_include fill fs P)
      | M_If \<Rightarrow> handle_if P
      | M_Ifndef \<Rightarrow> handle_ifndef P
      | M_Else \<Rightarrow> Some (handle_else P)
      | M_Elif \<Rightarrow> handle_elif P
      | M_Endif \<Rightarrow> Some (handle_endif P)
      | M_Skip \<Rightarrow> Some (handle_skip P)
      | M_Import \<Rightarrow> Some (handle_import fill fs P)
      | M_Param \<Rightarrow> Some (handle_param P)
      | M_Enddef \<Rightarrow> Some (-1, P))"

section \<open>The main loop\<close>

function literal_loop :: "char \<Rightarrow> Preprocessor \<Rightarrow> Preprocessor" where
  "literal_loop quote P =
     (if cursor P < ssize P then
        (let sc = currChar P;
             P1 = set_cursor (cursor P + 1) (emit [sc] P)
         in if sc = CHR 0x5C \<and> cursor P1 < ssize P1
            then literal_loop quote (set_cursor (cursor P1 + 1) (emit [currChar P1] P1))
            else if sc = quote then P1
            else literal_loop quote P1)
      else P)"
  by pat_completeness auto
termination
proof (relation "measure (\<lambda>(quote, P). unat (ssize P) - unat (cursor P))")
  fix quote P x xa
  assume c: "cursor P < ssize P" and x: "x = currChar P" and xa: "xa = set_cursor (cursor P + 1) (emit [x] P)"
  from c xa show "((quote, xa), quote, P) \<in> measure (\<lambda>(quote, P). unat (ssize P) - unat (cursor P))"
    by (simp add: word_left)
  assume "x = CHR 0x5C \<and> cursor xa < ssize xa"
  then show "((quote, set_cursor (cursor xa + 1) (emit [currChar xa] xa)), quote, P)
      \<in> measure (\<lambda>(quote, P). unat (ssize P) - unat (cursor P))"
    using word_left [of "cursor P + 1" "ssize P"] word_left [OF c] xa by (simp add: add.assoc)
qed simp

declare literal_loop.simps [simp del]

text \<open>One turn of the loop of \<open>process\<close> on a frame that is not finished.\<close>

definition comment_step :: "bool \<Rightarrow> Preprocessor \<Rightarrow> Preprocessor" where
  "comment_step block P =
     (let startComment = cursor P;
          P = (if block then
                 (let P = set_cursor (cursor P + 2) P;
                      endBlock = findNext_seq ''*/'' P
                  in set_cursor (if endBlock = PCursorMax then ssize P else endBlock + 2) P)
               else skip_line_or_end P)
      in emit (text_of P (from_cursor startComment P)) P)"

definition directive_step ::
  "char \<Rightarrow> (string \<Rightarrow> string option) \<Rightarrow> Preprocessor \<Rightarrow> (int \<times> Preprocessor) option" where
  "directive_step fill fs P =
     (let (dirName, P) = read_directive P;
          type = macro_hash_match dirName;
          P = P\<lparr>currActive := type\<rparr>
      in process_directive fill fs type P)"

definition ident_step :: "Preprocessor \<Rightarrow> Preprocessor" where
  "ident_step P =
     (let startIdent = cursor P;
          P = skip_ident P;
          identStr = text_of P (from_cursor startIdent P)
      in if isDefined identStr P then
           (let def = findDefined identStr P
            in if has_value def then emit (text_of P (def_content def)) P else P)
         else emit identStr P)"

text \<open>A negative code ends \<open>process\<close>; the steps that are no directives have the code 0.\<close>

definition process_step ::
  "char \<Rightarrow> (string \<Rightarrow> string option) \<Rightarrow> Preprocessor \<Rightarrow> (int \<times> Preprocessor) option" where
  "process_step fill fs P =
     (if ssize P \<le> cursor P then Some (0, P\<lparr>inputStack := tl (inputStack P)\<rparr>)
      else
        (let c = currChar P
         in if c = CHR ''/'' \<and> cursor P + 1 < ssize P \<and> nextChar P = CHR ''/''
            then Some (0, comment_step False P)
            else if c = CHR ''/'' \<and> cursor P + 1 < ssize P \<and> nextChar P = CHR ''*''
            then Some (0, comment_step True P)
            else if c = CHR 0x22 \<or> c = CHR 0x27
            then Some (0, literal_loop c (set_cursor (cursor P + 1) (emit [c] P)))
            else if c = CHR ''#'' then directive_step fill fs P
            else if is_in IDENT_CHAR_BITMASK (of_char c) then Some (0, ident_step P)
            else Some (0, set_cursor (cursor P + 1) (emit [c] P))))"

text \<open>
  The loop: \<open>None\<close> when it does not return, otherwise the code of the directive that stopped it
  (0 if none did) and the final state.
\<close>

partial_function (option) process ::
  "char \<Rightarrow> (string \<Rightarrow> string option) \<Rightarrow> Preprocessor \<Rightarrow> (int \<times> Preprocessor) option" where
  "process fill fs P =
     (if inputStack P = [] then Some (0, P)
      else (case process_step fill fs P of
              None \<Rightarrow> None
            | Some r \<Rightarrow> if fst r < 0 then Some r else process fill fs (snd r)))"

declare process.simps [code]

end
