(* ===== verification/Preproc_Text.thy ===== *)
theory Preproc_Text
  imports Preproc_Handlers
begin

text \<open>
  The preprocessor on the text of its top frame: \<open>frame_text\<close> is what the frame's snippet reads
  and \<open>rest\<close> what is left from the cursor on. The searches and loops on cursors are stated
  as operations on that text, which is what the results about \<open>process\<close> rest on.
\<close>

section \<open>Frames within the buffer\<close>

definition in_bounds :: "FileManager \<Rightarrow> Snippet \<Rightarrow> bool" where
  "in_bounds m s \<longleftrightarrow> unat (snip_offset s) + unat (snip_size s) \<le> length (fdata m) \<and>
     length (fdata m) < 2 ^ 32"

definition top_ok :: "Preprocessor \<Rightarrow> bool" where
  "top_ok P \<longleftrightarrow> inputStack P \<noteq> [] \<and> in_bounds (file_mgr P) (sourceContent P) \<and> cursor P \<le> ssize P"

definition frame_text :: "Preprocessor \<Rightarrow> string" where
  "frame_text P = text_of P (sourceContent P)"

definition rest :: "Preprocessor \<Rightarrow> string" where
  "rest P = drop (unat (cursor P)) (frame_text P)"

lemma length_snippet_text: "in_bounds m s \<Longrightarrow> length (snippet_text m s) = unat (snip_size s)"
  by (auto simp: in_bounds_def snippet_text_def read_def)

lemma unat_offset_add:
  assumes "in_bounds m s" and "k \<le> snip_size s"
  shows "unat (snip_offset s + k) = unat (snip_offset s) + unat k"
  using assms by (intro unat_add_lt) (simp add: in_bounds_def word_le_nat_alt)

lemma getChar_snippet_text:
  assumes "in_bounds m s" and "k < snip_size s"
  shows "getChar_snippet m s k = snippet_text m s ! unat k"
  using assms unat_offset_add [OF assms(1), of k]
  by (simp add: getChar_snippet_def snippet_text_def read_def in_bounds_def word_less_nat_alt word_le_nat_alt)

lemma length_frame_text [simp]: "top_ok P \<Longrightarrow> length (frame_text P) = unat (ssize P)"
  by (simp add: top_ok_def frame_text_def text_of_def length_snippet_text)

lemma length_rest: "top_ok P \<Longrightarrow> length (rest P) = unat (ssize P) - unat (cursor P)"
  by (simp add: rest_def)

lemma rest_Nil_iff: "top_ok P \<Longrightarrow> rest P = [] \<longleftrightarrow> cursor P = ssize P"
  by (auto simp: rest_def top_ok_def word_le_nat_alt word_unat_eq_iff)

lemma not_end_iff: "top_ok P \<Longrightarrow> cursor P < ssize P \<longleftrightarrow> rest P \<noteq> []"
  by (auto simp: rest_Nil_iff top_ok_def)

lemma currChar_rest: "top_ok P \<Longrightarrow> rest P = c # cs \<Longrightarrow> currChar P = c"
proof -
  assume ok: "top_ok P" and r: "rest P = c # cs"
  then have lt: "cursor P < ssize P" using not_end_iff by simp
  have "frame_text P ! unat (cursor P) = c" using r by (simp add: rest_def drop_eq_Cons_conv)
  then show ?thesis
    using ok lt by (simp add: currChar_def frame_text_def text_of_def getChar_snippet_text top_ok_def)
qed

lemma nextChar_rest: "top_ok P \<Longrightarrow> rest P = c # d # cs \<Longrightarrow> cursor P + 1 < ssize P \<and> nextChar P = d"
proof -
  assume ok: "top_ok P" and r: "rest P = c # d # cs"
  then have lt: "cursor P < ssize P" using not_end_iff by simp
  have len: "Suc (unat (cursor P)) < unat (ssize P)"
    using arg_cong [OF r, of length] ok by (simp add: length_rest)
  then have lt1: "cursor P + 1 < ssize P" using word_below [OF lt] by (simp add: word_less_nat_alt)
  have "drop (Suc (unat (cursor P))) (frame_text P) = d # cs"
    using r by (simp add: rest_def drop_eq_Cons_conv)
  then have "frame_text P ! Suc (unat (cursor P)) = d" by (simp add: drop_eq_Cons_conv)
  then show ?thesis
    using ok lt1 word_below [OF lt]
    by (simp add: nextChar_def frame_text_def text_of_def getChar_snippet_text top_ok_def)
qed

lemma next_below_rest: "top_ok P \<Longrightarrow> rest P = [c] \<Longrightarrow> \<not> cursor P + 1 < ssize P"
proof -
  assume ok: "top_ok P" and r: "rest P = [c]"
  then have lt: "cursor P < ssize P" using not_end_iff by simp
  have "unat (ssize P) - unat (cursor P) = 1" using arg_cong [OF r, of length] ok by (simp add: length_rest)
  then show ?thesis using word_below [OF lt] by (simp add: word_less_nat_alt)
qed

text \<open>Moving the cursor over \<open>n\<close> characters.\<close>

definition move :: "nat \<Rightarrow> Preprocessor \<Rightarrow> Preprocessor" where
  "move n P = set_cursor (cursor P + of_nat n) P"

lemma cursor_move:
  assumes "top_ok P" and "n \<le> length (rest P)"
  shows "unat (cursor (move n P)) = unat (cursor P) + n"
proof -
  have le: "unat (cursor P) + n \<le> unat (ssize P)"
    using assms by (auto simp: length_rest top_ok_def word_le_nat_alt)
  then have "unat (of_nat n :: u32) = n"
    by (intro unat_of_nat_lt) (use unat_u32 [of "ssize P"] in simp)
  moreover have "unat (cursor P + of_nat n) = unat (cursor P) + unat (of_nat n :: u32)"
    by (rule unat_add_lt) (use le unat_u32 [of "ssize P"] calculation in simp)
  ultimately show ?thesis by (simp add: move_def)
qed

lemma move_frame [simp]:
  "file_mgr (move n P) = file_mgr P" "sourceContent (move n P) = sourceContent P"
  "output_buffer (move n P) = output_buffer P" "storedMacros (move n P) = storedMacros P"
  "branchFlags (move n P) = branchFlags P" "currActive (move n P) = currActive P"
  "tl (inputStack (move n P)) = tl (inputStack P)" "frame_text (move n P) = frame_text P"
  by (simp_all add: move_def frame_text_def text_of_def)

lemma move_ok:
  assumes "top_ok P" and "n \<le> length (rest P)"
  shows "top_ok (move n P)" and "rest (move n P) = drop n (rest P)"
proof -
  note c = cursor_move [OF assms]
  have "unat (cursor (move n P)) \<le> unat (ssize P)"
    using assms by (auto simp: c length_rest top_ok_def word_le_nat_alt)
  moreover have "inputStack (move n P) \<noteq> []" by (simp add: move_def set_cursor_def)
  ultimately show "top_ok (move n P)"
    using assms(1) by (simp add: top_ok_def word_le_nat_alt)
  show "rest (move n P) = drop n (rest P)"
    by (simp add: rest_def c add.commute)
qed

lemma set_cursor_move:
  assumes "top_ok P" and "n \<le> length (rest P)" and "unat c = unat (cursor P) + n"
  shows "set_cursor c P = move n P"
proof -
  have "cursor (move n P) = c" using cursor_move [OF assms(1,2)] assms(3) by (simp add: word_unat_eq_iff)
  then show ?thesis by (simp add: move_def)
qed

lemma advance_move: "top_ok P \<Longrightarrow> rest P \<noteq> [] \<Longrightarrow> set_cursor (cursor P + 1) P = move 1 P"
  by (simp add: move_def)

lemma move_0: "top_ok P \<Longrightarrow> move 0 P = P"
  by (cases "inputStack P") (simp_all add: move_def set_cursor_def cursor_def top_ok_def)

lemma move_move: "move a (move b P) = move (b + a) P"
  by (simp add: move_def add.assoc)

section \<open>The searches on the text\<close>

lemma find_loop_text:
  assumes "in_bounds m s" and "cur \<le> snip_size s"
  shows "find_loop p m s cur =
    (let n = length (takeWhile (\<lambda>x. \<not> p x) (drop (unat cur) (snippet_text m s)))
     in if unat cur + n < unat (snip_size s) then cur + of_nat n else PCursorMax)"
  using assms
proof (induction p m s cur rule: find_loop.induct)
  case (1 p m s cur)
  let ?t = "snippet_text m s"
  have len: "length ?t = unat (snip_size s)" using 1 by (simp add: length_snippet_text)
  show ?case
  proof (cases "cur < snip_size s")
    case False
    then have "cur = snip_size s" using 1 by simp
    then show ?thesis using len by (subst find_loop.simps) simp
  next
    case True
    have body: "drop (unat cur) ?t = ?t ! unat cur # drop (Suc (unat cur)) ?t"
      using True len by (simp add: Cons_nth_drop_Suc word_less_nat_alt)
    have ch: "getChar_snippet m s cur = ?t ! unat cur" using 1 True by (simp add: getChar_snippet_text)
    show ?thesis
    proof (cases "p (?t ! unat cur)")
      case p: True
      then show ?thesis using True ch body by (subst find_loop.simps) (simp add: word_less_nat_alt)
    next
      case False
      have "find_loop p m s cur = find_loop p m s (cur + 1)"
        using True False ch by (subst find_loop.simps) simp
      also have "\<dots> = (let n = length (takeWhile (\<lambda>x. \<not> p x) (drop (unat (cur + 1)) ?t))
          in if unat (cur + 1) + n < unat (snip_size s) then cur + 1 + of_nat n else PCursorMax)"
        using True False ch 1 word_Suc_le [OF True] by simp
      finally show ?thesis using body False word_below [OF True]
        by (simp add: Let_def add.assoc)
    qed
  qed
qed

lemma length_takeWhile_drop: "k \<le> length t \<Longrightarrow> k + length (takeWhile p (drop k t)) \<le> length t"
  using length_takeWhile_le [of p "drop k t"] by simp

text \<open>Every search by a predicate, on the rest of the text.\<close>

lemma find_loop_rest:
  assumes "top_ok P" and "r = find_loop p (file_mgr P) (sourceContent P) (cursor P)"
    and "n = length (takeWhile (\<lambda>x. \<not> p x) (rest P))"
  shows "r = (if n < length (rest P) then cursor (move n P) else PCursorMax)"
    and "n < length (rest P) \<Longrightarrow> r \<noteq> PCursorMax"
proof -
  have r: "r = (if unat (cursor P) + n < unat (ssize P) then cursor P + of_nat n else PCursorMax)"
    using assms find_loop_text [of "file_mgr P" "sourceContent P" "cursor P" p]
    by (simp add: top_ok_def rest_def frame_text_def text_of_def)
  moreover have "unat (cursor P) + n < unat (ssize P) \<longleftrightarrow> n < length (rest P)"
    using assms(1) by (auto simp: length_rest)
  ultimately show eq: "r = (if n < length (rest P) then cursor (move n P) else PCursorMax)"
    by (simp add: move_def)
  assume n: "n < length (rest P)"
  then have "unat r < unat (ssize P)"
    using eq assms(1) cursor_move [OF assms(1), of n] by (simp add: length_rest)
  moreover have "unat PCursorMax = 4294967295"
    by (simp add: PCursorMax_def unsigned_minus_1_eq_mask mask_eq_exp_minus_1)
  ultimately show "r \<noteq> PCursorMax" using unat_u32 [of "ssize P"] by auto
qed

text \<open>To the end of the frame when nothing is found.\<close>

lemma cursor_or_end:
  assumes "top_ok P" and "r = find_loop p (file_mgr P) (sourceContent P) (cursor P)"
    and "n = length (takeWhile (\<lambda>x. \<not> p x) (rest P))"
  shows "set_cursor (if r = PCursorMax then ssize P else r) P = move n P"
proof (cases "n < length (rest P)")
  case True
  then show ?thesis using find_loop_rest [OF assms] by (simp add: move_def)
next
  case False
  have "n = length (rest P)"
    using False length_takeWhile_le [of "\<lambda>x. \<not> p x" "rest P"] assms(3) by simp
  then show ?thesis
    using False find_loop_rest(1) [OF assms] assms(1)
    by (simp add: set_cursor_move [of P n "ssize P"] length_rest top_ok_def word_le_nat_alt)
qed

lemma is_in_ident: "is_in IDENT_CHAR_BITMASK (of_char c) \<longleftrightarrow> IS_IDENT_CHAR c"
  by (simp add: is_in_bitmask unat_of_char IS_IDENT_CHAR_conv)

text \<open>Evaluation asks the bit set and does not build the table.\<close>

lemma IS_IDENT_CHAR_code [code]: "IS_IDENT_CHAR c \<longleftrightarrow> is_in IDENT_CHAR_BITMASK (of_char c)"
  by (simp add: is_in_ident)

definition ident_len :: "string \<Rightarrow> nat" where
  "ident_len t = length (takeWhile IS_IDENT_CHAR t)"

lemma skip_ident_move: "top_ok P \<Longrightarrow> skip_ident P = move (ident_len (rest P)) P"
  unfolding skip_ident_def Let_def findNextIdentInv_def findNextInv_def
  by (rule cursor_or_end [OF _ refl]) (simp_all add: ident_len_def is_in_ident)

definition line_len :: "string \<Rightarrow> nat" where
  "line_len t = (let n = length (takeWhile (\<lambda>c. c \<noteq> LF) t) in if n < length t then n + 1 else n)"

lemma line_len_le: "line_len t \<le> length t"
  using length_takeWhile_le [of "\<lambda>c. c \<noteq> LF" t] by (auto simp: line_len_def Let_def)

lemma skip_line_or_end_move: "top_ok P \<Longrightarrow> skip_line_or_end P = move (line_len (rest P)) P"
proof -
  assume ok: "top_ok P"
  let ?n = "length (takeWhile (\<lambda>c. c \<noteq> LF) (rest P))" and ?r = "findNext_char LF P"
  have r: "?r = (if ?n < length (rest P) then cursor (move ?n P) else PCursorMax)"
    "?n < length (rest P) \<Longrightarrow> ?r \<noteq> PCursorMax"
    "set_cursor (if ?r = PCursorMax then ssize P else ?r) P = move ?n P"
    using find_loop_rest [OF ok _ refl, of ?r "\<lambda>x. x = LF"] cursor_or_end [OF ok _ refl, of ?r "\<lambda>x. x = LF"]
    by (simp_all add: findNext_char_def)
  show ?thesis
  proof (cases "?n < length (rest P)")
    case True
    then have "skip_line_or_end P = set_cursor (cursor P + of_nat ?n + 1) P"
      using r(1,2) by (simp add: skip_line_or_end_def move_def)
    then show ?thesis using True by (simp add: move_def line_len_def ac_simps)
  next
    case False
    then show ?thesis using r by (simp add: skip_line_or_end_def line_len_def)
  qed
qed

text \<open>Snippets between two positions of the frame.\<close>

lemma text_between:
  assumes ok: "top_ok P" and n: "n \<le> length (rest P)"
    and s: "snip_offset s = snip_offset (sourceContent P) + cursor P" "unat (snip_size s) = n"
  shows "text_of P s = take n (rest P)"
proof -
  let ?s = "sourceContent P"
  have b: "in_bounds (file_mgr P) ?s" "cursor P \<le> ssize P" using ok by (simp_all add: top_ok_def)
  have o: "unat (snip_offset s) = unat (snip_offset ?s) + unat (cursor P)"
    using s(1) unat_offset_add [OF b] by simp
  have "unat (cursor P) + n \<le> unat (ssize P)"
    using n ok b(2) by (auto simp: length_rest word_le_nat_alt)
  then show ?thesis
    using o s(2)
    by (simp add: text_of_def snippet_text_def read_def rest_def frame_text_def add.commute drop_take
        min_def)
qed

lemma unat_cursor_diff:
  assumes "top_ok P" and "n \<le> length (rest P)"
  shows "unat (cursor (move n P) - cursor P) = n"
  using cursor_move [OF assms] unat_diff_le [of "cursor P" "cursor (move n P)"] by simp

lemma text_of_file: "file_mgr Q = file_mgr P \<Longrightarrow> text_of Q = text_of P"
  by (simp add: text_of_def fun_eq_iff)

lemma text_from:
  assumes "top_ok P" and "n \<le> length (rest P)"
  shows "text_of (move n P) (from_cursor (cursor P) (move n P)) = take n (rest P)"
proof -
  have "text_of P (from_cursor (cursor P) (move n P)) = take n (rest P)"
    using assms by (intro text_between) (simp_all add: from_cursor_def unat_cursor_diff)
  then show ?thesis by (simp add: text_of_file [of "move n P" P])
qed

lemma text_to_end:
  assumes "top_ok P"
  shows "text_of P (to_cursor (ssize P) P) = rest P"
proof -
  have "unat (ssize P - cursor P) = length (rest P)"
    using assms by (simp add: length_rest unat_diff_le top_ok_def word_le_nat_alt)
  then have "text_of P (to_cursor (ssize P) P) = take (length (rest P)) (rest P)"
    by (intro text_between [OF assms order_refl]) (simp_all add: to_cursor_def)
  then show ?thesis by simp
qed

lemma findNext_seq_text:
  assumes ok: "top_ok P"
  shows "findNext_seq sequence P =
    (case sv_find sequence (rest P) of None \<Rightarrow> PCursorMax | Some n \<Rightarrow> cursor (move n P))"
proof (cases "sv_find sequence (rest P)")
  case None
  then show ?thesis using ok by (simp add: findNext_seq_def text_to_end seq_result_def)
next
  case (Some n)
  have "n \<le> length (rest P)" using sv_find_bound [OF Some] by simp
  then have "n + unat (cursor P) \<le> unat (ssize P)"
    using ok by (auto simp: length_rest top_ok_def word_le_nat_alt)
  then have "int (n + unat (cursor P)) \<le> int (unat (ssize P))" by (simp only: of_nat_le_iff)
  then have "int n + uint (cursor P) \<le> uint (ssize P)" by simp
  moreover have "uint (ssize P) \<le> uint PCursorMax" using le_PCursorMax by (simp add: word_le_def)
  ultimately show ?thesis using ok Some by (simp add: findNext_seq_def text_to_end seq_result_def move_def)
qed

definition block_len :: "string \<Rightarrow> nat" where
  "block_len t = (case sv_find ''*/'' (drop 2 t) of None \<Rightarrow> length t | Some n \<Rightarrow> n + 4)"

lemma block_len_le: "block_len t \<le> length t \<or> length t < 2"
  using sv_find_bound [of "''*/''" "drop 2 t"] by (auto simp: block_len_def split: option.splits)

lemma cursor_not_max:
  assumes "top_ok P" and "n < length (rest P)"
  shows "cursor (move n P) \<noteq> PCursorMax"
proof -
  have "unat (cursor (move n P)) < unat (ssize P)"
    using assms cursor_move [of P n] by (simp add: length_rest)
  then show ?thesis using le_PCursorMax [of "ssize P"] by (auto simp: word_le_nat_alt)
qed

text \<open>To the character behind a found sequence, or to the end.\<close>

lemma seq_end_move:
  assumes ok: "top_ok P" and s: "s \<noteq> []" and k: "k = of_nat (length s)"
  shows "set_cursor (if findNext_seq s P = PCursorMax then ssize P else findNext_seq s P + k) P =
    move (case sv_find s (rest P) of None \<Rightarrow> length (rest P) | Some n \<Rightarrow> n + length s) P"
proof (cases "sv_find s (rest P)")
  case None
  then show ?thesis
    using ok by (simp add: findNext_seq_text set_cursor_move [of P "length (rest P)"] length_rest
        top_ok_def word_le_nat_alt)
next
  case (Some n)
  then have "n < length (rest P)" using sv_find_bound [OF Some] s by (cases s) simp_all
  then show ?thesis
    using ok Some cursor_not_max [OF ok] k by (simp add: findNext_seq_text move_def add.assoc)
qed

section \<open>Emitting\<close>

lemma emit_ok [simp]: "top_ok (emit sv P) = top_ok P" "rest (emit sv P) = rest P"
  by (simp_all add: top_ok_def rest_def frame_text_def text_of_def)

lemma move_emit [simp]: "move n (emit sv P) = emit sv (move n P)"
  by (simp add: move_def set_cursor_def emit_def cursor_def)

lemma emit_emit [simp]: "emit t (emit s P) = emit (s @ t) P"
  by (simp add: emit_def)

lemma text_of_emit [simp]: "text_of (emit sv P) s = text_of P s" "text_of (move n P) s = text_of P s"
  by (simp_all add: text_of_def)

fun lit_len :: "char \<Rightarrow> string \<Rightarrow> nat" where
  "lit_len q [] = 0"
| "lit_len q [c] = 1"
| "lit_len q (c # d # t) =
     (if c = CHR 0x5C then 2 + lit_len q t
      else if c = q then 1
      else 1 + lit_len q (d # t))"

lemma lit_len_le: "lit_len q t \<le> length t"
  by (induction q t rule: lit_len.induct) simp_all

lemma literal_loop_text:
  assumes "top_ok P"
  shows "literal_loop q P = emit (take (lit_len q (rest P)) (rest P)) (move (lit_len q (rest P)) P)"
  using assms
proof (induction q "rest P" arbitrary: P rule: lit_len.induct)
  case (1 q)
  then have "\<not> cursor P < ssize P" using not_end_iff by simp
  then show ?case using 1 move_0 [OF 1(2)]
    by (subst literal_loop.simps) (simp add: emit_def flip: 1(1))
next
  case (2 q c)
  note r = 2(1)[symmetric]
  let ?P1 = "emit [c] (move 1 P)"
  have m: "rest ?P1 = []" "top_ok ?P1" using move_ok [OF 2(2), of 1] r by simp_all
  then have e: "\<not> cursor ?P1 < ssize ?P1" using not_end_iff by blast
  have adv: "set_cursor (cursor P + 1) (emit [c] P) = ?P1" using advance_move [of "emit [c] P"] 2(2) r by simp
  have lt: "cursor P < ssize P" using not_end_iff [OF 2(2)] r by simp
  have ch: "currChar P = c" using currChar_rest 2(2) r by blast
  have "literal_loop q P = (if c = q then ?P1 else literal_loop q ?P1)"
    unfolding literal_loop.simps [of q P] Let_def ch adv using lt e by simp
  moreover have "literal_loop q ?P1 = ?P1" using e by (subst literal_loop.simps) simp
  ultimately show ?case using r by simp
next
  case (3 q c d t)
  note r = 3(3)[symmetric] and ok = 3(4)
  let ?P1 = "emit [c] (move 1 P)"
  have m: "rest ?P1 = d # t" "top_ok ?P1" using move_ok [OF ok, of 1] r by simp_all
  let ?P2 = "emit [c, d] (move 2 P)"
  have m2: "rest ?P2 = t" "top_ok ?P2" using move_ok [OF ok, of 2] r by simp_all
  have adv: "set_cursor (cursor P + 1) (emit [c] P) = ?P1" using advance_move [of "emit [c] P"] ok r by simp
  have adv2: "set_cursor (cursor ?P1 + 1) (emit [d] ?P1) = ?P2"
    using advance_move [of "emit [d] ?P1"] m by (simp add: move_move numeral_2_eq_2)
  have lt: "cursor P < ssize P" "cursor ?P1 < ssize ?P1"
    using not_end_iff [OF ok] not_end_iff [OF m(2)] r m(1) by simp_all
  have ch: "currChar P = c" "currChar ?P1 = d" using currChar_rest r m ok by blast+
  have step: "literal_loop q P = (if c = CHR 0x5C then literal_loop q ?P2
      else if c = q then ?P1 else literal_loop q ?P1)"
    unfolding literal_loop.simps [of q P] Let_def ch(1) adv ch(2) adv2 using lt by simp
  show ?case
  proof (cases "c = CHR 0x5C")
    case True
    then show ?thesis using step 3(1) [OF True m2(1)[symmetric] m2(2)] r m2
      by (simp add: move_move)
  next
    case False
    then show ?thesis using step 3(2) [OF False _ m(1)[symmetric] m(2)] r m
      by (simp add: move_move)
  qed
qed

end
