(* ===== verification/Preproc_Expand.thy ===== *)
theory Preproc_Expand
  imports Preproc_Text
begin

text \<open>
  What \<open>process\<close> writes for text without directives: a reference definition on strings that cuts
  the text into comments, literals, words and single characters and replaces the words that are
  macros, and the proof that the loop computes it.
\<close>

section \<open>The reference\<close>

text \<open>The length of the comment, literal, word or character a text starts with.\<close>

fun chunk_len :: "string \<Rightarrow> nat" where
  "chunk_len [] = 0"
| "chunk_len (c # t) =
     (if c = CHR ''/'' \<and> t \<noteq> [] \<and> hd t = CHR ''/'' then line_len (c # t)
      else if c = CHR ''/'' \<and> t \<noteq> [] \<and> hd t = CHR ''*'' then block_len (c # t)
      else if c = CHR 0x22 \<or> c = CHR 0x27 then 1 + lit_len c t
      else if IS_IDENT_CHAR c then ident_len (c # t)
      else 1)"

lemma ident_len_Cons: "IS_IDENT_CHAR c \<Longrightarrow> ident_len (c # t) = Suc (ident_len t)"
  by (simp add: ident_len_def)

lemma ident_len_le: "ident_len t \<le> length t"
  by (simp add: ident_len_def length_takeWhile_le)

lemma chunk_len_pos: "0 < chunk_len (c # t)"
  by (auto simp: line_len_def block_len_def ident_len_Cons Let_def split: option.splits)

lemma chunk_len_le: "chunk_len t \<le> length t"
proof (cases t)
  case (Cons c u)
  then show ?thesis
    using line_len_le [of t] block_len_le [of t] lit_len_le [of c u] ident_len_le [of t]
    by (cases u) auto
qed simp

lemma chunk_drop_less: "t \<noteq> [] \<Longrightarrow> length t - chunk_len t < length t"
  using chunk_len_pos by (cases t) simp_all

definition expand_chunk :: "(string \<Rightarrow> string option) \<Rightarrow> string \<Rightarrow> string" where
  "expand_chunk M w =
     (if w \<noteq> [] \<and> IS_IDENT_CHAR (hd w) then (case M w of Some v \<Rightarrow> v | None \<Rightarrow> w) else w)"

lemma expand_chunk_plain: "\<not> IS_IDENT_CHAR c \<Longrightarrow> expand_chunk M (take n (c # t)) = take n (c # t)"
  by (cases n) (simp_all add: expand_chunk_def)

function expand :: "(string \<Rightarrow> string option) \<Rightarrow> string \<Rightarrow> string" where
  "expand M t =
     (if t = [] then []
      else expand_chunk M (take (chunk_len t) t) @ expand M (drop (chunk_len t) t))"
  by pat_completeness auto
termination
  by (relation "measure (\<lambda>(M, t). length t)") (simp_all add: chunk_drop_less del: chunk_len.simps)

declare expand.simps [simp del]

text \<open>A \<open>#\<close> starts a directive unless it is inside a comment or a literal.\<close>

function no_directive :: "string \<Rightarrow> bool" where
  "no_directive t = (if t = [] then True else hd t \<noteq> CHR ''#'' \<and> no_directive (drop (chunk_len t) t))"
  by pat_completeness auto
termination
  by (relation "measure length") (simp_all add: chunk_drop_less del: chunk_len.simps)

declare no_directive.simps [simp del]

lemma expand_Nil [simp]: "expand M [] = []"
  by (subst expand.simps) simp

lemma no_directive_plain: "CHR ''#'' \<notin> set t \<Longrightarrow> no_directive t"
proof (induction t rule: no_directive.induct)
  case (1 t)
  show ?case
  proof (cases "t = []")
    case False
    then have "hd t \<noteq> CHR ''#''" using 1(2) by (metis hd_in_set)
    moreover have "CHR ''#'' \<notin> set (drop (chunk_len t) t)" using 1(2) by (meson in_set_dropD)
    ultimately show ?thesis using 1(1) False by (subst no_directive.simps) simp
  qed (subst no_directive.simps, simp)
qed

text \<open>Without macros every text is kept as it is.\<close>

lemma expand_empty: "expand Map.empty t = t"
proof (induction t rule: length_induct)
  case (1 t)
  show ?case
  proof (cases "t = []")
    case False
    then have "expand Map.empty (drop (chunk_len t) t) = drop (chunk_len t) t"
      using 1 chunk_drop_less [of t] by simp
    then show ?thesis using False by (subst expand.simps) (simp add: expand_chunk_def)
  qed simp
qed

section \<open>One turn of the loop\<close>

text \<open>What the macros of a state put in the place of a word.\<close>

definition macro_text :: "Preprocessor \<Rightarrow> string \<Rightarrow> string option" where
  "macro_text P w = map_option (\<lambda>d. if has_value d then text_of P (def_content d) else []) (storedMacros P w)"

lemma ident_step_text:
  assumes "top_ok P" and "n = ident_len (rest P)"
  shows "ident_step P =
    emit (case macro_text P (take n (rest P)) of Some v \<Rightarrow> v | None \<Rightarrow> take n (rest P)) (move n P)"
proof -
  have "text_of (move n P) (from_cursor (cursor P) (move n P)) = take n (rest P)"
    using assms ident_len_le by (simp add: text_from del: text_of_emit)
  then show ?thesis
    unfolding ident_step_def Let_def skip_ident_move [OF assms(1), folded assms(2)]
    by (auto simp: macro_text_def isDefined_def findDefined_def emit_def split: option.splits)
qed

lemma comment_step_text:
  assumes ok: "top_ok P" and r: "2 \<le> length (rest P)"
  shows "comment_step b P = (let n = (if b then block_len (rest P) else line_len (rest P))
    in emit (take n (rest P)) (move n P))"
proof (cases b)
  case False
  then show ?thesis
    using text_from [OF ok line_len_le] by (simp add: comment_step_def Let_def skip_line_or_end_move ok)
next
  case True
  let ?P2 = "move 2 P" and ?n = "block_len (rest P)"
  have ok2: "top_ok ?P2" "rest ?P2 = drop 2 (rest P)" using move_ok [OF ok r] by simp_all
  have "set_cursor (if findNext_seq ''*/'' ?P2 = PCursorMax then ssize ?P2 else findNext_seq ''*/'' ?P2 + 2) ?P2
      = move (case sv_find ''*/'' (rest ?P2) of None \<Rightarrow> length (rest ?P2) | Some n \<Rightarrow> n + length ''*/'') ?P2"
    by (rule seq_end_move [OF ok2(1)]) simp_all
  also have "\<dots> = move ?n P"
  proof -
    have "Suc (Suc (length (rest P) - 2)) = length (rest P)" using r by simp
    then show ?thesis using ok2(2) by (simp add: move_move block_len_def eval_nat_numeral split: option.splits)
  qed
  finally have m: "set_cursor (if findNext_seq ''*/'' ?P2 = PCursorMax then ssize ?P2
      else findNext_seq ''*/'' ?P2 + 2) ?P2 = move ?n P" .
  have two: "set_cursor (cursor P + 2) P = ?P2" by (simp add: move_def)
  have n: "?n \<le> length (rest P)" using block_len_le [of "rest P"] r by auto
  show ?thesis
    unfolding comment_step_def Let_def if_P [OF True] two m text_from [OF ok n] ..
qed

lemma process_step_text:
  assumes ok: "top_ok P" and r: "rest P \<noteq> []" and h: "hd (rest P) \<noteq> CHR ''#''"
  shows "process_step fill fs P =
    (let n = chunk_len (rest P)
     in Some (0, emit (expand_chunk (macro_text P) (take n (rest P))) (move n P)))"
proof -
  obtain c t where ct: "rest P = c # t" using r by (cases "rest P") auto
  have lt: "\<not> ssize P \<le> cursor P" using not_end_iff [OF ok] ct by (simp add: not_le)
  have ch: "currChar P = c" using currChar_rest ok ct by blast
  have nx: "cursor P + 1 < ssize P \<and> nextChar P = d \<longleftrightarrow> t \<noteq> [] \<and> hd t = d" for d
    using nextChar_rest [OF ok] next_below_rest [OF ok] ct by (cases t) auto
  have nx': "c = CHR ''/'' \<and> cursor P + 1 < ssize P \<and> nextChar P = d \<longleftrightarrow> c = CHR ''/'' \<and> t \<noteq> [] \<and> hd t = d" for d
    using nx [of d] by blast
  have sl: "\<not> IS_IDENT_CHAR CHR ''/''" "\<not> IS_IDENT_CHAR CHR 0x22" "\<not> IS_IDENT_CHAR CHR 0x27"
    by (simp_all add: IS_IDENT_CHAR_conv ident_6bit_nonzero ident_byte_def)
  have adv: "set_cursor (cursor P + 1) (emit [d] P) = emit [d] (move 1 P)" for d
    using advance_move [of "emit [d] P"] ok ct by simp
  have step: "process_step fill fs P =
     (if c = CHR ''/'' \<and> t \<noteq> [] \<and> hd t = CHR ''/'' then Some (0, comment_step False P)
      else if c = CHR ''/'' \<and> t \<noteq> [] \<and> hd t = CHR ''*'' then Some (0, comment_step True P)
      else if c = CHR 0x22 \<or> c = CHR 0x27 then Some (0, literal_loop c (emit [c] (move 1 P)))
      else if c = CHR ''#'' then directive_step fill fs P
      else if IS_IDENT_CHAR c then Some (0, ident_step P)
      else Some (0, emit [c] (move 1 P)))"
    unfolding process_step_def if_not_P [OF lt] Let_def ch nx' is_in_ident adv ..
  consider (line) "c = CHR ''/''" "t \<noteq> []" "hd t = CHR ''/''" | (block) "c = CHR ''/''" "t \<noteq> []" "hd t = CHR ''*''"
    | (lit) "c = CHR 0x22 \<or> c = CHR 0x27"
    | (word) "IS_IDENT_CHAR c" | (char) "\<not> (c = CHR ''/'' \<and> t \<noteq> [] \<and> (hd t = CHR ''/'' \<or> hd t = CHR ''*''))"
        "\<not> (c = CHR 0x22 \<or> c = CHR 0x27)" "\<not> IS_IDENT_CHAR c"
    by blast
  then show ?thesis
  proof cases
    case line
    then show ?thesis
      using step ct comment_step_text [OF ok, of False] sl by (cases t) (simp_all add: expand_chunk_plain Let_def)
  next
    case block
    then show ?thesis
      using step ct comment_step_text [OF ok, of True] sl by (cases t) (simp_all add: expand_chunk_plain Let_def)
  next
    case lit
    have "literal_loop c (emit [c] (move 1 P)) = emit (c # take (lit_len c t) t) (move (1 + lit_len c t) P)"
      using literal_loop_text [of "emit [c] (move 1 P)" c] move_ok [OF ok, of 1] ct by (simp add: move_move)
    then show ?thesis using step lit ct sl by (auto simp: expand_chunk_def)
  next
    case word
    moreover have "c \<noteq> CHR ''/''" "c \<noteq> CHR 0x22" "c \<noteq> CHR 0x27" using word sl by auto
    ultimately show ?thesis
      using step ct h ident_step_text [OF ok refl] ident_len_Cons [of c t]
      by (simp add: expand_chunk_def split: option.splits)
  next
    case char
    then show ?thesis using step ct h by (auto simp: expand_chunk_def)
  qed
qed

section \<open>The whole loop\<close>

lemma macro_text_frame [simp]: "macro_text (emit sv P) = macro_text P" "macro_text (move n P) = macro_text P"
  by (simp_all add: macro_text_def fun_eq_iff cong: if_cong)

lemma inputStack_emit_move: "inputStack P \<noteq> [] \<Longrightarrow>
  inputStack (emit sv (move n P)) \<noteq> [] \<and> tl (inputStack (emit sv (move n P))) = tl (inputStack P)"
  by (simp add: move_def set_cursor_def)

lemma process_pop:
  assumes "top_ok P" and "rest P = []"
  shows "process fill fs P = process fill fs (P\<lparr>inputStack := tl (inputStack P)\<rparr>)"
proof -
  have "ssize P \<le> cursor P" using assms not_end_iff [of P] by (simp add: not_less)
  moreover have "inputStack P \<noteq> []" using assms(1) by (simp add: top_ok_def)
  ultimately show ?thesis by (subst process.simps) (simp add: process_step_def)
qed

text \<open>The rest of a frame without directives, then the frames below.\<close>

lemma process_plain:
  assumes "top_ok P" and "no_directive (rest P)"
  shows "\<exists>Q. process fill fs P = process fill fs Q \<and> inputStack Q = tl (inputStack P) \<and>
    output_buffer Q = output_buffer P @ expand (macro_text P) (rest P) \<and>
    storedMacros Q = storedMacros P \<and> branchFlags Q = branchFlags P \<and> file_mgr Q = file_mgr P"
  using assms
proof (induction "length (rest P)" arbitrary: P rule: less_induct)
  case less
  show ?case
  proof (cases "rest P = []")
    case True
    then show ?thesis using process_pop [OF less(2), of fill fs]
      by (intro exI [of _ "P\<lparr>inputStack := tl (inputStack P)\<rparr>"]) simp
  next
    case False
    let ?n = "chunk_len (rest P)"
    let ?w = "expand_chunk (macro_text P) (take ?n (rest P))"
    let ?P1 = "emit ?w (move ?n P)"
    have st: "inputStack P \<noteq> []" using less(2) by (simp add: top_ok_def)
    have nd: "hd (rest P) \<noteq> CHR ''#''" "no_directive (drop ?n (rest P))"
      using less(3) False no_directive.simps [of "rest P"] by auto
    have ok1: "top_ok ?P1" "rest ?P1 = drop ?n (rest P)"
      using move_ok [OF less(2) chunk_len_le] by simp_all
    have "process fill fs P = process fill fs ?P1"
      using process_step_text [OF less(2) False nd(1), of fill fs] st
      by (subst process.simps) (simp add: Let_def)
    moreover obtain Q where "process fill fs ?P1 = process fill fs Q" "inputStack Q = tl (inputStack ?P1)"
        "output_buffer Q = output_buffer ?P1 @ expand (macro_text P) (rest ?P1)"
        "storedMacros Q = storedMacros P" "branchFlags Q = branchFlags P" "file_mgr Q = file_mgr P"
      using less(1) [of ?P1] ok1 nd(2) chunk_drop_less [OF False] by auto
    ultimately show ?thesis
      using ok1(2) inputStack_emit_move [OF st] expand.simps [of "macro_text P" "rest P"] False
      by (intro exI [of _ Q]) simp
  qed
qed


end
