(* ===== verification/Preproc_Inv.thy ===== *)
theory Preproc_Inv
  imports Preproc_Expand
begin

text \<open>
  The invariant of the preprocessor and its progress: every frame and every macro lies within the
  buffer, and every turn of \<open>process\<close> finishes a frame, moves on in it or pushes an included
  file. The handlers are shown to move forward in their frame and to touch nothing below it.
\<close>

section \<open>Moving within the top frame\<close>

definition moves :: "Preprocessor \<Rightarrow> Preprocessor \<Rightarrow> bool" where
  "moves P P' \<longleftrightarrow> cursor P \<le> cursor P' \<and> cursor P' \<le> ssize P \<and>
     sourceContent P' = sourceContent P \<and> tl (inputStack P') = tl (inputStack P) \<and> file_mgr P' = file_mgr P"

definition advances :: "Preprocessor \<Rightarrow> Preprocessor \<Rightarrow> bool" where
  "advances P P' \<longleftrightarrow> moves P P' \<and> cursor P < cursor P'"

lemma reaches_moves: "reaches P P' \<Longrightarrow> moves P P'"
  by (simp add: moves_def reaches_fields)

lemma moves_trans: "moves P P' \<Longrightarrow> moves P' P'' \<Longrightarrow> moves P P''"
  by (auto simp: moves_def)

lemma moves_refl: "cursor P \<le> ssize P \<Longrightarrow> moves P P"
  by (simp add: moves_def)

lemma moves_end: "moves P P' \<Longrightarrow> cursor P' \<le> ssize P'"
  by (simp add: moves_def)

lemma advances_moves: "advances P P' \<Longrightarrow> moves P' P'' \<Longrightarrow> advances P P''"
  by (auto simp: advances_def moves_def)

lemma progresses_advances: "progresses P P' \<Longrightarrow> advances P P'"
  by (simp add: progresses_def advances_def reaches_moves)

text \<open>The other fields do not matter.\<close>

lemma top_update [simp]:
  "cursor (P\<lparr>storedMacros := M\<rparr>) = cursor P" "sourceContent (P\<lparr>storedMacros := M\<rparr>) = sourceContent P"
  "cursor (P\<lparr>branchFlags := F\<rparr>) = cursor P" "sourceContent (P\<lparr>branchFlags := F\<rparr>) = sourceContent P"
  "cursor (P\<lparr>currActive := T\<rparr>) = cursor P" "sourceContent (P\<lparr>currActive := T\<rparr>) = sourceContent P"
  "cursor (P\<lparr>file_mgr := m\<rparr>) = cursor P" "sourceContent (P\<lparr>file_mgr := m\<rparr>) = sourceContent P"
  by (simp_all add: cursor_def sourceContent_def)

lemma moves_update [simp]:
  "moves P (Q\<lparr>storedMacros := M\<rparr>) = moves P Q" "moves P (Q\<lparr>branchFlags := F\<rparr>) = moves P Q"
  "moves P (Q\<lparr>currActive := T\<rparr>) = moves P Q" "moves P (emit sv Q) = moves P Q"
  "moves (P\<lparr>branchFlags := F\<rparr>) Q = moves P Q" "moves (P\<lparr>currActive := T\<rparr>) Q = moves P Q"
  by (simp_all add: moves_def)

lemmas moves_intros = reaches_moves [OF ol_reaches] reaches_moves [OF skip_ident_reaches]
  reaches_moves [OF skip_line_reaches] reaches_moves [OF skip_line_or_end_reaches]
  reaches_moves [OF skip_if_branch_reaches]

text \<open>What a code-carrying handler may do to the frame and the macros.\<close>

definition keeps_macros :: "Preprocessor \<Rightarrow> Preprocessor \<Rightarrow> bool" where
  "keeps_macros P P' \<longleftrightarrow> (\<forall>n d. storedMacros P' n = Some d \<longrightarrow>
     storedMacros P n = Some d \<or> (in_bounds (file_mgr P) (sourceContent P) \<longrightarrow> in_bounds (file_mgr P) (def_content d)))"

lemma keeps_macros_same: "storedMacros P' = storedMacros P \<Longrightarrow> keeps_macros P P'"
  by (simp add: keeps_macros_def)

lemma reaches_keeps: "reaches P P' \<Longrightarrow> keeps_macros P P'"
  by (simp add: keeps_macros_same reaches_fields)

section \<open>Definitions of macros\<close>

text \<open>The names of an \<open>&\<close>-separated list: its parts, trimmed, without the blank ones.\<close>

fun split_on :: "char \<Rightarrow> string \<Rightarrow> string list" where
  "split_on q [] = [[]]"
| "split_on q (c # cs) =
     (if c = q then [] # split_on q cs
      else (case split_on q cs of [] \<Rightarrow> [[c]] | w # ws \<Rightarrow> (c # w) # ws))"

definition alias_names :: "string \<Rightarrow> string list" where
  "alias_names s = map trim_sv (filter (\<lambda>w. find_first_not_space w \<noteq> None) (split_on CHR ''&'' s))"

lemma split_on_none: "q \<notin> set t \<Longrightarrow> split_on q t = [t]"
  by (induction t) auto

lemma split_on_some: "q \<in> set t \<Longrightarrow>
  split_on q t = takeWhile (\<lambda>c. c \<noteq> q) t # split_on q (drop (Suc (length (takeWhile (\<lambda>c. c \<noteq> q) t))) t)"
  by (induction t) auto

lemma sv_find_char:
  "sv_find [q] t = (if q \<in> set t then Some (length (takeWhile (\<lambda>c. c \<noteq> q) t)) else None)"
  by (induction t) auto

definition register :: "Defined \<Rightarrow> string \<Rightarrow> Preprocessor \<Rightarrow> Preprocessor" where
  "register d w P = (if find_first_not_space w \<noteq> None then snd (addMacro (trim_sv w) d P) else P)"

lemma register_loop_fold: "register_loop s k d P = fold (register d) (split_on CHR ''&'' (drop k s)) P"
proof (induction "length s - k" arbitrary: k P rule: less_induct)
  case less
  let ?t = "drop k s"
  let ?n = "length (takeWhile (\<lambda>c. c \<noteq> CHR ''&'') ?t)"
  show ?case
  proof (cases "k < length s")
    case False
    then show ?thesis by (subst register_loop.simps) (simp add: register_def find_first_not_space_def)
  next
    case k: True
    show ?thesis
    proof (cases "CHR ''&'' \<in> set ?t")
      case False
      then have "sv_find ''&'' ?t = None" by (simp add: sv_find_char)
      then have "register_loop s k d P = register d ?t P"
        using k by (subst register_loop.simps) (simp add: register_def Let_def)
      then show ?thesis using False by (simp add: split_on_none)
    next
      case True
      then have f: "map_option ((+) k) (sv_find ''&'' ?t) = Some (k + ?n)" by (simp add: sv_find_char)
      have w: "take ?n ?t = takeWhile (\<lambda>c. c \<noteq> CHR ''&'') ?t" by (metis takeWhile_eq_take)
      have eq: "register_loop s k d P =
          register_loop s (k + ?n + 1) d (register d (takeWhile (\<lambda>c. c \<noteq> CHR ''&'') ?t) P)"
        using k by (subst register_loop.simps) (simp add: Let_def f w register_def)
      also have "\<dots> = fold (register d) (split_on CHR ''&'' (drop (k + ?n + 1) s))
          (register d (takeWhile (\<lambda>c. c \<noteq> CHR ''&'') ?t) P)"
        by (rule less) (use k in simp)
      also have "drop (k + ?n + 1) s = drop (Suc ?n) ?t" by (simp add: add.commute)
      finally show ?thesis using split_on_some [OF True] by simp
    qed
  qed
qed

lemma fold_register:
  "fold (register d) ws P =
     P\<lparr>storedMacros := (\<lambda>n. if n \<in> trim_sv ` {w \<in> set ws. find_first_not_space w \<noteq> None} then Some d
                           else storedMacros P n)\<rparr>"
proof (induction ws arbitrary: P)
  case (Cons w ws)
  have "register d w P = P\<lparr>storedMacros := (\<lambda>n. if find_first_not_space w \<noteq> None \<and> n = trim_sv w then Some d
      else storedMacros P n)\<rparr>"
    by (auto simp: register_def addMacro_def fun_upd_def)
  then show ?case by (auto simp: Cons fun_eq_iff intro!: arg_cong2 [where f = storedMacros_update])
qed simp

lemma register_loop_eq:
  "register_loop s 0 d P =
     P\<lparr>storedMacros := (\<lambda>n. if n \<in> set (alias_names s) then Some d else storedMacros P n)\<rparr>"
  by (simp add: register_loop_fold fold_register alias_names_def image_def)

lemma register_loop_moves: "moves P Q \<Longrightarrow> moves P (register_loop s 0 d Q)"
  by (simp add: register_loop_eq)

lemma register_loop_keeps:
  assumes "storedMacros Q = storedMacros P"
    and "in_bounds (file_mgr P) (sourceContent P) \<Longrightarrow> in_bounds (file_mgr P) (def_content d)"
  shows "keeps_macros P (register_loop s 0 d Q)"
  using assms by (auto simp: register_loop_eq keeps_macros_def)

lemma amp_names_loop_reaches: "cursor P \<le> ssize P \<Longrightarrow> reaches P (amp_names_loop P)"
proof (induction P rule: amp_names_loop.induct)
  case (1 P)
  show ?case
  proof (cases "cursor P < ssize P \<and> currChar P = CHR ''&''")
    case False
    then show ?thesis using 1 by (subst amp_names_loop.simps) (auto intro: reaches_refl)
  next
    case True
    let ?Q = "skip_ident (set_cursor (cursor P + 1) P)"
    have p: "progresses P ?Q"
      using True word_Suc_le [of "cursor P" "ssize P"] by (intro progresses_Suc_trans skip_ident_reaches) simp_all
    have "reaches ?Q (amp_names_loop ?Q)" using 1(1) [OF True] progresses_end [OF p] by blast
    then show ?thesis using progresses_trans [OF p] True by (subst amp_names_loop.simps) (simp add: progresses_def)
  qed
qed

lemma names_loop_reaches: "cursor P \<le> ssize P \<Longrightarrow> reaches P (names_loop P)"
proof (induction P rule: names_loop.induct)
  case (1 P)
  let ?P1 = "ol (skip_ident P)"
  have r: "reaches P (skip_ident P)" using 1(2) by (rule skip_ident_reaches)
  then have "cursor (skip_ident P) \<le> ssize (skip_ident P)" using reaches_fields(1,10) by metis
  then have r1: "reaches P ?P1" by (intro reaches_trans [OF r] ol_reaches)
  show ?case
  proof (cases "cursor P < ssize P")
    case False
    then show ?thesis using 1 by (subst names_loop.simps) (simp add: reaches_refl)
  next
    case c: True
    show ?thesis
    proof (cases "cursor ?P1 < ssize ?P1 \<and> currChar ?P1 = CHR ''&''")
      case False
      then have "names_loop P = ?P1" using c by (subst names_loop.simps) (auto simp: Let_def)
      then show ?thesis using r1 by simp
    next
      case True
      let ?Q = "ol (set_cursor (cursor ?P1 + 1) ?P1)"
      have p: "progresses ?P1 ?Q"
        using True word_Suc_le [of "cursor ?P1" "ssize ?P1"] by (intro progresses_Suc_trans ol_reaches) simp_all
      have "reaches ?Q (names_loop ?Q)" using 1(1) [OF c refl True] progresses_end [OF p] by simp
      then have "reaches ?P1 (names_loop ?Q)" using progresses_trans [OF p] by (simp add: progresses_def)
      then show ?thesis using reaches_trans [OF r1] True c by (subst names_loop.simps) (simp add: Let_def)
    qed
  qed
qed

lemma value_loop_result:
  assumes "cursor P \<le> ssize P" and "value_loop P ce = (v, Q)"
  shows "reaches P Q \<and> (v = ce \<or> cursor P \<le> v \<and> v \<le> ssize P)"
  using assms
proof (induction P ce rule: value_loop.induct)
  case (1 P ce)
  define e where "e = findNext_char LF P"
  define l where "l = (if e = PCursorMax then ssize P else e)"
  show ?case
  proof (cases "cursor P < ssize P")
    case False
    then show ?thesis using 1 by (subst (asm) value_loop.simps) (auto intro: reaches_refl)
  next
    case c: True
    have eq: "value_loop P ce = (if has_continuation (text_of P (to_cursor l P)) \<and> e \<noteq> PCursorMax
        then value_loop (set_cursor (e + 1) P) ce
        else (l, if e \<noteq> PCursorMax then set_cursor (l + 1) P else set_cursor l P))"
      unfolding value_loop.simps [of P ce] if_P [OF c] Let_def e_def l_def ..
    have l: "cursor P \<le> l" "l \<le> ssize P"
      using find_result [of e LF P] c by (auto simp: l_def e_def less_imp_le)
    have nl: "progresses P (set_cursor (e + 1) P)" if "e \<noteq> PCursorMax"
      using next_line_progresses that by (simp add: e_def)
    show ?thesis
    proof (cases "has_continuation (text_of P (to_cursor l P)) \<and> e \<noteq> PCursorMax")
      case True
      then have "value_loop (set_cursor (e + 1) P) ce = (v, Q)"
        using 1(3) eq by simp
      then have "reaches (set_cursor (e + 1) P) Q \<and> (v = ce \<or> e + 1 \<le> v \<and> v \<le> ssize P)"
        using 1(1) [OF c e_def l_def refl True] progresses_end [OF nl] True by simp
      then show ?thesis using progresses_trans [OF nl] nl True by (fastforce simp: progresses_def)
    next
      case False
      then have "v = l \<and> Q = (if e \<noteq> PCursorMax then set_cursor (l + 1) P else set_cursor l P)"
        using 1(3) eq by (simp only: if_False prod.inject) auto
      then show ?thesis using l nl reaches_set [OF l] by (auto simp: progresses_def l_def)
    qed
  qed
qed

lemma trim_end_loop_bounds:
  "a \<le> c \<Longrightarrow> a \<le> trim_end_loop m s a c \<and> trim_end_loop m s a c \<le> c"
proof (induction m s a c rule: trim_end_loop.induct)
  case (1 m s a c)
  show ?case
  proof (cases "a < c \<and> blank (getChar_snippet m s (c - 1))")
    case True
    then have "unat (c - 1) = unat c - 1"
      using unat_diff_le [of 1 c] by (simp add: word_less_nat_alt)
    then have "a \<le> c - 1" "c - 1 \<le> c" using True by (auto simp: word_less_nat_alt word_le_nat_alt)
    moreover have "trim_end_loop m s a c = trim_end_loop m s a (c - 1)"
      using True by (subst trim_end_loop.simps) simp
    ultimately show ?thesis using 1(1) True by (metis order_trans)
  next
    case False
    then show ?thesis using 1 by (subst (1 2) trim_end_loop.simps) auto
  qed
qed

lemma sub_in_bounds:
  assumes "in_bounds m s" and "a \<le> b" and "b \<le> snip_size s"
  shows "in_bounds m \<lparr>snip_offset = snip_offset s + a, snip_size = b - a\<rparr>"
  using assms unat_offset_add [of m s a] unat_diff_le [of a b]
  by (simp add: in_bounds_def word_le_nat_alt)

lemma handle_define_moves:
  assumes c: "cursor P \<le> ssize P" and h: "handle_define P = (k, P')"
  shows "moves P P' \<and> keeps_macros P P'"
proof -
  define P1 where "P1 = amp_names_loop (skip_ident (ol P))"
  define P2 where "P2 = ol P1"
  have r0: "reaches P (ol P)" using c by (rule ol_reaches)
  have r1: "reaches P (skip_ident (ol P))"
    by (rule reaches_trans [OF r0 skip_ident_reaches]) (metis r0 reaches_fields(1,10))
  have r2: "reaches P P1" unfolding P1_def
    by (rule reaches_trans [OF r1 amp_names_loop_reaches]) (metis r1 reaches_fields(1,10))
  have r3: "reaches P P2" unfolding P2_def
    by (rule reaches_trans [OF r2 ol_reaches]) (metis r2 reaches_fields(1,10))
  then have c2: "cursor P2 \<le> ssize P2" by (metis reaches_fields(1,10))
  obtain v Q where vl: "value_loop P2 (cursor P2) = (v, Q)" by (cases "value_loop P2 (cursor P2)")
  note vr = value_loop_result [OF c2 vl]
  define ce where "ce = trim_end_loop (file_mgr Q) (sourceContent Q) (cursor P2) v"
  have ce: "cursor P2 \<le> ce" "ce \<le> ssize P2"
    using trim_end_loop_bounds [of "cursor P2" v] vr c2 unfolding ce_def by (auto intro: order_trans)
  have Q: "reaches P Q" using reaches_trans [OF r3] vr by blast
  let ?d = "\<lparr>def_content = \<lparr>snip_offset = snip_offset (sourceContent Q) + cursor P2, snip_size = ce - cursor P2\<rparr>,
    def_t = M_Define, def_flags = 1\<rparr>"
  have "P' = register_loop (text_of P1 (from_cursor (cursor (ol P)) P1)) 0 ?d Q"
    using h by (simp add: handle_define_def Let_def vl flip: P1_def P2_def ce_def)
  moreover have "in_bounds (file_mgr P) (def_content ?d)" if "in_bounds (file_mgr P) (sourceContent P)"
    using sub_in_bounds [OF that, of "cursor P2" ce] ce reaches_fields(1) [OF Q] reaches_fields(1) [OF r3] by simp
  ultimately show ?thesis
    using register_loop_moves [OF reaches_moves [OF Q]] register_loop_keeps [of Q P ?d] reaches_fields(5) [OF Q]
    by blast
qed

lemma handle_define_m_moves:
  assumes c: "cursor P \<le> ssize P" and h: "handle_define_m P = (k, P')"
  shows "moves P P' \<and> keeps_macros P P'"
proof -
  define P1 where "P1 = names_loop (ol P)"
  have r0: "reaches P (ol P)" using c by (rule ol_reaches)
  have r1: "reaches P P1" unfolding P1_def
    by (rule reaches_trans [OF r0 names_loop_reaches]) (metis r0 reaches_fields(1,10))
  then have c1: "cursor P1 \<le> ssize P1" by (metis reaches_fields(1,10))
  define e where "e = findNext_seq ''#enddef'' P1"
  show ?thesis
  proof (cases "e = PCursorMax")
    case True
    then have "P' = P1" using h by (simp add: handle_define_m_def Let_def flip: P1_def e_def)
    then show ?thesis using r1 reaches_moves reaches_keeps by blast
  next
    case False
    have "reaches P1 (set_cursor (e + 7) P1)"
      using seq_end_reaches [OF c1, of 7 "''#enddef''"] False by (simp flip: e_def)
    then have r2: "reaches P (set_cursor (e + 7) P1)" by (rule reaches_trans [OF r1])
    have r3: "reaches P (skip_line (set_cursor (e + 7) P1))"
      by (rule reaches_trans [OF r2 skip_line_reaches]) (metis r2 reaches_fields(1,10))
    have e: "cursor P1 \<le> e" "e \<le> ssize P1"
      using findNext_seq_result [OF c1, of "''#enddef''"] False by (auto simp: e_def word_le_nat_alt)
    let ?d = "\<lparr>def_content = to_cursor e P1, def_t = M_Define_M, def_flags = 1\<rparr>"
    have "\<exists>s. P' = register_loop s 0 ?d (skip_line (set_cursor (e + 7) P1))"
      using h False by (auto simp: handle_define_m_def Let_def simp flip: P1_def e_def)
    moreover have "in_bounds (file_mgr P) (def_content ?d)" if "in_bounds (file_mgr P) (sourceContent P)"
      using sub_in_bounds [OF that, of "cursor P1" e] e reaches_fields(1) [OF r1] by (simp add: to_cursor_def)
    ultimately show ?thesis
      using register_loop_moves [OF reaches_moves [OF r3]] register_loop_keeps [of _ P ?d] reaches_fields(5) [OF r3]
      by blast
  qed
qed

section \<open>Branches\<close>

lemma read_condition_state: "snd (read_condition P e) = set_cursor (e + 1) P"
  using ol_back_set [of "set_cursor e P"] by (auto simp: read_condition_def Let_def)

lemma skip_if_branch_moves:
  assumes "moves P Q" and "(k, P') = skip_if_branch Q"
  shows "moves P P' \<and> storedMacros P' = storedMacros Q \<and> branchFlags P' = branchFlags Q"
proof -
  have "reaches Q P'"
    using skip_if_branch_reaches [OF moves_end [OF assms(1)]] assms(2) by (metis snd_conv)
  then show ?thesis using moves_trans [OF assms(1) reaches_moves] by (simp add: reaches_fields)
qed

lemma push_flags_frame [simp]:
  "moves P (push_flags b Q) = moves P Q" "storedMacros (push_flags b Q) = storedMacros Q"
  "moves P (set_flags f Q) = moves P Q" "storedMacros (set_flags f Q) = storedMacros Q"
  by (simp_all add: push_flags_def set_flags_def)

text \<open>The flags of a branch whose condition has been evaluated.\<close>

definition branch_flags :: "bool \<Rightarrow> u8" where
  "branch_flags b = (if b then ACTIVE OR EVER_TAKEN else 0)"

lemma push_flags_flags [simp]: "branchFlags (push_flags b Q) = branch_flags b # branchFlags Q"
  by (simp add: push_flags_def branch_flags_def)

lemma handle_if_moves:
  assumes c: "cursor P \<le> ssize P" and h: "handle_if P = Some (k, P')"
  shows "moves P P' \<and> storedMacros P' = storedMacros P \<and>
    (0 \<le> k \<longrightarrow> (\<exists>b. branchFlags P' = branch_flags b # branchFlags P))"
proof -
  define P1 where "P1 = ol (P\<lparr>currActive := M_If\<rparr>)"
  define e where "e = findNext_char LF P1"
  have r: "reaches (P\<lparr>currActive := M_If\<rparr>) P1" unfolding P1_def using c by (intro ol_reaches) simp
  have m1: "moves P P1" "storedMacros P1 = storedMacros P" "branchFlags P1 = branchFlags P"
    using reaches_moves [OF r] reaches_fields(5,6) [OF r] by simp_all
  show ?thesis
  proof (cases "e = PCursorMax")
    case True
    then show ?thesis using h m1 by (simp add: handle_if_def Let_def flip: P1_def e_def)
  next
    case False
    obtain rc P2 where rd: "read_condition P1 e = (rc, P2)" by (cases "read_condition P1 e")
    then have P2: "P2 = set_cursor (e + 1) P1" using read_condition_state [of P1 e] by simp
    have m2: "moves P P2" "storedMacros P2 = storedMacros P" "branchFlags P2 = branchFlags P"
      using m1 next_line_progresses [of P1] False P2
      by (auto simp: progresses_def e_def intro: moves_trans reaches_moves)
    obtain res where res: "evalCondition P2 rc = Some res"
      using h False by (cases "evalCondition P2 rc") (simp_all add: handle_if_def Let_def rd flip: P1_def e_def)
    show ?thesis
    proof (cases "res < 0")
      case True
      then show ?thesis using h False res m2 by (simp add: handle_if_def Let_def rd flip: P1_def e_def)
    next
      case pos: False
      let ?P3 = "push_flags (odd res) P2"
      have "(k, P') = (if \<not> odd res then skip_if_branch ?P3 else (0, ?P3))"
        using h False res pos by (auto simp: handle_if_def Let_def rd simp flip: P1_def e_def)
      then show ?thesis
        using skip_if_branch_moves [of P ?P3 k P'] m2 by (cases "odd res") auto
    qed
  qed
qed

lemma handle_ifndef_moves:
  assumes c: "cursor P \<le> ssize P" and h: "handle_ifndef P = Some (k, P')"
  shows "moves P P' \<and> storedMacros P' = storedMacros P \<and> (\<exists>b. branchFlags P' = branch_flags b # branchFlags P)"
proof -
  define P0 where "P0 = ol (P\<lparr>currActive := M_Ifndef\<rparr>)"
  define P1 where "P1 = skip_ident P0"
  define P2 where "P2 = skip_line P1"
  have r0: "reaches (P\<lparr>currActive := M_Ifndef\<rparr>) P0" unfolding P0_def using c by (intro ol_reaches) simp
  have r1: "reaches (P\<lparr>currActive := M_Ifndef\<rparr>) P1" unfolding P1_def
    by (rule reaches_trans [OF r0 skip_ident_reaches]) (metis r0 reaches_fields(1,10))
  have r2: "reaches (P\<lparr>currActive := M_Ifndef\<rparr>) P2" unfolding P2_def
    by (rule reaches_trans [OF r1 skip_line_reaches]) (metis r1 reaches_fields(1,10))
  have m2: "moves P P2" "storedMacros P2 = storedMacros P" "branchFlags P2 = branchFlags P"
    using reaches_moves [OF r2] reaches_fields(5,6) [OF r2] by simp_all
  let ?rc = "from_cursor (cursor P0) P1"
  obtain res where res: "evalCondition P2 ?rc = Some res"
    using h by (cases "evalCondition P2 ?rc") (simp_all add: handle_ifndef_def Let_def flip: P0_def P1_def P2_def)
  let ?P3 = "push_flags (odd res) P2"
  have "(k, P') = (if \<not> odd res then skip_if_branch ?P3 else (0, ?P3))"
    using h res by (auto simp: handle_ifndef_def Let_def simp flip: P0_def P1_def P2_def)
  then show ?thesis
    using skip_if_branch_moves [of P ?P3 k P'] m2 by (cases "odd res") auto
qed

lemma handle_else_moves:
  assumes c: "cursor P \<le> ssize P" and h: "handle_else P = (k, P')"
  shows "moves P P' \<and> storedMacros P' = storedMacros P"
proof -
  have r: "reaches P (skip_line P)" using c by (rule skip_line_reaches)
  then have m: "moves P (skip_line P)" "storedMacros (skip_line P) = storedMacros P"
    by (simp_all add: reaches_moves reaches_fields)
  let ?f = "hd (branchFlags (skip_line P))"
  consider "P' = P" | "P' = set_flags (ACTIVE OR EVER_TAKEN) (skip_line P)"
    | "(k, P') = skip_if_branch (set_flags (?f AND NOT ACTIVE) (skip_line P))"
    using h by (auto simp: handle_else_def Let_def split: if_splits)
  then show ?thesis
    using m moves_refl [OF c] skip_if_branch_moves [of P "set_flags (?f AND NOT ACTIVE) (skip_line P)" k P']
    by cases auto
qed

lemma handle_elif_moves:
  assumes c: "cursor P \<le> ssize P" and h: "handle_elif P = Some (k, P')"
  shows "moves P P' \<and> storedMacros P' = storedMacros P"
proof (cases "branchFlags P = []")
  case True
  then show ?thesis using h moves_refl [OF c] by (simp add: handle_elif_def)
next
  case ne: False
  define P0 where "P0 = P\<lparr>currActive := M_Elif\<rparr>"
  define P1 where "P1 = ol P0"
  define e where "e = findNext_char LF P1"
  have m0: "moves P P0" "storedMacros P0 = storedMacros P" "branchFlags P0 = branchFlags P"
    using c by (simp_all add: P0_def moves_refl)
  have r: "reaches P0 P1" unfolding P1_def using c by (intro ol_reaches) (simp add: P0_def)
  have m1: "moves P P1" "storedMacros P1 = storedMacros P"
    using moves_trans [OF m0(1) reaches_moves [OF r]] reaches_fields(5) [OF r] m0 by simp_all
  show ?thesis
  proof (cases "hd (branchFlags P0) AND EVER_TAKEN \<noteq> 0")
    case True
    then have e: "(k, P') = skip_if_branch (set_flags (hd (branchFlags P0) AND NOT ACTIVE) P0)"
      using h ne by (simp add: handle_elif_def Let_def flip: P0_def)
    then show ?thesis
      using skip_if_branch_moves [OF _ e, of P] m0 by simp
  next
    case nt: False
    show ?thesis
    proof (cases "e = PCursorMax")
      case True
      then show ?thesis using h m1 ne nt by (simp add: handle_elif_def Let_def flip: P0_def P1_def e_def)
    next
      case False
      obtain rc P2 where rd: "read_condition P1 e = (rc, P2)" by (cases "read_condition P1 e")
      then have P2: "P2 = set_cursor (e + 1) P1" using read_condition_state [of P1 e] by simp
      have m2: "moves P P2" "storedMacros P2 = storedMacros P"
        using m1 next_line_progresses [of P1] False P2
        by (auto simp: progresses_def e_def intro: moves_trans reaches_moves)
      obtain res where res: "evalCondition P2 rc = Some res"
        using h ne nt False
        by (cases "evalCondition P2 rc") (simp_all add: handle_elif_def Let_def rd flip: P0_def P1_def e_def)
      show ?thesis
      proof (cases "res < 0")
        case True
        then show ?thesis using h ne nt False res m2
          by (simp add: handle_elif_def Let_def rd flip: P0_def P1_def e_def)
      next
        case pos: False
        let ?P3 = "set_flags (if odd res then ACTIVE OR EVER_TAKEN else 0) P2"
        have "(k, P') = (if \<not> odd res then skip_if_branch ?P3 else (0, ?P3))"
          using h ne nt False res pos
          by (auto simp: handle_elif_def Let_def rd simp flip: P0_def P1_def e_def)
        then show ?thesis
          using skip_if_branch_moves [of P ?P3 k P'] m2 by (cases "odd res") auto
      qed
    qed
  qed
qed

lemma handle_endif_moves:
  assumes c: "cursor P \<le> ssize P" and h: "handle_endif P = (k, P')"
  shows "moves P P' \<and> storedMacros P' = storedMacros P"
proof (cases "branchFlags P = []")
  case False
  let ?P = "P\<lparr>branchFlags := tl (branchFlags P)\<rparr>"
  have r: "reaches ?P (skip_line ?P)" using c by (intro skip_line_reaches) simp
  have "P' = skip_line ?P" using h False by (simp add: handle_endif_def)
  then show ?thesis using reaches_moves [OF r] reaches_fields(5) [OF r] by simp
qed (use h moves_refl [OF c] in \<open>simp add: handle_endif_def\<close>)

lemma handle_skip_moves:
  assumes c: "cursor P \<le> ssize P" and h: "handle_skip P = (k, P')"
  shows "moves P P' \<and> storedMacros P' = storedMacros P"
proof -
  define e where "e = findNext_char LF P"
  let ?P = "set_cursor (e + 1) P"
  have r: "reaches P P'"
  proof (cases "e = PCursorMax \<or> ssize P \<le> e + 1")
    case True
    then have "P' = set_cursor (ssize P) P" using h by (auto simp: handle_skip_def Let_def simp flip: e_def)
    then show ?thesis using c by (simp add: reaches_set)
  next
    case False
    have p: "progresses P ?P" using next_line_progresses [of P] False by (simp add: e_def)
    have "P' = skip_line_or_end ?P"
      using h False by (auto simp: handle_skip_def skip_line_or_end_def Let_def simp flip: e_def split: if_splits)
    then have "reaches ?P P'" using skip_line_or_end_reaches progresses_end [OF p] by simp
    then show ?thesis using progresses_trans [OF p] by (simp add: progresses_def)
  qed
  then show ?thesis by (simp add: reaches_moves reaches_fields)
qed

section \<open>Parameters\<close>

text \<open>
  The depth is a 16-bit counter. As long as the frame holds fewer than 65535 opening parentheses
  it does not wrap, and the loop can only end with depth 0 on a closing parenthesis.
\<close>

definition few_parens :: "string \<Rightarrow> bool" where
  "few_parens t \<longleftrightarrow> count_list t CHR ''('' < 65535"

lemma count_list_append: "count_list (xs @ ys) c = count_list xs c + count_list ys c"
  by (induction xs) simp_all

lemma count_list_drop: "count_list (drop n xs) c \<le> count_list xs c"
  using count_list_append [of "take n xs" "drop n xs" c] by simp

lemma top_ok_advance:
  assumes "top_ok P" and "cursor P < ssize P"
  shows "top_ok (set_cursor (cursor P + 1) P)" and "rest P = currChar P # rest (set_cursor (cursor P + 1) P)"
proof -
  obtain c t where r: "rest P = c # t" using assms not_end_iff by (cases "rest P") auto
  have m: "set_cursor (cursor P + 1) P = move 1 P" by (simp add: move_def)
  show "top_ok (set_cursor (cursor P + 1) P)" using move_ok [OF assms(1), of 1] r m by simp
  show "rest P = currChar P # rest (set_cursor (cursor P + 1) P)"
    using move_ok [OF assms(1), of 1] r m currChar_rest [OF assms(1) r] by simp
qed

lemma paren_loop_result:
  assumes "top_ok P" and "0 < unat d" and "unat d + count_list (rest P) CHR ''('' < 65536"
    and "paren_loop P d = (r, Q)"
  shows "reaches P Q \<and> (r = Some 0 \<longrightarrow> cursor Q < ssize P)"
  using assms
proof (induction P d rule: paren_loop.induct)
  case (1 P d)
  have c: "cursor P \<le> ssize P" using 1 by (simp add: top_ok_def)
  have d0: "0 < d" using 1 by (simp add: word_less_nat_alt)
  show ?case
  proof (cases "at_end P")
    case True
    then show ?thesis using 1 d0 c by (subst (asm) (2) paren_loop.simps) (auto intro: reaches_refl)
  next
    case False
    then have lt: "cursor P < ssize P" by (simp add: at_end_def)
    let ?a = "set_cursor (cursor P + 1) P" and ?ch = "currChar P"
    note p = progresses_Suc [OF lt]
    note ok = top_ok_advance [OF 1(4) lt]
    have step: "reaches P Q \<and> (r = Some 0 \<longrightarrow> cursor Q < ssize P)"
      if "reaches ?a Q \<and> (r = Some 0 \<longrightarrow> cursor Q < ssize ?a)"
      using that progresses_trans [OF p] by (auto simp: progresses_def)
    have eq: "paren_loop P d =
        (if ?ch = CHR ''('' then paren_loop ?a (d + 1)
         else if ?ch = CHR '')'' then (if d - 1 = 0 then (Some 0, P) else paren_loop ?a (d - 1))
         else if ?ch = LF then (None, P) else paren_loop ?a d)"
      using False d0 by (subst paren_loop.simps) (simp add: Let_def)
    have A: "\<not> at_end P \<and> 0 < d" using False d0 by simp
    consider (op) "?ch = CHR ''(''" | (cl0) "?ch = CHR '')''" "d - 1 = 0" | (cl) "?ch = CHR '')''" "d - 1 \<noteq> 0"
      | (nl) "?ch = LF" | (ot) "?ch \<noteq> CHR ''(''" "?ch \<noteq> CHR '')''" "?ch \<noteq> LF" by blast
    then show ?thesis
    proof cases
      case op
      then have "unat (d + 1) = Suc (unat d)"
        using 1(6) ok(2) by (intro unat_Suc_lt [of d 65535]) simp_all
      then have "reaches ?a Q \<and> (r = Some 0 \<longrightarrow> cursor Q < ssize ?a)"
        using 1(1) [OF A refl refl op] ok 1(6,7) op eq by simp
      then show ?thesis by (rule step)
    next
      case cl0
      then have "r = Some 0 \<and> Q = P" using eq 1(7) by auto
      then show ?thesis using lt reaches_refl [OF c] by simp
    next
      case cl
      have u: "unat (d - 1) = unat d - 1" using unat_diff_le [of 1 d] 1(5) by simp
      moreover have "unat (d - 1) \<noteq> 0" using cl(2) by (simp add: unat_eq_zero)
      ultimately have "reaches ?a Q \<and> (r = Some 0 \<longrightarrow> cursor Q < ssize ?a)"
        using 1(2) [OF A refl refl _ cl] ok 1(6,7) cl eq by simp
      then show ?thesis by (rule step)
    next
      case nl
      then have "r = None \<and> Q = P" using eq 1(7) by auto
      then show ?thesis using reaches_refl [OF c] by simp
    next
      case ot
      have "reaches ?a Q \<and> (r = Some 0 \<longrightarrow> cursor Q < ssize ?a)"
        using 1(3) [OF A refl refl ot] ok 1(5,6,7) ot eq by simp
      then show ?thesis by (rule step)
    qed
  qed
qed

lemma ol_stack: "inputStack P \<noteq> [] \<Longrightarrow> inputStack (ol P) \<noteq> []"
proof (induction P rule: ol.induct)
  case (1 P)
  have "inputStack (set_cursor (cursor P + 1) P) \<noteq> []" by (simp add: set_cursor_def)
  then show ?case using 1 by (subst ol.simps) auto
qed

lemma top_ok_reaches: "top_ok P \<Longrightarrow> reaches P Q \<Longrightarrow> inputStack Q \<noteq> [] \<Longrightarrow> top_ok Q"
  by (auto simp: top_ok_def reaches_fields)

lemma reaches_rest_count:
  assumes "top_ok P" and "few_parens (frame_text P)" and "reaches P Q"
  shows "count_list (rest Q) c \<le> count_list (frame_text P) c"
  using assms(3) count_list_drop by (simp add: rest_def frame_text_def text_of_def reaches_fields)

lemma reaches_op:
  assumes "reaches P Q" and "\<And>Q. cursor Q \<le> ssize Q \<Longrightarrow> reaches Q (f Q)"
  shows "reaches P (f Q)"
  by (rule reaches_trans [OF assms]) (metis assms(1) reaches_fields(1,10))

lemma reaches_advance:
  assumes "reaches P Q" and "cursor Q < ssize Q"
  shows "reaches P (set_cursor (cursor Q + 1) Q)"
  using reaches_trans [OF assms(1)] progresses_Suc [OF assms(2)] by (simp add: progresses_def)

lemma param_value_frame:
  "param_value n v P = (w, Q) \<Longrightarrow> \<exists>M. Q = P\<lparr>storedMacros := M\<rparr> \<and> (\<forall>n. M n = storedMacros P n \<or> M n = None)"
  by (auto simp: param_value_def forgetMacro_def Let_def split: if_splits intro!: exI [of _ "storedMacros Q"])

lemma handle_param_moves:
  assumes ok: "top_ok P" and few: "few_parens (frame_text P)" and h: "handle_param P = (k, P')"
  shows "moves P P' \<and> (\<forall>n d. storedMacros P' n = Some d \<longrightarrow> storedMacros P n = Some d)"
proof -
  have fin: ?thesis if "reaches P Q" "P' = Q" for Q
    using that by (simp add: reaches_moves reaches_fields)
  define P1 where "P1 = ol P"
  have r1: "reaches P P1" using ok by (simp add: P1_def ol_reaches top_ok_def)
  show ?thesis
  proof (cases "at_end P1 \<or> currChar P1 \<noteq> CHR ''(''")
    case True
    then have "P' = P1" using h by (auto simp: handle_param_def Let_def simp flip: P1_def)
    then show ?thesis using fin r1 by blast
  next
    case f1: False
    define A where "A = set_cursor (cursor P1 + 1) P1"
    have lt1: "cursor P1 < ssize P1" using f1 by (simp add: at_end_def not_le)
    have rA: "reaches P A" using reaches_advance [OF r1 lt1] by (simp add: A_def)
    have okA: "top_ok A" by (rule top_ok_reaches [OF ok rA]) (simp add: A_def set_cursor_def)
    obtain dep P2 where pl: "paren_loop A 1 = (dep, P2)" by (cases "paren_loop A 1")
    have "count_list (rest A) CHR ''('' < 65535"
      using reaches_rest_count [OF ok few rA, of "CHR ''(''"] few by (simp add: few_parens_def)
    then have pr: "reaches A P2 \<and> (dep = Some 0 \<longrightarrow> cursor P2 < ssize A)"
      using paren_loop_result [OF okA, of 1 dep P2] pl by simp
    then have r2: "reaches P P2" using reaches_trans [OF rA] by blast
    show ?thesis
    proof (cases "dep \<noteq> Some 0 \<or> trim_sv (text_of P2 (from_cursor (cursor A) P2)) = []")
      case True
      then have "P' = P2"
        using h f1 by (auto simp: handle_param_def Let_def pl simp flip: P1_def A_def split: if_splits)
      then show ?thesis using fin r2 by blast
    next
      case f2: False
      then have lt2: "cursor P2 < ssize P2" using pr reaches_fields(1) [of A P2] by auto
      define P3 where "P3 = ol (set_cursor (cursor P2 + 1) P2)"
      define P4 where "P4 = skip_ident P3"
      define P5 where "P5 = ol P4"
      have r3: "reaches P P3" unfolding P3_def by (rule reaches_op [OF reaches_advance [OF r2 lt2] ol_reaches])
      have r4: "reaches P P4" unfolding P4_def by (rule reaches_op [OF r3 skip_ident_reaches])
      have r5: "reaches P P5" unfolding P5_def by (rule reaches_op [OF r4 ol_reaches])
      define nm where "nm = trim_sv (text_of P4 (from_cursor (cursor P3) P4))"
      consider "nm = []" | "nm \<noteq> []" "at_end P5 \<or> currChar P5 \<noteq> CHR ''=''"
        | "nm \<noteq> []" "\<not> (at_end P5 \<or> currChar P5 \<noteq> CHR ''='')" by blast
      then show ?thesis
      proof cases
        case 1
        then have "P' = P4"
          using h f1 f2 by (auto simp: handle_param_def Let_def pl simp flip: P1_def A_def P3_def P4_def nm_def)
        then show ?thesis using fin r4 by blast
      next
        case 2
        then have "P' = P5"
          using h f1 f2
          by (auto simp: handle_param_def Let_def pl simp flip: P1_def A_def P3_def P4_def nm_def P5_def)
        then show ?thesis using fin r5 by blast
      next
        case 3
        then have lt5: "cursor P5 < ssize P5" by (simp add: at_end_def not_le)
        define P6 where "P6 = ol (set_cursor (cursor P5 + 1) P5)"
        have r6: "reaches P P6" unfolding P6_def by (rule reaches_op [OF reaches_advance [OF r5 lt5] ol_reaches])
        define P8 where "P8 = skip_line_or_end P6"
        have r8: "reaches P P8" unfolding P8_def by (rule reaches_op [OF r6 skip_line_or_end_reaches])
        define e where "e = findNext_char LF P6"
        define P7 where "P7 = set_cursor (if e = PCursorMax then ssize P6 else e) P6"
        define dv where "dv = trim_sv (text_of P7 (from_cursor (cursor P6) P7))"
        have P8: "(if e \<noteq> PCursorMax then set_cursor (cursor P7 + 1) P7 else P7) = P8"
          by (simp add: P7_def P8_def skip_line_or_end_def Let_def flip: e_def)
        obtain w Q where pv: "param_value nm dv P8 = (w, Q)" by (cases "param_value nm dv P8")
        have "handle_param P =
            (0, emit (param_text (trim_sv (text_of P2 (from_cursor (cursor A) P2))) nm w) Q)"
          unfolding handle_param_def Let_def P1_def [symmetric] A_def [symmetric] pl prod.case
            P3_def [symmetric] P4_def [symmetric] nm_def [symmetric] P5_def [symmetric] P6_def [symmetric]
            e_def [symmetric] P7_def [symmetric] dv_def [symmetric] P8 pv
          using f1 f2 3 by simp
        then have "\<exists>s. P' = emit s Q" using h by auto
        moreover obtain M where "Q = P8\<lparr>storedMacros := M\<rparr>" "\<forall>n. M n = storedMacros P8 n \<or> M n = None"
          using param_value_frame [OF pv] by blast
        ultimately show ?thesis
          using reaches_moves [OF r8] reaches_fields(5) [OF r8] by (auto, metis option.distinct(1))
      qed
    qed
  qed
qed

section \<open>Inclusion\<close>

text \<open>A successful include moves on in its frame and pushes the contents of the file.\<close>

definition pushes ::
  "char \<Rightarrow> (string \<Rightarrow> string option) \<Rightarrow> (Preprocessor \<Rightarrow> Preprocessor \<Rightarrow> bool) \<Rightarrow>
   Preprocessor \<Rightarrow> Preprocessor \<Rightarrow> bool" where
  "pushes fill fs R P P' \<longleftrightarrow> (\<exists>Q path i m. R P Q \<and> storedMacros Q = storedMacros P \<and>
     length path \<le> length (fdata (file_mgr P)) \<and>
     loadFile fill fs (Some path) (file_mgr P) = (i, m) \<and> snip_size (content i) \<noteq> 0 \<and>
     P' = push_frame (content i) (Q\<lparr>file_mgr := m\<rparr>))"

lemma length_snippet_le: "length (snippet_text m s) \<le> length (fdata m)"
  by (simp add: snippet_text_def read_def)

lemma handle_include_moves:
  assumes c: "cursor P \<le> ssize P" and h: "handle_include fill fs P = (k, P')" and k: "0 \<le> k"
  shows "pushes fill fs moves P P'"
proof -
  define P1 where "P1 = ol P"
  have r1: "reaches P P1" using c by (simp add: P1_def ol_reaches)
  have f1: "\<not> at_end P1 \<and> (currChar P1 = CHR 0x22 \<or> currChar P1 = CHR ''<'')"
    using h k by (auto simp: handle_include_def Let_def simp flip: P1_def split: if_splits)
  then have lt1: "cursor P1 < ssize P1" by (simp add: at_end_def not_le)
  define q where "q = (if currChar P1 = CHR 0x22 then CHR 0x22 else CHR ''>'')"
  define P2 where "P2 = set_cursor (cursor P1 + 1) P1"
  have r2: "reaches P P2" using reaches_advance [OF r1 lt1] by (simp add: P2_def)
  obtain s P3 where rd: "readToNext q P2 = (s, P3)" by (cases "readToNext q P2")
  have f2: "snip_offset s \<noteq> snip_offset SNIPPET_SENT"
    using h k f1 by (auto simp: handle_include_def Let_def rd simp flip: P1_def q_def P2_def split: if_splits)
  then have n: "findNext_char q P2 \<noteq> PCursorMax" and P3: "P3 = set_cursor (findNext_char q P2) P2"
    using rd by (auto simp: readToNext_def Let_def split: if_splits)
  have fr: "cursor P2 \<le> findNext_char q P2" "findNext_char q P2 < ssize P2"
    using find_result n by blast+
  have r3: "reaches P P3" using reaches_trans [OF r2 reaches_set [OF fr(1) less_imp_le [OF fr(2)]]] P3 by simp
  have lt3: "cursor P3 < ssize P3" using fr P3 by simp
  define P4 where "P4 = skip_line (set_cursor (cursor P3 + 1) P3)"
  have r4: "reaches P P4" unfolding P4_def by (rule reaches_op [OF reaches_advance [OF r3 lt3] skip_line_reaches])
  define path where "path = text_of P4 s"
  obtain i m where ld: "loadFile fill fs (Some path) (file_mgr P4) = (i, m)"
    by (cases "loadFile fill fs (Some path) (file_mgr P4)")
  define P5 where "P5 = P4\<lparr>file_mgr := m\<rparr>"
  have lv: "loadView fill fs path P4 = (content i, P5)" by (simp add: loadView_def ld P5_def)
  have "snip_size (content i) \<noteq> 0 \<and> P' = push_frame (content i) P5"
    using h k f1 f2 lv
    by (auto simp: handle_include_def Let_def rd simp flip: P1_def q_def P2_def P4_def path_def split: if_splits)
  moreover have "length path \<le> length (fdata (file_mgr P))"
    using length_snippet_le [of "file_mgr P4" s] by (simp add: path_def text_of_def reaches_fields [OF r4])
  ultimately show ?thesis
    using reaches_moves [OF r4] reaches_fields(2,5) [OF r4] ld
    unfolding pushes_def P5_def by (intro exI [of _ P4] exI [of _ path] exI [of _ i] exI [of _ m]) simp
qed

section \<open>One turn of the loop\<close>

lemma keeps_subset:
  "\<forall>n d. storedMacros P' n = Some d \<longrightarrow> storedMacros P n = Some d \<Longrightarrow> keeps_macros P P'"
  by (auto simp: keeps_macros_def)

lemma process_directive_moves:
  assumes ok: "top_ok P" and few: "few_parens (frame_text P)"
    and h: "process_directive fill fs type P = Some (k, P')" and k: "0 \<le> k"
  shows "moves P P' \<and> keeps_macros P P' \<or> pushes fill fs moves P P'"
proof -
  have c: "cursor P \<le> ssize P" using ok by (simp add: top_ok_def)
  show ?thesis
  proof (cases type)
    case M_None
    then show ?thesis using h moves_refl [OF c] by (simp add: process_directive_def handle_none_def keeps_macros_same)
  next
    case M_Define
    then show ?thesis using h handle_define_moves [OF c] by (simp add: process_directive_def)
  next
    case M_Define_M
    then show ?thesis using h handle_define_m_moves [OF c] by (simp add: process_directive_def)
  next
    case M_Include
    then show ?thesis using h k handle_include_moves [OF c] by (simp add: process_directive_def)
  next
    case M_Import
    then show ?thesis using h k handle_include_moves [OF c] by (simp add: process_directive_def handle_import_def)
  next
    case M_If
    then show ?thesis using h handle_if_moves [OF c] by (simp add: process_directive_def keeps_macros_same)
  next
    case M_Ifndef
    then show ?thesis using h handle_ifndef_moves [OF c] by (simp add: process_directive_def keeps_macros_same)
  next
    case M_Else
    then show ?thesis using h handle_else_moves [OF c] by (simp add: process_directive_def keeps_macros_same)
  next
    case M_Elif
    then show ?thesis using h handle_elif_moves [OF c] by (simp add: process_directive_def keeps_macros_same)
  next
    case M_Endif
    then show ?thesis using h handle_endif_moves [OF c] by (simp add: process_directive_def keeps_macros_same)
  next
    case M_Skip
    then show ?thesis using h handle_skip_moves [OF c] by (simp add: process_directive_def keeps_macros_same)
  next
    case M_Param
    then show ?thesis using h handle_param_moves [OF ok few] by (simp add: process_directive_def keeps_subset)
  qed (use h k in \<open>simp_all add: process_directive_def handle_unknown_def\<close>)
qed

text \<open>The three things a turn can do.\<close>

definition pops :: "Preprocessor \<Rightarrow> Preprocessor \<Rightarrow> bool" where
  "pops P P' \<longleftrightarrow> P' = P\<lparr>inputStack := tl (inputStack P)\<rparr>"

lemma process_step_cases:
  assumes ok: "top_ok P" and few: "few_parens (frame_text P)"
    and h: "process_step fill fs P = Some (k, P')" and k: "0 \<le> k"
  shows "pops P P' \<or> advances P P' \<and> keeps_macros P P' \<or>
    pushes fill fs advances P P'"
proof (cases "rest P")
  case Nil
  then have "ssize P \<le> cursor P" using ok not_end_iff [of P] by (simp add: not_less)
  then show ?thesis using h by (simp add: process_step_def pops_def)
next
  case (Cons c t)
  then have lt: "cursor P < ssize P" using ok not_end_iff by simp
  show ?thesis
  proof (cases "c = CHR ''#''")
    case False
    let ?n = "chunk_len (rest P)"
    have "P' = emit (expand_chunk (macro_text P) (take ?n (rest P))) (move ?n P)"
      using process_step_text [OF ok] Cons False h by (simp add: Let_def del: chunk_len.simps)
    moreover have "unat (cursor (move ?n P)) = unat (cursor P) + ?n" "top_ok (move ?n P)"
      using cursor_move [OF ok chunk_len_le] move_ok [OF ok chunk_len_le] by blast+
    moreover have "0 < ?n" using chunk_len_pos [of c t] Cons by (simp del: chunk_len.simps)
    ultimately have "advances P P'"
      by (simp add: advances_def moves_def top_ok_def word_le_nat_alt word_less_nat_alt del: chunk_len.simps)
    then show ?thesis using \<open>P' = _\<close> by (simp add: keeps_macros_same)
  next
    case True
    have ch: "currChar P = c" using currChar_rest [OF ok Cons] .
    obtain nm Q where rd: "read_directive P = (nm, Q)" by (cases "read_directive P")
    have p: "progresses P Q" using read_directive_progresses [OF lt] rd by simp
    then have r: "reaches P Q" "cursor P < cursor Q" by (simp_all add: progresses_def)
    define Q1 where "Q1 = Q\<lparr>currActive := macro_hash_match nm\<rparr>"
    have sl: "\<not> IS_IDENT_CHAR CHR ''#''" by (simp add: IS_IDENT_CHAR_conv ident_6bit_nonzero ident_byte_def)
    have d: "process_directive fill fs (macro_hash_match nm) Q1 = Some (k, P')"
    proof -
      have nle: "\<not> ssize P \<le> cursor P" using lt by simp
      have "process_step fill fs P = directive_step fill fs P"
        unfolding process_step_def if_not_P [OF nle] Let_def ch True by simp
      then show ?thesis using h by (simp add: directive_step_def rd Q1_def Let_def)
    qed
    have "inputStack Q \<noteq> []" using rd by (auto simp: read_directive_def skip_ident_def set_cursor_def Let_def)
    then have ok1: "top_ok Q1" using top_ok_reaches [OF ok r(1)] by (simp add: Q1_def top_ok_def)
    have "frame_text Q1 = frame_text P"
      by (simp add: Q1_def frame_text_def text_of_def reaches_fields [OF r(1)])
    then have res: "moves Q1 P' \<and> keeps_macros Q1 P' \<or> pushes fill fs moves Q1 P'"
      using process_directive_moves [OF ok1 _ d k] few by simp
    have "advances P Q1" using progresses_advances [OF p] by (simp add: Q1_def advances_def)
    moreover have "keeps_macros Q1 P' \<longleftrightarrow> keeps_macros P P'"
      by (simp add: keeps_macros_def Q1_def reaches_fields [OF r(1)])
    moreover have "pushes fill fs advances P P'" if "pushes fill fs moves Q1 P'"
      using that advances_moves [OF \<open>advances P Q1\<close>] reaches_fields(2,5) [OF r(1)]
      unfolding pushes_def by (fastforce simp: Q1_def)
    ultimately show ?thesis using res advances_moves by blast
  qed
qed

end
