(* ===== verification/Preproc_Props.thy ===== *)
theory Preproc_Props
  imports Preproc_Expand
begin

text \<open>
  Results about the preprocessor as a whole: from a file to the output, conditions, the
  registration of macros, and concrete runs that show how conditional branches behave.
\<close>

section \<open>From a file to the output\<close>

lemma init_loaded:
  fixes fill :: char and lvl :: PreprocLogLevel
  assumes "fs (full_path base (c_str p)) = Some bytes"
    and "length (c_str p) + 1 + length bytes < 2 ^ 32"
  defines "P \<equiv> init_preprocessor fill fs base (Some p) lvl"
  shows "top_ok P" and "rest P = normalize bytes" and "tl (inputStack P) = []"
    and "storedMacros P = Map.empty" and "output_buffer P = []"
proof -
  let ?start = "init_manager base" and ?f = "(c_str p, normalize bytes)"
  let ?m = "?start\<lparr>fdata := entry ?f, loaded := [info_at 0 ?f]\<rparr>"
  have nf: "findFile ?start (Some (c_str p)) = NOT_FOUND" by (simp add: findFile_def init_manager_def)
  have m0: "src_path ?start = base" "fdata ?start = []" "loaded ?start = []" by (simp_all add: init_manager_def)
  have l: "loadFile fill fs (Some p) ?start = (info_at 0 ?f, ?m)"
    using loadFile_new [of ?start p fs bytes fill, OF nf] assms(1,2) by (simp add: m0 Let_def)
  have P: "P = init_preprocessor_info base (info_at 0 ?f) lvl\<lparr>file_mgr := ?m\<rparr>"
    unfolding P_def init_preprocessor_def l by simp
  have len: "length (entry ?f) < 2 ^ 32" using assms(2) length_normalize_le [of bytes] by simp
  have c: "sourceContent P = content (info_at 0 ?f)" "cursor P = 0" "file_mgr P = ?m" "inputStack P \<noteq> []"
    by (simp_all add: P init_preprocessor_info_def sourceContent_def cursor_def)
  have u: "unat (of_nat (length (c_str p)) + 1 + (0 :: u32)) = length (c_str p) + 1"
    "unat (of_nat (length (normalize bytes)) :: u32) = length (normalize bytes)"
    using unat_entry_size [of "length (c_str p)" 0] len by (simp_all add: unat_of_nat_lt)
  show ok: "top_ok P"
    using len u by (simp add: top_ok_def c in_bounds_def content_def info_at_def)
  have "frame_text P = normalize bytes"
    using read_entry(2) [of ?m "[]" ?f "[]"] len
    by (simp add: frame_text_def text_of_def c file_text_def)
  then show "rest P = normalize bytes" by (simp add: rest_def c)
  show "tl (inputStack P) = []" "storedMacros P = Map.empty" "output_buffer P = []"
    by (simp_all add: P init_preprocessor_info_def)
qed

text \<open>
  A file without directives comes out of the preprocessor as it went in, except for its
  line ends: \<open>process\<close> returns with code 0 and the output is the normalized contents.
\<close>

theorem preprocess_plain_file:
  assumes "fs (full_path base (c_str p)) = Some bytes"
    and "length (c_str p) + 1 + length bytes < 2 ^ 32" and "no_directive (normalize bytes)"
  shows "\<exists>Q. process fill fs (init_preprocessor fill fs base (Some p) lvl) = Some (0, Q) \<and>
    get_result Q = normalize bytes"
proof -
  note i = init_loaded [where fs = fs and base = base and p = p and bytes = bytes and fill = fill and lvl = lvl,
      OF assms(1,2)]
  let ?P = "init_preprocessor fill fs base (Some p) lvl"
  obtain Q where "process fill fs ?P = process fill fs Q" "inputStack Q = []"
      "output_buffer Q = expand (macro_text ?P) (normalize bytes)"
    using process_plain [OF i(1), of fill fs] i assms(3) by auto
  moreover have "macro_text ?P = Map.empty" by (simp add: macro_text_def i(4) fun_eq_iff)
  moreover have "process fill fs Q = Some (0, Q)" by (subst process.simps) (simp add: calculation)
  ultimately show ?thesis by (simp add: get_result_def expand_empty)
qed

text \<open>
  A root file that cannot be opened is no error for the preprocessor: it returns with code 0
  and an empty output.
\<close>

theorem missing_root_file_silent:
  assumes "fs (full_path base (c_str p)) = None"
  shows "\<exists>Q. process fill fs (init_preprocessor fill fs base (Some p) lvl) = Some (0, Q) \<and> get_result Q = []"
proof -
  let ?P = "init_preprocessor fill fs base (Some p) lvl"
  have "loadFile fill fs (Some p) (init_manager base) = (NOT_FOUND, init_manager base)"
    using assms by (simp add: loadFile_def init_manager_def findFile_def Let_def)
  then have "?P = init_preprocessor_info base NOT_FOUND lvl"
    by (simp add: init_preprocessor_def init_preprocessor_info_def)
  then show ?thesis
    by (subst process.simps, subst process.simps)
      (simp add: init_preprocessor_info_def process_step_def cursor_def sourceContent_def content_def
        NOT_FOUND_def get_result_def)
qed

section \<open>Conditions\<close>

lemma trim_sv_conv: "trim_sv s = rev (dropWhile space (rev (dropWhile space s)))"
proof (cases "dropWhile space s")
  case Nil
  then have "length (takeWhile space s) = length s" by (metis takeWhile_dropWhile_id append_Nil2)
  then have "find_first_not_space s = None" by (simp only: find_first_not_space_def Let_def) simp
  then show ?thesis by (simp add: trim_sv_def Nil)
next
  case (Cons c u)
  let ?b = "length (takeWhile space s)" and ?e = "length (dropWhile space (rev s))"
  have s: "s = takeWhile space s @ c # u" by (metis Cons takeWhile_dropWhile_id)
  have nc: "\<not> space c" using Cons hd_dropWhile [of space s] by simp
  have rev_s: "rev s = rev (c # u) @ rev (takeWhile space s)" by (subst s) simp
  have ex: "\<exists>x \<in> set (rev (c # u)). \<not> space x" using nc by auto
  then have dw: "dropWhile space (rev s) = dropWhile space (rev (c # u)) @ rev (takeWhile space s)"
    by (subst rev_s) (auto simp: dropWhile_append)
  have len: "length (dropWhile space (rev (c # u))) \<noteq> 0" using ex by auto
  let ?v = "rev (dropWhile space (rev (c # u)))"
  have "c # u = ?v @ rev (takeWhile space (rev (c # u)))"
    by (metis rev_append rev_rev_ident takeWhile_dropWhile_id)
  then have v: "take (length ?v) (c # u) = ?v" by (metis append_eq_conv_conj)
  have b: "?b < length s" "drop ?b s = c # u" using s by (metis length_append add_less_same_cancel1
        append_eq_conv_conj length_Cons less_add_same_cancel1 zero_less_Suc)+
  have e: "0 < ?e" "?e - 1 - ?b + 1 = length ?v" using dw len by simp_all
  show ?thesis
    using b e v Cons by (simp add: trim_sv_def find_first_not_space_def find_last_not_space_def Let_def)
qed

lemma trim_sv_not_Nil: "trim_sv s \<noteq> [] \<Longrightarrow> find_first_not_space s \<noteq> None"
  by (cases "find_first_not_space s") (simp_all add: trim_sv_def)


text \<open>
  A macro whose value is its own name makes \<open>#if\<close> on it recurse without end.
\<close>

lemma self_macro_condition_diverges:
  assumes "storedMacros P n = Some d" and "has_value d" and "trim_sv (text_of P (def_content d)) = n"
    and "n \<notin> {[], ''0'', ''1'', ''true'', ''false''}"
    and "sv_find ''=='' n = None" and "sv_find ''!='' n = None"
    and "currActive P = M_If \<or> currActive P = M_Elif"
  shows "evalCondition P (def_content d) = None"
proof -
  have fns: "find_first_not_space (text_of P (def_content d)) \<noteq> None"
    by (rule trim_sv_not_Nil) (use assms(3,4) in simp)
  have "(Q, c) \<noteq> (P, def_content d)" if "evalCondition Q c = Some r" for Q c r
  proof (rule evalCondition.raw_induct [OF _ that, of "\<lambda>x _. x \<noteq> (P, def_content d)"], goal_cases)
    case (1 f Q c r)
    show ?case
    proof
      assume eq: "(Q, c) = (P, def_content d)"
      have "f P (def_content d) = Some r"
        using 1(2) eq assms fns by (auto simp: Let_def isDefined_def findDefined_def split: if_splits)
      then show False using 1(1) by blast
    qed
  qed
  then show ?thesis by (cases "evalCondition P (def_content d)") auto
qed

section \<open>Concrete runs\<close>

text \<open>The preprocessor on one file \<open>a\<close>: the code and the output.\<close>

definition run_preprocessor :: "string \<Rightarrow> (int \<times> string) option" where
  "run_preprocessor src =
     (let fs = (\<lambda>q. if q = ''a'' then Some src else None)
      in map_option (\<lambda>(k, P). (k, get_result P))
           (process CHR ''?'' fs (init_preprocessor CHR ''?'' fs None (Some ''a'') Log_Off)))"

text \<open>
  \<open>skip_if_branch\<close> consumes the \<open>#endif\<close> of a branch that is not taken but leaves its flags on
  the stack: the next \<open>#else\<close> is matched with the closed branch, so that both sides of the
  surrounding \<open>#if 1\<close> are put out.
\<close>

lemma closed_branch_takes_else:
  "run_preprocessor (''#if 1'' @ [LF] @ ''#if 0'' @ [LF] @ ''#endif'' @ [LF] @ ''A'' @ [LF] @
      ''#else'' @ [LF] @ ''B'' @ [LF] @ ''#endif'' @ [LF]) = Some (0, ''A'' @ [LF] @ ''B'' @ [LF])"
  by code_simp

text \<open>
  After a branch that is not taken the condition of its \<open>#elif\<close> is never evaluated: skipping
  stops behind the word \<open>#elif\<close>, and the condition itself is put out with the branch, here for a
  false condition.
\<close>

lemma elif_condition_not_evaluated:
  "run_preprocessor (''#if 0'' @ [LF] @ ''A'' @ [LF] @ ''#elif 0'' @ [LF] @ ''B'' @ [LF] @ ''#endif'' @ [LF])
     = Some (0, '' 0'' @ [LF] @ ''B'' @ [LF])"
  by code_simp

section \<open>Instances\<close>

lemma c_str_a: "c_str ''a'' = ''a''"
  by (simp add: c_str_def)

theorem preprocess_plain_file_witness:
  "\<exists>Q. process CHR ''?'' (\<lambda>_. Some ''u /*#*/ v'') (init_preprocessor CHR ''?'' (\<lambda>_. Some ''u /*#*/ v'') None
     (Some ''a'') Log_Off) = Some (0, Q) \<and> get_result Q = ''u /*#*/ v''"
proof -
  have "normalize ''u /*#*/ v'' = ''u /*#*/ v''" by (intro normalize_id) simp
  moreover have "no_directive ''u /*#*/ v''" by code_simp
  ultimately show ?thesis
    using preprocess_plain_file [of "\<lambda>_. Some ''u /*#*/ v''" None "''a''" "''u /*#*/ v''" "CHR ''?''" Log_Off]
    by (simp add: c_str_a)
qed

theorem missing_root_file_silent_witness:
  "\<exists>Q. process CHR ''?'' (\<lambda>_. None) (init_preprocessor CHR ''?'' (\<lambda>_. None) None (Some ''a'') Log_Off)
     = Some (0, Q) \<and> get_result Q = []"
  by (rule missing_root_file_silent) simp

text \<open>A state with the macro \<open>N\<close>, whose value is the text \<open>12\<close> at the start of the file.\<close>

definition example_state :: Preprocessor where
  "example_state = (init_preprocessor CHR ''?'' (\<lambda>_. Some ''12 N'') None (Some ''a'') Log_Off)
     \<lparr>storedMacros := [''N'' \<mapsto> \<lparr>def_content = \<lparr>snip_offset = 2, snip_size = 2\<rparr>, def_t = M_Define, def_flags = 1\<rparr>]\<rparr>"

lemma example_state_ok: "top_ok example_state" "rest example_state = ''12 N''" "tl (inputStack example_state) = []"
proof -
  let ?P = "init_preprocessor CHR ''?'' (\<lambda>_. Some ''12 N'') None (Some ''a'') Log_Off"
  have i: "top_ok ?P" "rest ?P = normalize ''12 N''" "tl (inputStack ?P) = []"
    by (rule init_loaded [of "\<lambda>_. Some ''12 N''" None "''a''" "''12 N''"]; simp add: c_str_a)+
  have f: "cursor example_state = cursor ?P" "sourceContent example_state = sourceContent ?P"
    "file_mgr example_state = file_mgr ?P" "inputStack example_state = inputStack ?P"
    by (simp_all add: example_state_def cursor_def sourceContent_def)
  have "rest example_state = rest ?P" by (simp add: rest_def frame_text_def text_of_def f)
  moreover have "normalize ''12 N'' = ''12 N''" by (intro normalize_id) simp
  ultimately show "top_ok example_state" "rest example_state = ''12 N''" "tl (inputStack example_state) = []"
    using i by (simp_all add: top_ok_def f)
qed



end
