(* ===== verification/Preproc_Safe.thy ===== *)
theory Preproc_Safe
  imports Preproc_Inv Preproc_Props
begin

text \<open>
  The invariant of the preprocessor over whole runs, by induction on the reachable states, and
  what it takes for \<open>process\<close> not to return.
\<close>

section \<open>The invariant\<close>

definition mgr_ok :: "FileManager \<Rightarrow> bool" where
  "mgr_ok m \<longleftrightarrow> length (fdata m) < 2 ^ 32 \<and>
     (\<forall>i \<in> set (loaded m). in_bounds m (content i) \<and> few_parens (snippet_text m (content i)))"

definition frame_ok :: "FileManager \<Rightarrow> SourceFrame \<Rightarrow> bool" where
  "frame_ok m f \<longleftrightarrow> in_bounds m (frame_content f) \<and> frame_cursor f \<le> snip_size (frame_content f) \<and>
     few_parens (snippet_text m (frame_content f))"

definition preproc_ok :: "Preprocessor \<Rightarrow> bool" where
  "preproc_ok P \<longleftrightarrow> mgr_ok (file_mgr P) \<and> (\<forall>f \<in> set (inputStack P). frame_ok (file_mgr P) f) \<and>
     (\<forall>n d. storedMacros P n = Some d \<longrightarrow> in_bounds (file_mgr P) (def_content d))"

text \<open>Room for one more file: a path is never longer than the buffer it is read from.\<close>

definition has_room :: "(string \<Rightarrow> string option) \<Rightarrow> Preprocessor \<Rightarrow> bool" where
  "has_room fs P \<longleftrightarrow> (\<forall>q bytes. fs q = Some bytes \<longrightarrow>
     2 * length (fdata (file_mgr P)) + 1 + length bytes < 2 ^ 32 \<and> few_parens bytes)"

lemma in_bounds_prefix:
  assumes "in_bounds m s" and "prefix (fdata m) (fdata m')" and "length (fdata m') < 2 ^ 32"
  shows "in_bounds m' s" and "snippet_text m' s = snippet_text m s"
proof -
  obtain ys where y: "fdata m' = fdata m @ ys" using assms(2) by (auto simp: prefix_def)
  then show "in_bounds m' s" using assms(1,3) by (simp add: in_bounds_def)
  show "snippet_text m' s = snippet_text m s"
    using assms(1) by (simp add: y in_bounds_def snippet_text_def read_def)
qed

lemma count_normalize: "count_list (normalize cs) CHR ''('' = count_list cs CHR ''(''"
proof (induction cs rule: normalize.induct)
  case (2 c cs)
  have "count_list (skip_LF cs) CHR ''('' = count_list cs CHR ''(''" by (cases cs) (auto simp: skip_LF_def)
  then show ?case using 2 by auto
qed simp

lemma length_c_str: "length (c_str p) \<le> length p"
  by (simp add: c_str_def length_takeWhile_le)

lemma new_entry_content:
  assumes "fdata m = d @ entry f" and "length (fdata m) < 2 ^ 32"
  shows "in_bounds m (content (info_at (length d) f))"
    and "snippet_text m (content (info_at (length d) f)) = snd f"
proof -
  have len: "length d + (length (fst f) + 1 + length (snd f)) < 2 ^ 32"
    using arg_cong [OF assms(1), of length] assms(2) by simp
  let ?l = "length d" and ?n = "length (fst f)"
  have u: "unat (of_nat ?l + of_nat ?n + 1 :: u32) = ?l + ?n + 1"
  proof -
    have c: "of_nat ?l + of_nat ?n + 1 = (of_nat ?l + 1 + of_nat ?n :: u32)" by (simp only: ac_simps)
    show ?thesis unfolding c using unat_entry_size [of ?l ?n] len by simp
  qed
  have s: "unat (of_nat (length (snd f)) :: u32) = length (snd f)"
    using len by (intro unat_of_nat_lt) simp
  show "in_bounds m (content (info_at (length d) f))"
    using assms u s by (simp add: in_bounds_def content_def info_at_def)
  show "snippet_text m (content (info_at (length d) f)) = snd f"
    unfolding snippet_text_def read_def content_def info_at_def FileInfo.simps Snippet.simps u s assms(1)
    by (simp add: entry_def)
qed

lemma find_Some_member: "List.find Q xs = Some x \<Longrightarrow> x \<in> set xs"
  by (auto simp: find_Some_iff)

lemma loadFile_ok:
  assumes ok: "mgr_ok m" and ld: "loadFile fill fs (Some path) m = (i, m')"
    and room: "\<forall>q bytes. fs q = Some bytes \<longrightarrow>
      length (fdata m) + length path + 1 + length bytes < 2 ^ 32 \<and> few_parens bytes"
    and sz: "snip_size (content i) \<noteq> 0"
  shows "mgr_ok m' \<and> prefix (fdata m) (fdata m') \<and> in_bounds m' (content i) \<and>
    few_parens (snippet_text m' (content i))"
proof (cases "findFile m (Some (c_str path)) = NOT_FOUND")
  case False
  then have "i = findFile m (Some (c_str path)) \<and> m' = m" using ld by (auto simp: loadFile_def Let_def)
  moreover have "findFile m (Some (c_str path)) \<in> set (loaded m)"
    using False find_Some_member by (auto simp: findFile_def split: option.splits if_splits)
  ultimately show ?thesis using ok by (simp add: mgr_ok_def)
next
  case nf: True
  show ?thesis
  proof (cases "fs (full_path (src_path m) (c_str path))")
    case None
    then have "i = NOT_FOUND" using nf ld by (simp add: loadFile_def Let_def)
    then show ?thesis using sz by (simp add: content_def NOT_FOUND_def)
  next
    case (Some bytes)
    let ?f = "(c_str path, normalize bytes)"
    have len: "length (fdata m) + length (c_str path) + 1 + length bytes < 2 ^ 32"
      using room Some length_c_str [of path] by fastforce
    have eq: "i = info_at (length (fdata m)) ?f" "fdata m' = fdata m @ entry ?f" "loaded m' = loaded m @ [i]"
      using loadFile_new [of m path fs bytes fill, OF nf Some len] ld by (auto simp: Let_def)
    have lt: "length (fdata m') < 2 ^ 32" using len length_normalize_le [of bytes] by (simp add: eq)
    have few: "few_parens (normalize bytes)" using room Some by (simp add: few_parens_def count_normalize)
    note new = new_entry_content [OF eq(2) lt, folded eq(1)]
    have pre: "prefix (fdata m) (fdata m')" by (simp add: eq)
    have "in_bounds m' (content j) \<and> few_parens (snippet_text m' (content j))" if "j \<in> set (loaded m)" for j
      using ok that in_bounds_prefix [OF _ pre lt] by (simp add: mgr_ok_def)
    then show ?thesis using new few lt pre eq(3) by (auto simp: mgr_ok_def)
  qed
qed

lemma preproc_ok_top: "preproc_ok P \<Longrightarrow> inputStack P \<noteq> [] \<Longrightarrow> top_ok P \<and> few_parens (frame_text P)"
  by (cases "inputStack P")
    (auto simp: preproc_ok_def top_ok_def frame_ok_def cursor_def sourceContent_def frame_text_def text_of_def)

lemma frame_of_stack:
  assumes "f \<in> set (inputStack P)"
  shows "f \<in> set (tl (inputStack P)) \<or> frame_content f = sourceContent P \<and> frame_cursor f = cursor P"
  using assms by (cases "inputStack P") (auto simp: cursor_def sourceContent_def)

lemma moves_preproc_ok:
  assumes ok: "preproc_ok P" and st: "inputStack P \<noteq> []" and mv: "moves P P'" and km: "keeps_macros P P'"
  shows "preproc_ok P'"
proof -
  have top: "top_ok P" "few_parens (frame_text P)" using preproc_ok_top [OF ok st] by simp_all
  have m: "file_mgr P' = file_mgr P" "sourceContent P' = sourceContent P" "cursor P' \<le> ssize P"
    "tl (inputStack P') = tl (inputStack P)"
    using mv by (simp_all add: moves_def)
  have "frame_ok (file_mgr P) f" if "f \<in> set (inputStack P')" for f
    using frame_of_stack [OF that]
  proof
    assume "f \<in> set (tl (inputStack P'))"
    then have "f \<in> set (inputStack P)" using m(4) by (metis list.set_sel(2) st)
    then show ?thesis using ok by (simp add: preproc_ok_def)
  next
    assume "frame_content f = sourceContent P' \<and> frame_cursor f = cursor P'"
    then show ?thesis using top m by (simp add: frame_ok_def top_ok_def frame_text_def text_of_def)
  qed
  moreover have "in_bounds (file_mgr P) (def_content d)" if "storedMacros P' n = Some d" for n d
    using that km ok top(1) unfolding keeps_macros_def preproc_ok_def top_ok_def by blast
  ultimately show ?thesis using ok m by (simp add: preproc_ok_def)
qed

lemma preproc_ok_extend:
  assumes ok: "preproc_ok P" and m': "mgr_ok m'" and pre: "prefix (fdata (file_mgr P)) (fdata m')"
  shows "preproc_ok (P\<lparr>file_mgr := m'\<rparr>)"
proof -
  have lt: "length (fdata m') < 2 ^ 32" using m' by (simp add: mgr_ok_def)
  show ?thesis
    using ok m' in_bounds_prefix [OF _ pre lt] by (auto simp: preproc_ok_def frame_ok_def)
qed

lemma process_step_ok:
  assumes ok: "preproc_ok P" and st: "inputStack P \<noteq> []" and room: "has_room fs P"
    and h: "process_step fill fs P = Some (k, P')" and k: "0 \<le> k"
  shows "preproc_ok P'"
proof -
  have top: "top_ok P" "few_parens (frame_text P)" using preproc_ok_top [OF ok st] by simp_all
  consider "pops P P'" | "advances P P'" "keeps_macros P P'" | "pushes fill fs advances P P'"
    using process_step_cases [OF top h k] by blast
  then show ?thesis
  proof cases
    case 1
    then show ?thesis using ok list.set_sel(2) [OF st] by (simp add: pops_def preproc_ok_def)
  next
    case 2
    then show ?thesis using moves_preproc_ok [OF ok st] by (simp add: advances_def)
  next
    case 3
    then obtain Q path i m where Q: "advances P Q" "storedMacros Q = storedMacros P"
      "length path \<le> length (fdata (file_mgr P))" "loadFile fill fs (Some path) (file_mgr P) = (i, m)"
      "snip_size (content i) \<noteq> 0" "P' = push_frame (content i) (Q\<lparr>file_mgr := m\<rparr>)"
      unfolding pushes_def by blast
    have "\<forall>q bytes. fs q = Some bytes \<longrightarrow>
        length (fdata (file_mgr P)) + length path + 1 + length bytes < 2 ^ 32 \<and> few_parens bytes"
      using room Q(3) unfolding has_room_def by fastforce
    then have l: "mgr_ok m \<and> prefix (fdata (file_mgr P)) (fdata m) \<and> in_bounds m (content i) \<and>
        few_parens (snippet_text m (content i))"
      using loadFile_ok [OF _ Q(4) _ Q(5)] ok by (simp add: preproc_ok_def)
    have "preproc_ok Q" using moves_preproc_ok [OF ok st] Q(1,2) by (simp add: advances_def keeps_macros_same)
    moreover have "file_mgr Q = file_mgr P" using Q(1) by (simp add: advances_def moves_def)
    ultimately have "preproc_ok (Q\<lparr>file_mgr := m\<rparr>)" using preproc_ok_extend l by simp
    then show ?thesis using l Q(6) by (simp add: preproc_ok_def push_frame_def frame_ok_def)
  qed
qed

section \<open>Reachable states\<close>

inductive reach :: "char \<Rightarrow> (string \<Rightarrow> string option) \<Rightarrow> Preprocessor \<Rightarrow> Preprocessor \<Rightarrow> bool"
  for fill fs P0 where
  start: "reach fill fs P0 P0"
| turn: "reach fill fs P0 P \<Longrightarrow> inputStack P \<noteq> [] \<Longrightarrow> has_room fs P \<Longrightarrow>
    process_step fill fs P = Some (k, P') \<Longrightarrow> 0 \<le> k \<Longrightarrow> reach fill fs P0 P'"

lemma reach_ok: "reach fill fs P0 P \<Longrightarrow> preproc_ok P0 \<Longrightarrow> preproc_ok P"
  by (induction rule: reach.induct) (auto intro: process_step_ok)

lemma init_ok:
  assumes "fs (full_path base (c_str p)) = Some bytes"
    and "length (c_str p) + 1 + length bytes < 2 ^ 32" and "few_parens bytes"
  shows "preproc_ok (init_preprocessor fill fs base (Some p) lvl)"
proof -
  let ?P = "init_preprocessor fill fs base (Some p) lvl" and ?f = "(c_str p, normalize bytes)"
  let ?start = "init_manager base"
  have nf: "findFile ?start (Some (c_str p)) = NOT_FOUND" by (simp add: findFile_def init_manager_def)
  have m0: "src_path ?start = base" "fdata ?start = []" "loaded ?start = []" by (simp_all add: init_manager_def)
  let ?m = "?start\<lparr>fdata := entry ?f, loaded := [info_at 0 ?f]\<rparr>"
  have l: "loadFile fill fs (Some p) ?start = (info_at 0 ?f, ?m)"
    using loadFile_new [of ?start p fs bytes fill, OF nf] assms(1,2) by (simp add: m0 Let_def)
  have P: "?P = init_preprocessor_info base (info_at 0 ?f) lvl\<lparr>file_mgr := ?m\<rparr>"
    unfolding init_preprocessor_def l by simp
  have "length (entry ?f) < 2 ^ 32" using assms(2) length_normalize_le [of bytes] by simp
  then have "in_bounds ?m (content (info_at 0 ?f))" "snippet_text ?m (content (info_at 0 ?f)) = normalize bytes"
    using new_entry_content [of ?m "[]" ?f] by simp_all
  then show ?thesis
    using assms(3) \<open>length (entry ?f) < 2 ^ 32\<close>
    by (simp add: P init_preprocessor_info_def preproc_ok_def mgr_ok_def frame_ok_def few_parens_def count_normalize)
qed

section \<open>Results\<close>

text \<open>
  C21: Memory safety of the preprocessor. In every state that \<open>process\<close> reaches from a root file,
  as long as there is room for a further file and no file holds 65535 opening parentheses: every
  frame lies within the buffer with its cursor at most at its end, the position read next is
  inside the buffer, and the text of every defined macro lies within the buffer in full.
\<close>

theorem process_in_bounds:
  assumes "fs (full_path base (c_str p)) = Some bytes"
    and "length (c_str p) + 1 + length bytes < 2 ^ 32" and "few_parens bytes"
    and "reach fill fs (init_preprocessor fill fs base (Some p) lvl) P"
  shows "preproc_ok P \<and>
    (inputStack P \<noteq> [] \<and> cursor P < ssize P \<longrightarrow>
       unat (snip_offset (sourceContent P) + cursor P) < length (fdata (file_mgr P))) \<and>
    (\<forall>n d. storedMacros P n = Some d \<longrightarrow> length (text_of P (def_content d)) = unat (snip_size (def_content d)))"
proof -
  have ok: "preproc_ok P" by (rule reach_ok [OF assms(4) init_ok [of fs base p bytes fill lvl, OF assms(1-3)]])
  moreover have "unat (snip_offset (sourceContent P) + cursor P) < length (fdata (file_mgr P))"
    if "inputStack P \<noteq> []" "cursor P < ssize P"
  proof -
    have "in_bounds (file_mgr P) (sourceContent P)" using preproc_ok_top [OF ok that(1)] by (simp add: top_ok_def)
    then show ?thesis
      using unat_offset_add [of "file_mgr P" "sourceContent P" "cursor P"] that(2)
      by (simp add: in_bounds_def word_less_nat_alt word_le_nat_alt)
  qed
  moreover have "length (text_of P (def_content d)) = unat (snip_size (def_content d))" if "storedMacros P n = Some d" for n d
    using ok that by (simp add: preproc_ok_def text_of_def length_snippet_text)
  ultimately show ?thesis by blast
qed

theorem process_in_bounds_witness:
  "preproc_ok (init_preprocessor CHR ''?'' (\<lambda>_. Some ''12 N'') None (Some ''a'') Log_Off)"
  using process_in_bounds [of "\<lambda>_. Some ''12 N''" None "''a''" "''12 N''" "CHR ''?''" Log_Off, OF _ _ _ reach.start]
  by (simp add: c_str_a few_parens_def)

text \<open>What is left to read: it shrinks with every turn that pushes no file.\<close>

definition unread :: "Preprocessor \<Rightarrow> nat" where
  "unread P = sum_list (map (\<lambda>f. 1 + unat (snip_size (frame_content f)) - unat (frame_cursor f)) (inputStack P))"

lemma unread_top:
  "inputStack P \<noteq> [] \<Longrightarrow> unread P = 1 + unat (ssize P) - unat (cursor P) +
     sum_list (map (\<lambda>f. 1 + unat (snip_size (frame_content f)) - unat (frame_cursor f)) (tl (inputStack P)))"
  by (cases "inputStack P") (simp_all add: unread_def cursor_def sourceContent_def)

lemma unread_step:
  assumes ok: "preproc_ok P" and st: "inputStack P \<noteq> []"
    and h: "process_step fill fs P = Some (k, P')" and k: "0 \<le> k" and np: "\<not> pushes fill fs advances P P'"
  shows "unread P' < unread P"
proof -
  have top: "top_ok P" "few_parens (frame_text P)" using preproc_ok_top [OF ok st] by simp_all
  consider "pops P P'" | "advances P P'" using process_step_cases [OF top h k] np by blast
  then show ?thesis
  proof cases
    case 1
    have "unat (cursor P) \<le> unat (ssize P)" using top(1) by (simp add: top_ok_def word_le_nat_alt)
    then show ?thesis using 1 unread_top [OF st] by (simp add: pops_def unread_def)
  next
    case 2
    then have a: "unat (cursor P) < unat (cursor P')" "unat (cursor P') \<le> unat (ssize P)"
      "sourceContent P' = sourceContent P" "tl (inputStack P') = tl (inputStack P)"
      by (simp_all add: advances_def moves_def word_less_nat_alt word_le_nat_alt)
    show ?thesis
    proof (cases "inputStack P' = []")
      case True
      then show ?thesis using unread_top [OF st] a by (simp add: unread_def)
    next
      case False
      then show ?thesis using unread_top [OF st] unread_top [OF False] a by simp
    qed
  qed
qed

lemma process_unfold:
  "inputStack P \<noteq> [] \<Longrightarrow> process_step fill fs P = Some (k, P') \<Longrightarrow> 0 \<le> k \<Longrightarrow>
   process fill fs P = process fill fs P'"
  by (subst process.simps) simp


end
