(* ===== verification/Preproc_Directives.thy ===== *)
theory Preproc_Directives
  imports Preproc_Safe
begin

text \<open>
  Directives on text: what \<open>#define\<close>, \<open>#include\<close> and \<open>#skip\<close> do to the rest of the frame, for
  all names, values and following text.
\<close>

section \<open>Reading on text\<close>

lemma takeWhile_until: "c \<notin> set u \<Longrightarrow> takeWhile (\<lambda>x. x \<noteq> c) (u @ c # t) = u"
  by (induction u) auto

lemma read_directive_text:
  assumes ok: "top_ok P" and r: "rest P = CHR ''#'' # t"
  shows "read_directive P = (CHR ''#'' # take (ident_len t) t, move (Suc (ident_len t)) P)"
proof -
  have ok1: "top_ok (move 1 P)" "rest (move 1 P) = t" using move_ok [OF ok, of 1] r by simp_all
  have "skip_ident (set_cursor (cursor P + 1) P) = move (Suc (ident_len t)) P"
    using advance_move [OF ok] r skip_ident_move [OF ok1(1)] ok1(2) by (simp add: move_move)
  moreover have "text_of (move (Suc (ident_len t)) P) (from_cursor (cursor P) (move (Suc (ident_len t)) P))
      = take (Suc (ident_len t)) (rest P)"
    using r ident_len_le [of t] by (intro text_from [OF ok]) simp
  ultimately show ?thesis using r by (simp add: read_directive_def Let_def)
qed

lemma ol_text: "top_ok P \<Longrightarrow> ol P = move (length (takeWhile blank (rest P))) P"
proof (induction P rule: ol.induct)
  case (1 P)
  show ?case
  proof (cases "rest P")
    case Nil
    then have "\<not> cursor P < ssize P" using 1(2) not_end_iff by simp
    then show ?thesis using Nil move_0 [OF 1(2)] by (subst ol.simps) simp
  next
    case (Cons c t)
    then have lt: "cursor P < ssize P" and ch: "currChar P = c"
      using 1(2) not_end_iff currChar_rest by simp_all
    show ?thesis
    proof (cases "blank c")
      case True
      have m: "set_cursor (cursor P + 1) P = move 1 P" by (simp add: move_def)
      have ok1: "top_ok (move 1 P)" "rest (move 1 P) = t" using move_ok [OF 1(2), of 1] Cons by simp_all
      have "ol P = ol (move 1 P)" using lt ch True m by (subst ol.simps) simp
      then show ?thesis using 1(1) [unfolded m] lt ch True ok1 Cons by (simp add: move_move)
    next
      case False
      then show ?thesis using lt ch Cons move_0 [OF 1(2)] by (subst ol.simps) simp
    qed
  qed
qed

lemma ol_stays: "top_ok P \<Longrightarrow> rest P = [] \<or> \<not> blank (hd (rest P)) \<Longrightarrow> ol P = P"
  by (cases "rest P") (simp_all add: ol_text move_0)

lemma findNext_char_text:
  assumes ok: "top_ok P" and r: "rest P = u @ c # t" and u: "c \<notin> set u"
  shows "findNext_char c P = cursor (move (length u) P)" "findNext_char c P \<noteq> PCursorMax"
proof -
  have n: "length u = length (takeWhile (\<lambda>x. \<not> x = c) (rest P))" using r u by (simp add: takeWhile_until)
  have lt: "length u < length (rest P)" using r by simp
  show "findNext_char c P = cursor (move (length u) P)"
    using find_loop_rest(1) [OF ok findNext_char_def n] lt by simp
  show "findNext_char c P \<noteq> PCursorMax"
    using find_loop_rest(2) [OF ok findNext_char_def n lt] .
qed

lemma offset_not_max:
  assumes ok: "top_ok P" and r: "rest P \<noteq> []"
  shows "snip_offset (sourceContent P) + cursor P \<noteq> POffsetMax"
proof -
  have b: "in_bounds (file_mgr P) (sourceContent P)" "cursor P \<le> ssize P" using ok by (simp_all add: top_ok_def)
  have "unat (cursor P) < unat (ssize P)" using not_end_iff [OF ok] r by (simp add: word_less_nat_alt)
  then have "unat (snip_offset (sourceContent P) + cursor P) < 4294967295"
    using unat_offset_add [OF b] b by (simp add: in_bounds_def)
  moreover have "unat POffsetMax = 4294967295"
    by (simp add: POffsetMax_def unsigned_minus_1_eq_mask mask_eq_exp_minus_1)
  ultimately show ?thesis by auto
qed

lemma readToNext_text:
  assumes ok: "top_ok P" and r: "rest P = u @ q # t" and u: "q \<notin> set u"
  shows "\<exists>s. readToNext q P = (s, move (length u) P) \<and> snip_offset s \<noteq> snip_offset SNIPPET_SENT \<and>
    (\<forall>Q. file_mgr Q = file_mgr P \<longrightarrow> text_of Q s = u)"
proof -
  have lt: "length u < length (rest P)" using r by simp
  note f = findNext_char_text [OF assms]
  let ?s = "from_cursor (cursor P) (move (length u) P)"
  have rd: "readToNext q P = (?s, move (length u) P)"
    using f by (simp add: readToNext_def Let_def move_def)
  have t: "text_of (move (length u) P) ?s = u" using text_from [OF ok, of "length u"] lt r by simp
  have "snip_offset ?s \<noteq> snip_offset SNIPPET_SENT"
    using offset_not_max [OF ok] r by (simp add: from_cursor_def SNIPPET_SENT_def)
  moreover have "text_of Q ?s = u" if "file_mgr Q = file_mgr P" for Q
    using t that text_of_file [of Q "move (length u) P"] by simp
  ultimately show ?thesis using rd by blast
qed

lemma skip_line_text:
  assumes "top_ok P" and "rest P = u @ LF # t" and "LF \<notin> set u"
  shows "skip_line P = move (Suc (length u)) P"
  using findNext_char_text [OF assms] by (simp add: skip_line_def move_def add.assoc) (simp add: add.commute)

text \<open>A directive at the start of the rest, with its name set apart.\<close>

lemma ident_len_append:
  assumes "\<forall>c \<in> set w. IS_IDENT_CHAR c" and "t = [] \<or> \<not> IS_IDENT_CHAR (hd t)"
  shows "ident_len (w @ t) = length w"
  using assms by (cases t) (simp_all add: ident_len_def takeWhile_append2 takeWhile_eq_all_conv [THEN iffD2])

lemma process_step_directive:
  assumes ok: "top_ok P" and r: "rest P = CHR ''#'' # w @ t"
    and w: "\<forall>c \<in> set w. IS_IDENT_CHAR c" and t: "t = [] \<or> \<not> IS_IDENT_CHAR (hd t)"
    and ty: "macro_hash_match (CHR ''#'' # w) = type"
  shows "process_step fill fs P =
    process_directive fill fs type ((move (Suc (length w)) P)\<lparr>currActive := type\<rparr>)"
proof -
  have lt: "\<not> ssize P \<le> cursor P" using not_end_iff [OF ok] r by (simp add: not_le)
  have ch: "currChar P = CHR ''#''" using currChar_rest [OF ok r] .
  have "process_step fill fs P = directive_step fill fs P"
    unfolding process_step_def if_not_P [OF lt] Let_def ch by simp
  moreover have "read_directive P = (CHR ''#'' # w, move (Suc (length w)) P)"
    using read_directive_text [OF ok r] ident_len_append [OF w t] by simp
  ultimately show ?thesis using ty by (simp add: directive_step_def Let_def)
qed

lemma top_ok_update [simp]: "top_ok (P\<lparr>currActive := T\<rparr>) = top_ok P" "rest (P\<lparr>currActive := T\<rparr>) = rest P"
  "top_ok (P\<lparr>storedMacros := M\<rparr>) = top_ok P" "rest (P\<lparr>storedMacros := M\<rparr>) = rest P"
  by (simp_all add: top_ok_def rest_def frame_text_def text_of_def)

lemma ident_letters:
  "\<forall>c \<in> set ''define''. IS_IDENT_CHAR c" "\<forall>c \<in> set ''include''. IS_IDENT_CHAR c" "\<forall>c \<in> set ''skip''. IS_IDENT_CHAR c"
  "\<not> IS_IDENT_CHAR CHR '' ''" "\<not> IS_IDENT_CHAR LF"
  by (simp_all add: IS_IDENT_CHAR_conv ident_6bit_nonzero ident_byte_def)

lemma process_turn:
  assumes "top_ok P" and "process_step fill fs P = Some (k, Q)" and "0 \<le> k"
  shows "process fill fs P = process fill fs Q"
  by (rule process_unfold [OF _ assms(2,3)]) (use assms(1) in \<open>simp add: top_ok_def\<close>)

lemma move_update [simp]: "move n (P\<lparr>currActive := T\<rparr>) = (move n P)\<lparr>currActive := T\<rparr>"
  "set_cursor c (P\<lparr>currActive := T\<rparr>) = (set_cursor c P)\<lparr>currActive := T\<rparr>"
  by (simp_all add: move_def set_cursor_def cursor_def)

lemma process_finish:
  assumes "top_ok P" and "tl (inputStack P) = []" and "no_directive (rest P)"
  shows "\<exists>Q. process fill fs P = Some (0, Q) \<and>
    output_buffer Q = output_buffer P @ expand (macro_text P) (rest P)"
proof -
  obtain Q where Q: "process fill fs P = process fill fs Q" "inputStack Q = []"
      "output_buffer Q = output_buffer P @ expand (macro_text P) (rest P)"
    using process_plain [OF assms(1,3), of fill fs] assms(2) by auto
  then have "process fill fs Q = Some (0, Q)" by (subst process.simps) simp
  with Q show ?thesis by simp
qed

lemma macro_text_update [simp]: "macro_text (P\<lparr>currActive := T\<rparr>) = macro_text P"
  by (simp add: macro_text_def text_of_def fun_eq_iff cong: if_cong)

section \<open>Skipping a line\<close>

lemma handle_skip_text:
  assumes ok: "top_ok P" and r: "rest P = u @ LF # v @ LF # t" and u: "LF \<notin> set u" and v: "LF \<notin> set v"
  shows "handle_skip P = (0, move (length u + length v + 2) P)"
proof -
  note f = findNext_char_text [OF ok r u]
  let ?n = "Suc (length u)"
  have m: "set_cursor (findNext_char LF P + 1) P = move ?n P"
    using f by (simp add: move_def add.assoc) (simp add: add.commute)
  have ok1: "top_ok (move ?n P)" "rest (move ?n P) = v @ LF # t" using move_ok [OF ok, of ?n] r by simp_all
  have lt: "findNext_char LF P + 1 < ssize P"
    using not_end_iff [OF ok1(1)] ok1(2) m by (metis append_is_Nil_conv cursor_set_cursor list.distinct(1))
  note f1 = findNext_char_text [OF ok1 v]
  have "set_cursor (findNext_char LF (move ?n P) + 1) (move ?n P) = move (length u + length v + 2) P"
    using f1 by (simp add: move_def add.assoc)
  then show ?thesis using f f1 m lt by (simp add: handle_skip_def Let_def not_le)
qed

text \<open>
  \<open>#skip\<close> drops the rest of its line and the next line as a whole, whatever they hold, and
  preprocessing goes on behind them.
\<close>

lemma skip_drops_next_line:
  assumes "top_ok P" and "tl (inputStack P) = []"
    and "rest P = ''#skip'' @ u @ LF # v @ LF # t" and "u = [] \<or> \<not> IS_IDENT_CHAR (hd u)"
    and "LF \<notin> set u" and "LF \<notin> set v" and "no_directive t"
  shows "\<exists>Q. process fill fs P = Some (0, Q) \<and> get_result Q = get_result P @ expand (macro_text P) t"
proof -
  let ?P1 = "move 5 P\<lparr>currActive := M_Skip\<rparr>" and ?n = "length u + length v + 2"
  have ok1: "top_ok ?P1" "rest ?P1 = u @ LF # v @ LF # t"
    using move_ok [OF assms(1), of 5] assms(3) by simp_all
  have nt: "u @ LF # v @ LF # t = [] \<or> \<not> IS_IDENT_CHAR (hd (u @ LF # v @ LF # t))"
    using assms(4) ident_letters(5) by (cases u) auto
  have "process_step fill fs P = process_directive fill fs M_Skip ?P1"
    using process_step_directive [OF assms(1), of "''skip''" _ M_Skip fill fs] assms(3) ident_letters(3) nt
    by (simp add: eval_nat_numeral)
  then have "process_step fill fs P = Some (0, move ?n ?P1)"
    using handle_skip_text [OF ok1 assms(5,6)] by (simp add: process_directive_def)
  then have p: "process fill fs P = process fill fs (move ?n ?P1)"
    using process_turn [OF assms(1)] by blast
  have ok2: "top_ok (move ?n ?P1)" "rest (move ?n ?P1) = t"
    using move_ok [OF ok1(1), of ?n] ok1(2) by simp_all
  show ?thesis
    using process_finish [OF ok2(1), of fill fs] ok2(2) assms(2,7) p by (simp add: get_result_def)
qed

section \<open>Defining a macro\<close>

lemma ident_not_space: "IS_IDENT_CHAR c \<Longrightarrow> \<not> space c \<and> \<not> blank c \<and> c \<noteq> CHR ''&''"
  by (auto simp: space_def blank_def IS_IDENT_CHAR_conv ident_6bit_nonzero ident_byte_def)

lemma trim_sv_id: "s \<noteq> [] \<Longrightarrow> \<not> space (hd s) \<Longrightarrow> \<not> space (last s) \<Longrightarrow> trim_sv s = s"
  by (simp add: trim_sv_conv dropWhile_eq_self_iff [THEN iffD2] hd_rev)

lemma find_first_not_space_Some: "s \<noteq> [] \<Longrightarrow> \<not> space (hd s) \<Longrightarrow> find_first_not_space s \<noteq> None"
  by (cases s) (simp_all add: find_first_not_space_def)

lemma alias_names_ident:
  assumes "w \<noteq> []" and "\<forall>c \<in> set w. IS_IDENT_CHAR c"
  shows "alias_names w = [w]"
proof -
  have "CHR ''&'' \<notin> set w" using assms(2) ident_not_space by blast
  moreover have "\<not> space (hd w)" "\<not> space (last w)" using assms ident_not_space by auto
  ultimately show ?thesis
    using assms(1) find_first_not_space_Some [of w] trim_sv_id [of w]
    by (simp add: alias_names_def split_on_none)
qed

lemma amp_names_loop_stays: "top_ok P \<Longrightarrow> rest P = [] \<or> hd (rest P) \<noteq> CHR ''&'' \<Longrightarrow> amp_names_loop P = P"
proof -
  assume ok: "top_ok P" and r: "rest P = [] \<or> hd (rest P) \<noteq> CHR ''&''"
  have "\<not> (cursor P < ssize P \<and> currChar P = CHR ''&'')"
    using not_end_iff [OF ok] currChar_rest [OF ok] r by (cases "rest P") auto
  then show ?thesis by (subst amp_names_loop.simps) (simp only: if_False)
qed

lemma value_loop_text:
  assumes ok: "top_ok P" and r: "rest P = v @ LF # t" and v: "LF \<notin> set v" "\<not> has_continuation v"
  shows "value_loop P c = (cursor (move (length v) P), move (Suc (length v)) P)"
proof -
  note f = findNext_char_text [OF ok r v(1)]
  have lt: "cursor P < ssize P" using not_end_iff [OF ok] r by simp
  have len: "length v \<le> length (rest P)" using r by simp
  have "text_of P (to_cursor (cursor (move (length v) P)) P) = take (length v) (rest P)"
    using text_between [OF ok len] unat_cursor_diff [OF ok len] by (simp add: to_cursor_def)
  then have tx: "text_of P (to_cursor (cursor (move (length v) P)) P) = v" using r by simp
  have fl: "(if findNext_char LF P = PCursorMax then ssize P else findNext_char LF P) = cursor (move (length v) P)"
    using f by simp
  have m: "set_cursor (cursor (move (length v) P) + 1) P = move (Suc (length v)) P"
    by (simp add: move_def add.assoc) (simp add: add.commute)
  show ?thesis
    unfolding value_loop.simps [of P c] if_P [OF lt] Let_def fl tx m using f v(2) by simp
qed

lemma trim_end_loop_stays:
  assumes ok: "top_ok P" and len: "n \<le> length (rest P)" and n: "0 < n" and c: "\<not> blank (rest P ! (n - 1))"
  shows "trim_end_loop (file_mgr P) (sourceContent P) (cursor P) (cursor (move n P)) = cursor (move n P)"
proof -
  let ?e = "cursor (move n P)"
  have e: "unat ?e = unat (cursor P) + n" using cursor_move [OF ok len] .
  have u: "unat (?e - 1) = unat (cursor P) + (n - 1)" using unat_diff_le [of 1 ?e] e n by simp
  have "unat (cursor P) + n \<le> unat (ssize P)" using len ok by (auto simp: length_rest top_ok_def word_le_nat_alt)
  then have "?e - 1 < ssize P" using u n by (simp add: word_less_nat_alt)
  then have "getChar_snippet (file_mgr P) (sourceContent P) (?e - 1) = frame_text P ! unat (?e - 1)"
    using ok getChar_snippet_text by (simp add: top_ok_def frame_text_def text_of_def)
  also have "\<dots> = rest P ! (n - 1)" using u len n by (simp add: rest_def)
  finally show ?thesis using c by (subst trim_end_loop.simps) simp
qed

lemma handle_define_text:
  assumes ok: "top_ok P" and r: "rest P = CHR '' '' # w @ CHR '' '' # v @ LF # t"
    and w: "w \<noteq> []" "\<forall>c \<in> set w. IS_IDENT_CHAR c"
    and v: "v \<noteq> []" "\<not> blank (hd v)" "\<not> blank (last v)" "LF \<notin> set v" "\<not> has_continuation v"
  shows "\<exists>d. handle_define P =
      (0, (move (length w + length v + 3) P)\<lparr>storedMacros := (storedMacros P)(w \<mapsto> d)\<rparr>) \<and>
    has_value d \<and> (\<forall>Q. file_mgr Q = file_mgr P \<longrightarrow> text_of Q (def_content d) = v)"
proof -
  have bl: "blank CHR '' ''" "\<not> IS_IDENT_CHAR CHR '' ''" by (simp add: blank_def, rule ident_letters)
  let ?P1 = "move 1 P" and ?P2 = "move (Suc (length w)) P" and ?P3 = "move (length w + 2) P"
  have ok1: "top_ok ?P1" "rest ?P1 = w @ CHR '' '' # v @ LF # t" using move_ok [OF ok, of 1] r by simp_all
  have ok2: "top_ok ?P2" "rest ?P2 = CHR '' '' # v @ LF # t"
    using move_ok [OF ok, of "Suc (length w)"] r by simp_all
  have ok3: "top_ok ?P3" "rest ?P3 = v @ LF # t" using move_ok [OF ok, of "length w + 2"] r by simp_all
  have nb: "\<not> blank (hd (w @ CHR '' '' # v @ LF # t))" using w ident_not_space by (cases w) auto
  have "length (takeWhile blank (rest P)) = 1" using r nb bl by (cases w) (use w in auto)
  then have s1: "ol P = ?P1" using ol_text [OF ok] by simp
  have il: "ident_len (rest ?P1) = length w" unfolding ok1(2) by (rule ident_len_append [OF w(2)]) (simp add: bl)
  have s2: "skip_ident ?P1 = ?P2" using skip_ident_move [OF ok1(1)] il by (simp add: move_move)
  have s2': "amp_names_loop ?P2 = ?P2" by (rule amp_names_loop_stays [OF ok2(1)]) (simp add: ok2(2))
  have "takeWhile blank (rest ?P2) = [CHR '' '']" using ok2(2) v(1,2) bl by (cases v) simp_all
  then have s3: "ol ?P2 = ?P3" using ol_text [OF ok2(1)] by (simp add: move_move numeral_2_eq_2)
  have nm: "text_of ?P2 (from_cursor (cursor ?P1) ?P2) = w"
    using text_from [OF ok1(1), of "length w"] ok1(2) by (simp add: move_move)
  let ?e = "cursor (move (length v) ?P3)" and ?P4 = "move (Suc (length v)) ?P3"
  have vl: "value_loop ?P3 (cursor ?P3) = (?e, ?P4)" by (rule value_loop_text [OF ok3 v(4,5)])
  have lv: "length v \<le> length (rest ?P3)" "0 < length v" using ok3(2) v(1) by simp_all
  have "rest ?P3 ! (length v - 1) = last v" using ok3(2) v(1) by (simp add: nth_append last_conv_nth)
  then have te: "trim_end_loop (file_mgr ?P4) (sourceContent ?P4) (cursor ?P3) ?e = ?e"
    using trim_end_loop_stays [OF ok3(1) lv] v(3) by simp
  let ?s = "\<lparr>snip_offset = snip_offset (sourceContent ?P4) + cursor ?P3, snip_size = ?e - cursor ?P3\<rparr>"
  let ?d = "\<lparr>def_content = ?s, def_t = M_Define, def_flags = 1\<rparr>"
  have sz: "unat (?e - cursor ?P3) = length v" by (rule unat_cursor_diff [OF ok3(1) lv(1)])
  have tx: "text_of ?P3 ?s = v" using text_between [OF ok3(1) lv(1), of ?s] sz ok3(2) by simp
  have "handle_define P = (0, register_loop w 0 ?d ?P4)"
    unfolding handle_define_def Let_def s1 s2 s2' nm s3 vl prod.case te ..
  moreover have "register_loop w 0 ?d ?P4 =
      (move (length w + length v + 3) P)\<lparr>storedMacros := (storedMacros P)(w \<mapsto> ?d)\<rparr>"
  proof -
    have "?P4 = move (length w + length v + 3) P" by (simp add: move_move eval_nat_numeral)
    then show ?thesis by (simp add: register_loop_eq alias_names_ident [OF w] fun_upd_def cong: if_cong)
  qed
  moreover have "has_value ?d"
    using sz lv(2) offset_not_max [OF ok3(1)] ok3(2)
    by (auto simp: has_value_def SNIPPET_SENT_def word_gt_0)
  moreover have "text_of Q ?s = v" if "file_mgr Q = file_mgr P" for Q
    using tx text_of_file [of Q ?P3] that by simp
  ultimately show ?thesis by (intro exI [of _ ?d]) simp
qed

text \<open>
  \<open>#define NAME VALUE\<close> followed by text without directives puts out that text with every word
  \<open>NAME\<close> replaced by \<open>VALUE\<close>, an earlier definition of the name overridden and the other macros
  kept, and nothing for the directive itself: for every name of identifier characters and every value
  on one line without blanks at its ends.
\<close>

lemma define_then_expand:
  assumes "top_ok P" and "tl (inputStack P) = []"
    and "rest P = ''#define '' @ w @ CHR '' '' # v @ LF # t"
    and "w \<noteq> []" and "\<forall>c \<in> set w. IS_IDENT_CHAR c"
    and "v \<noteq> []" and "\<not> blank (hd v)" and "\<not> blank (last v)" and "LF \<notin> set v" and "\<not> has_continuation v"
    and "no_directive t"
  shows "\<exists>Q. process fill fs P = Some (0, Q) \<and>
    get_result Q = get_result P @ expand ((macro_text P)(w \<mapsto> v)) t"
proof -
  let ?P1 = "move 7 P\<lparr>currActive := M_Define\<rparr>" and ?n = "length w + length v + 3"
  have ok1: "top_ok ?P1" "rest ?P1 = CHR '' '' # w @ CHR '' '' # v @ LF # t"
    using move_ok [OF assms(1), of 7] assms(3) by simp_all
  obtain d where d: "handle_define ?P1 =
      (0, (move ?n ?P1)\<lparr>storedMacros := (storedMacros ?P1)(w \<mapsto> d)\<rparr>)"
      "has_value d" "\<forall>Q. file_mgr Q = file_mgr ?P1 \<longrightarrow> text_of Q (def_content d) = v"
    using handle_define_text [OF ok1 assms(4-10)] by blast
  let ?P2 = "(move ?n ?P1)\<lparr>storedMacros := (storedMacros ?P1)(w \<mapsto> d)\<rparr>"
  have "process_step fill fs P = process_directive fill fs M_Define ?P1"
    using process_step_directive [OF assms(1), of "''define''" _ M_Define fill fs] assms(3) ident_letters(1,4)
    by (simp add: eval_nat_numeral)
  then have p: "process fill fs P = process fill fs ?P2"
    using process_turn [OF assms(1)] d(1) by (simp add: process_directive_def)
  have "drop ?n (CHR '' '' # w @ CHR '' '' # v @ LF # t) = t" by (simp add: eval_nat_numeral)
  then have ok2: "top_ok ?P2" "rest ?P2 = t" using move_ok [OF ok1(1), of ?n] ok1(2) by simp_all
  have "text_of ?P2 (def_content d) = v" using d(3) by simp
  then have "snippet_text (file_mgr P) (def_content d) = v" by (simp add: text_of_def)
  then have "macro_text ?P2 = (macro_text P)(w \<mapsto> v)"
    using d(2) by (simp add: macro_text_def fun_eq_iff text_of_def cong: if_cong)
  then show ?thesis
    using process_finish [OF ok2(1), of fill fs] ok2(2) assms(2,11) p by (simp add: get_result_def)
qed

lemma macro_text_none: "storedMacros P = Map.empty \<Longrightarrow> macro_text P = Map.empty"
  by (simp add: macro_text_def fun_eq_iff)

section \<open>A file that includes itself\<close>

lemma handle_include_text:
  assumes ok: "top_ok P" and r: "rest P = CHR '' '' # CHR 0x22 # p @ CHR 0x22 # LF # t" and p: "CHR 0x22 \<notin> set p"
    and ld: "loadFile fill fs (Some p) (file_mgr P) = (i, file_mgr P)"
    and i: "snip_size (content i) \<noteq> 0" "snip_size (content i) \<noteq> PLengthMax"
      "snip_offset (content i) \<noteq> snip_offset SNIPPET_SENT"
  shows "handle_include fill fs P = (0, push_frame (content i) (move (length p + 4) P))"
proof -
  have "takeWhile blank (rest P) = [CHR '' '']" using r by (simp add: blank_def)
  then have s1: "ol P = move 1 P" using ol_text [OF ok] by simp
  have ok1: "top_ok (move 1 P)" "rest (move 1 P) = CHR 0x22 # p @ CHR 0x22 # LF # t"
    using move_ok [OF ok, of 1] r by simp_all
  have ne: "\<not> at_end (move 1 P)" using not_end_iff [OF ok1(1)] ok1(2) by (simp add: at_end_def not_le)
  have ch: "currChar (move 1 P) = CHR 0x22" using currChar_rest [OF ok1] .
  have s2: "set_cursor (cursor (move 1 P) + 1) (move 1 P) = move 2 P"
    by (simp add: move_def add.assoc)
  have ok2: "top_ok (move 2 P)" "rest (move 2 P) = p @ CHR 0x22 # LF # t"
    using move_ok [OF ok, of 2] r by simp_all
  obtain s where rd: "readToNext CHR 0x22 (move 2 P) = (s, move (length p + 2) P)"
      "snip_offset s \<noteq> snip_offset SNIPPET_SENT" "\<forall>Q. file_mgr Q = file_mgr P \<longrightarrow> text_of Q s = p"
    using readToNext_text [OF ok2 p] by (auto simp: move_move add.commute)
  have s3: "set_cursor (cursor (move (length p + 2) P) + 1) (move (length p + 2) P) = move (length p + 3) P"
    by (simp add: move_def add.assoc) (simp add: ac_simps)
  have ok3: "top_ok (move (length p + 3) P)" "rest (move (length p + 3) P) = [] @ LF # t"
    using move_ok [OF ok, of "length p + 3"] r by (simp_all add: eval_nat_numeral)
  have s4: "skip_line (move (length p + 3) P) = move (length p + 4) P"
    using skip_line_text [OF ok3] by (simp add: move_move eval_nat_numeral)
  have lv: "loadView fill fs p (move (length p + 4) P) = (content i, move (length p + 4) P)"
    using ld by (simp add: loadView_def)
  show ?thesis
    unfolding handle_include_def Let_def s1 if_not_P [OF ne] ch
    using s2 s3 s4 rd lv i by simp
qed

lemma process_None:
  assumes step: "\<And>P. I P \<Longrightarrow> inputStack P \<noteq> [] \<and> (\<exists>P'. process_step fill fs P = Some (0, P') \<and> I P')"
    and "I P"
  shows "process fill fs P = None"
proof -
  have "\<not> (g = fill \<and> h = fs \<and> I Q)" if "process g h Q = Some r" for g h Q r
  proof (rule process.raw_induct [OF _ that, of "\<lambda>x _. \<not> (fst (fst x) = fill \<and> snd (fst x) = fs \<and> I (snd x))",
        unfolded fst_conv snd_conv], goal_cases)
    case (1 f g h Q r)
    show ?case
    proof
      assume eq: "g = fill \<and> h = fs \<and> I Q"
      then obtain P' where "inputStack Q \<noteq> []" "process_step fill fs Q = Some (0, P')" "I P'"
        using step by blast
      then have "f fill fs P' = Some r" using 1(2) eq by simp
      then show False using 1(1) \<open>I P'\<close> by blast
    qed
  qed
  then show ?thesis using assms(2) by (cases "process fill fs P") auto
qed

lemma self_include_step:
  assumes ok: "top_ok P" and r: "rest P = ''#include '' @ CHR 0x22 # p @ CHR 0x22 # LF # t" and p: "CHR 0x22 \<notin> set p"
    and ld: "loadFile fill fs (Some p) (file_mgr P) = (i, file_mgr P)"
    and i: "snip_size (content i) \<noteq> 0" "snip_size (content i) \<noteq> PLengthMax"
      "snip_offset (content i) \<noteq> snip_offset SNIPPET_SENT"
  shows "process_step fill fs P =
    Some (0, push_frame (content i) (move (length p + 12) P\<lparr>currActive := M_Include\<rparr>))"
proof -
  let ?P1 = "move 8 P\<lparr>currActive := M_Include\<rparr>"
  have ok1: "top_ok ?P1" "rest ?P1 = CHR '' '' # CHR 0x22 # p @ CHR 0x22 # LF # t"
    using move_ok [OF ok, of 8] r by simp_all
  have "process_step fill fs P = process_directive fill fs M_Include ?P1"
    using process_step_directive [OF ok, of "''include''" _ M_Include fill fs] r ident_letters(2,4)
    by (simp add: eval_nat_numeral)
  moreover have "handle_include fill fs ?P1 = (0, push_frame (content i) (move (length p + 4) ?P1))"
    by (rule handle_include_text [OF ok1 p _ i]) (simp add: ld)
  ultimately show ?thesis by (simp add: process_directive_def move_move add.commute)
qed

lemma self_include_none:
  assumes "fs (full_path base p) = Some bytes" and "c_str p = p" and "p \<noteq> []" and "p \<noteq> EMPTY_SV"
    and "CHR 0x22 \<notin> set p" and "normalize bytes = ''#include '' @ CHR 0x22 # p @ CHR 0x22 # LF # t"
    and "length p + 1 + length bytes < 2 ^ 32"
  shows "process fill fs (init_preprocessor fill fs base (Some p) lvl) = None"
proof -
  let ?P0 = "init_preprocessor fill fs base (Some p) lvl" and ?f = "(p, normalize bytes)"
  let ?i = "info_at 0 ?f" and ?start = "init_manager base"
  let ?m = "?start\<lparr>fdata := entry ?f, loaded := [?i]\<rparr>"
  have m0: "src_path ?start = base" "fdata ?start = []" "loaded ?start = []" by (simp_all add: init_manager_def)
  have nf: "findFile ?start (Some (c_str p)) = NOT_FOUND" by (simp add: findFile_def m0)
  have "loadFile fill fs (Some p) ?start = (?i, ?m)"
    using loadFile_new [of ?start p fs bytes fill, OF nf] assms(1,2,7) by (simp add: m0 Let_def)
  then have P0: "?P0 = init_preprocessor_info base ?i lvl\<lparr>file_mgr := ?m\<rparr>"
    unfolding init_preprocessor_def by simp
  have len: "length (entry ?f) < 2 ^ 32" using assms(7) length_normalize_le [of bytes] by simp
  have rep: "represents ?m [?f]" using len by (simp add: represents_def)
  have lt: "Suc (length p + length (normalize bytes)) < 4294967296" using len by simp
  have again: "loadFile fill fs (Some p) ?m = (?i, ?m)"
  proof -
    have mem: "p \<in> fst ` set [?f]" by simp
    obtain j where j: "j < length [?f]" "findFile ?m (Some p) = layout 0 [?f] ! j"
      using find_old [OF rep mem assms(4)] by metis
    then have "findFile ?m (Some (c_str p)) = ?i" using assms(2) by simp
    moreover have "?i \<noteq> NOT_FOUND" using layout_not_NOT_FOUND [OF rep, of 0] assms(3) by simp
    ultimately show ?thesis by (simp add: loadFile_def Let_def)
  qed
  have u: "unat (of_nat (length p) + 1 :: u32) = length p + 1"
    using unat_entry_size [of "length p" 0] lt by simp
  have uo: "unat (snip_offset (content ?i)) = length p + 1" using u by (simp add: content_def info_at_def)
  have us: "unat (snip_size (content ?i)) = length (normalize bytes)"
    using lt by (simp add: content_def info_at_def unat_of_nat_lt)
  have mx: "unat POffsetMax = 4294967295" "unat PLengthMax = 4294967295"
    by (simp_all add: POffsetMax_def PLengthMax_def unsigned_minus_1_eq_mask mask_eq_exp_minus_1)
  have i: "snip_size (content ?i) \<noteq> 0" "snip_size (content ?i) \<noteq> PLengthMax"
    "snip_offset (content ?i) \<noteq> snip_offset SNIPPET_SENT"
    using uo us mx lt assms(6) by (auto simp: SNIPPET_SENT_def)
  define I where "I Q \<longleftrightarrow> inputStack Q \<noteq> [] \<and> file_mgr Q = ?m \<and> sourceContent Q = content ?i \<and> cursor Q = 0" for Q
  have inv: "top_ok Q \<and> rest Q = normalize bytes" if "I Q" for Q
  proof -
    have "in_bounds ?m (content ?i)" "snippet_text ?m (content ?i) = normalize bytes"
      using new_entry_content [of ?m "[]" ?f] len by simp_all
    then show ?thesis using that by (simp add: I_def top_ok_def rest_def frame_text_def text_of_def)
  qed
  have "I ?P0" by (simp add: I_def P0 init_preprocessor_info_def sourceContent_def cursor_def)
  moreover have "inputStack Q \<noteq> [] \<and> (\<exists>Q'. process_step fill fs Q = Some (0, Q') \<and> I Q')" if I: "I Q" for Q
  proof -
    have fm: "file_mgr Q = ?m" using I by (simp add: I_def)
    let ?Q' = "push_frame (content ?i) (move (length p + 12) Q\<lparr>currActive := M_Include\<rparr>)"
    have "process_step fill fs Q = Some (0, ?Q')"
    proof (rule self_include_step [OF _ _ assms(5) _ i])
      show "top_ok Q" using inv [OF I] by blast
      show "rest Q = ''#include '' @ CHR 0x22 # p @ CHR 0x22 # LF # t" using inv [OF I] assms(6) by (simp only:)
      show "loadFile fill fs (Some p) (file_mgr Q) = (?i, file_mgr Q)" unfolding fm by (rule again)
    qed
    moreover have "I ?Q'" using fm by (simp add: I_def push_frame_def sourceContent_def cursor_def)
    ultimately show ?thesis using I by (auto simp: I_def)
  qed
  ultimately show ?thesis by (rule process_None [rotated])
qed

text \<open>
  C27: A file whose first line includes the file itself makes \<open>process\<close> push its frame again and
  again: it never returns. Nothing guards against cyclic inclusion.
\<close>

theorem self_include_diverges:
  assumes "fs (full_path base p) = Some bytes" and "c_str p = p" and "p \<noteq> []" and "p \<noteq> EMPTY_SV"
    and "CHR 0x22 \<notin> set p" and "normalize bytes = ''#include '' @ CHR 0x22 # p @ CHR 0x22 # LF # t"
    and "length p + 1 + length bytes < 2 ^ 32"
  shows "process fill fs (init_preprocessor fill fs base (Some p) lvl) = None"
  by (rule self_include_none [of fs base p bytes t fill lvl, OF assms])

definition self_source :: string where
  "self_source = ''#include '' @ [CHR 0x22] @ ''a'' @ [CHR 0x22] @ [LF]"

lemma self_source_facts:
  "c_str ''a'' = ''a''" "''a'' \<noteq> []" "''a'' \<noteq> EMPTY_SV" "CHR 0x22 \<notin> set ''a''"
  "normalize self_source = ''#include '' @ CHR 0x22 # ''a'' @ CHR 0x22 # LF # []"
  "length ''a'' + 1 + length self_source < 2 ^ 32"
proof -
  show "''a'' \<noteq> EMPTY_SV" by (simp add: EMPTY_SV_def numeral_eq_Suc)
  show "normalize self_source = ''#include '' @ CHR 0x22 # ''a'' @ CHR 0x22 # LF # []"
    by (simp add: self_source_def normalize_id)
qed (simp_all add: c_str_a self_source_def)

abbreviation self_files :: "string \<Rightarrow> string option" where
  "self_files \<equiv> (\<lambda>_. Some self_source)"

theorem self_include_diverges_witness:
  "process CHR ''?'' self_files (init_preprocessor CHR ''?'' self_files None (Some ''a'') Log_Off) = None"
  by (rule self_include_diverges [OF refl self_source_facts])


end
