(* ===== verification/Preproc_Cond.thy ===== *)
theory Preproc_Cond
  imports Preproc_Directives
begin

text \<open>
  Conditionals on text: what \<open>#ifndef\<close> does with the text up to its \<open>#endif\<close>. Text that is skipped
  may hold further conditionals, which are skipped as a whole.
\<close>

section \<open>Text in front of a directive\<close>

text \<open>
  Text whose comments and literals are closed, without directives: what a \<open>#\<close> behind it means does
  not depend on it.
\<close>

function closed :: "string \<Rightarrow> bool" where
  "closed t = (if t = [] then True
     else hd t \<noteq> CHR ''#'' \<and> chunk_len (t @ ''#'') = chunk_len t \<and> closed (drop (chunk_len t) t))"
  by pat_completeness auto
termination
  by (relation "measure length") (simp_all add: chunk_drop_less del: chunk_len.simps)

declare closed.simps [simp del]

text \<open>Characters that start no directive, literal or comment.\<close>

definition quiet :: "char \<Rightarrow> bool" where
  "quiet c \<longleftrightarrow> c \<noteq> CHR ''#'' \<and> c \<noteq> CHR 0x22 \<and> c \<noteq> CHR 0x27 \<and> c \<noteq> CHR ''/''"

text \<open>A word ends before a text.\<close>

definition word_ends :: "string \<Rightarrow> bool" where
  "word_ends t \<longleftrightarrow> t = [] \<or> \<not> IS_IDENT_CHAR (hd t)"

lemma not_ident: "\<not> IS_IDENT_CHAR CHR ''#''" "\<not> IS_IDENT_CHAR LF" "\<not> IS_IDENT_CHAR CHR '' ''"
  by (simp_all add: IS_IDENT_CHAR_conv ident_6bit_nonzero ident_byte_def)

lemma word_ends_append: "word_ends t \<Longrightarrow> word_ends s \<Longrightarrow> word_ends (t @ s)"
  by (cases t) (simp_all add: word_ends_def)

lemma word_ends_simps [simp]: "word_ends []" "word_ends (CHR ''#'' # t)" "word_ends (LF # t)" "word_ends (CHR '' '' # t)"
  by (simp_all add: word_ends_def not_ident)

lemma sv_find_extend: "sv_find s t = Some k \<Longrightarrow> sv_find s (t @ u) = Some k"
proof (induction s t arbitrary: k rule: sv_find.induct)
  case (1 s)
  then show ?case by (cases u) (simp_all split: if_splits)
next
  case (2 s c t)
  show ?case
  proof (cases "take (length s) (c # t) = s")
    case True
    then have "length s \<le> length (c # t)" by (metis length_take min.cobounded1)
    with True have "take (length s) (c # t @ u) = s" by (metis append_Cons append_take_drop_id append_eq_conv_conj append_assoc take_append)
    with True 2(2) show ?thesis by simp
  next
    case False
    then obtain j where j: "sv_find s t = Some j" "k = Suc j" using 2(2) by auto
    then have "length s \<le> length (c # t)" using sv_find_bound [OF j(1)] by simp
    then have "take (length s) (c # t @ u) = take (length s) (c # t)" by (metis append_Cons take_append diff_is_0_eq take_0 append_Nil2)
    then show ?thesis using False 2(1) [OF _ j(1)] j(2) by simp
  qed
qed

lemma sv_find_within: "sv_find s (t @ u) = Some k \<Longrightarrow> k + length s \<le> length t \<Longrightarrow> sv_find s t = Some k"
proof (induction t arbitrary: k)
  case Nil
  then show ?case by (cases u) (auto split: if_splits)
next
  case (Cons c t)
  show ?case
  proof (cases "take (length s) (c # t @ u) = s")
    case True
    then have "k = 0" using Cons.prems(1) by simp
    then have "take (length s) (c # t @ u) = take (length s) (c # t)"
      using Cons.prems(2) by (metis add_0 append_Cons append_Nil2 diff_is_0_eq take_0 take_append)
    then show ?thesis using True \<open>k = 0\<close> by simp
  next
    case False
    then obtain j where j: "sv_find s (t @ u) = Some j" "k = Suc j" using Cons.prems(1) by auto
    then have "take (length s) (c # t @ u) = take (length s) (c # t)"
      using Cons.prems(2) by (metis append_Cons append_Nil2 diff_is_0_eq le_add2 le_trans take_0 take_append)
    then show ?thesis using False Cons.IH [OF j(1)] j(2) Cons.prems(2) by simp
  qed
qed

lemma lit_len_closed: "lit_len q (t @ [CHR ''#'']) = lit_len q t \<Longrightarrow> lit_len q (t @ CHR ''#'' # u) = lit_len q t"
proof (induction q t rule: lit_len.induct)
  case (2 q c)
  then show ?case by (cases u) (auto split: if_splits)
qed (auto split: if_splits)

lemma chunk_len_closed:
  assumes "t \<noteq> []" and "chunk_len (t @ ''#'') = chunk_len t"
  shows "chunk_len (t @ CHR ''#'' # u) = chunk_len t"
proof (cases t)
  case (Cons c v)
  have line: "line_len (t @ CHR ''#'' # u) = line_len t" if "line_len (t @ ''#'') = line_len t"
    using that length_takeWhile_le [of "\<lambda>c. c \<noteq> LF" t]
    by (cases "LF \<in> set t") (auto simp: line_len_def Let_def takeWhile_append split: if_splits)
  have block: "block_len (t @ CHR ''#'' # u) = block_len t"
    if "block_len (t @ ''#'') = block_len t" "2 \<le> length t"
  proof (cases "sv_find ''*/'' (drop 2 t)")
    case None
    have "sv_find ''*/'' (drop 2 t @ ''#'') \<noteq> Some k" if "k + 4 = length t" for k
    proof -
      have "k + length ''*/'' \<le> length (drop 2 t)" using that by simp
      then show ?thesis using sv_find_within [of "''*/''" "drop 2 t" "''#''" k] None by auto
    qed
    with that None show ?thesis by (auto simp: block_len_def split: option.splits)
  next
    case (Some k)
    then show ?thesis using that(2) sv_find_extend [OF Some] by (simp add: block_len_def)
  qed
  have word: "ident_len (t @ CHR ''#'' # u) = ident_len t"
    by (simp add: ident_len_def takeWhile_append not_ident takeWhile_eq_all_conv [THEN iffD2])
  show ?thesis
  proof (cases v)
    case Nil
    then show ?thesis using Cons assms(2) word line lit_len_closed [of c v u] by auto
  next
    case (Cons d w)
    then show ?thesis
      using \<open>t = c # v\<close> assms(2) word line block lit_len_closed [of c v u] by (auto split: if_splits)
  qed
qed (use assms in simp)

lemma closed_quiet: "list_all quiet b \<Longrightarrow> closed b"
proof (induction b rule: closed.induct)
  case (1 b)
  show ?case
  proof (cases "b = []")
    case False
    then have "hd b \<noteq> CHR ''#'' \<and> chunk_len (b @ ''#'') = chunk_len b"
      using 1(2) by (cases b) (auto simp: quiet_def ident_len_def takeWhile_append not_ident
          takeWhile_eq_all_conv [THEN iffD2])
    moreover have "list_all quiet (drop (chunk_len b) b)" using 1(2) by (auto simp: list_all_iff dest: in_set_dropD)
    ultimately show ?thesis using 1(1) False by (subst closed.simps) simp
  qed (simp add: closed.simps)
qed

text \<open>The loop of \<open>process\<close> over such text.\<close>

lemma process_closed:
  assumes "top_ok P" and "rest P = b @ CHR ''#'' # t" and "closed b"
  shows "process fill fs P = process fill fs (emit (expand (macro_text P) b) (move (length b) P))"
  using assms
proof (induction "length b" arbitrary: P b rule: less_induct)
  case less
  show ?case
  proof (cases "b = []")
    case True
    then show ?thesis using move_0 [OF less(2)] by (simp add: emit_def)
  next
    case False
    let ?n = "chunk_len b"
    let ?w = "expand_chunk (macro_text P) (take ?n b)"
    let ?P1 = "emit ?w (move ?n P)"
    have le: "?n \<le> length b" by (rule chunk_len_le)
    have c: "hd b \<noteq> CHR ''#''" "chunk_len (b @ ''#'') = ?n" "closed (drop ?n b)"
      using less(4) False by (simp_all add: closed.simps [of b])
    have n: "chunk_len (rest P) = ?n" using chunk_len_closed [OF False c(2)] less(3) by simp
    have "process_step fill fs P = Some (0, ?P1)"
      using process_step_text [OF less(2), of fill fs] less(3) False c(1) n le by (simp add: Let_def)
    then have p: "process fill fs P = process fill fs ?P1" using process_turn [OF less(2)] by blast
    have ok1: "top_ok ?P1" "rest ?P1 = drop ?n b @ CHR ''#'' # t"
      using move_ok [OF less(2), of ?n] less(3) le by simp_all
    have "process fill fs ?P1 =
        process fill fs (emit (expand (macro_text ?P1) (drop ?n b)) (move (length (drop ?n b)) ?P1))"
      using less(1) [of "drop ?n b" ?P1] ok1 c(3) chunk_drop_less [OF False] by simp
    then show ?thesis
      using p le expand.simps [of "macro_text P" b] False by (simp add: move_move)
  qed
qed

section \<open>Skipped text\<close>

text \<open>
  Where the skipped text stands: inside of a nested conditional, where \<open>#else\<close> and \<open>#elif\<close> end
  nothing, or in a branch, when no branch of its conditional was taken yet or when one was. In the
  last case \<open>#else\<close> and \<open>#elif\<close> are passed over as lines.
\<close>

datatype skip_mode = Nested | Pending | Done

text \<open>
  \<open>skippable m d t\<close>: in \<open>t\<close> every comment, literal and conditional is closed, at most \<open>d\<close>
  conditionals are nested, and the directives outside of them are none that ends skipping.
  Definitions are skipped as a line or up to their \<open>#enddef\<close>, whatever they hold. Unlike \<open>process\<close>,
  skipping knows no escapes in literals, and the quote of one kind is none inside the other.
\<close>

inductive skippable :: "skip_mode \<Rightarrow> nat \<Rightarrow> string \<Rightarrow> bool" where
  empty: "skippable m d []"
| char: "quiet c \<Longrightarrow> skippable m d t \<Longrightarrow> skippable m d (c # t)"
| slash: "t = [] \<or> hd t \<noteq> CHR ''/'' \<and> hd t \<noteq> CHR ''*'' \<Longrightarrow> skippable m d t \<Longrightarrow> skippable m d (CHR ''/'' # t)"
| line: "LF \<notin> set u \<Longrightarrow> skippable m d t \<Longrightarrow> skippable m d (''//'' @ u @ LF # t)"
| block: "sv_find ''*/'' (u @ ''*/'') = Some (length u) \<Longrightarrow> skippable m d t \<Longrightarrow>
    skippable m d (''/*'' @ u @ ''*/'' @ t)"
| literal: "\<lbrakk>q = CHR 0x22 \<or> q = CHR 0x27; CHR 0x22 \<notin> set u; CHR 0x27 \<notin> set u; skippable m d t\<rbrakk> \<Longrightarrow>
    skippable m d (q # u @ q # t)"
| macro: "\<lbrakk>word_ends u; LF \<notin> set u; skippable m d t\<rbrakk> \<Longrightarrow> skippable m d (''#define'' @ u @ LF # t)"
| macro_m: "\<lbrakk>word_ends u; sv_find ''#enddef'' (u @ ''#enddef'') = Some (length u); skippable m d t\<rbrakk> \<Longrightarrow>
    skippable m d (''#define_m'' @ u @ ''#enddef'' @ t)"
| skip: "\<lbrakk>word_ends u; LF \<notin> set u; LF \<notin> set v; skippable m d t\<rbrakk> \<Longrightarrow>
    skippable m d (''#skip'' @ u @ LF # v @ LF # t)"
| other: "\<lbrakk>\<forall>c \<in> set w. IS_IDENT_CHAR c; word_ends t;
    macro_hash_match (CHR ''#'' # w) \<notin> {M_If, M_Ifndef, M_Define, M_Define_M, M_Skip, M_Endif};
    m = Nested \<or> macro_hash_match (CHR ''#'' # w) \<notin> {M_Else, M_Elif}; skippable m d t\<rbrakk> \<Longrightarrow>
    skippable m d (CHR ''#'' # w @ t)"
| later: "\<lbrakk>w \<in> {''else'', ''elif''}; word_ends u; LF \<notin> set u; skippable Done d t\<rbrakk> \<Longrightarrow>
    skippable Done d (CHR ''#'' # w @ u @ LF # t)"
| nest: "\<lbrakk>w \<in> {''if'', ''ifndef''}; word_ends b; skippable Nested d b; word_ends t; skippable m (Suc d) t\<rbrakk> \<Longrightarrow>
    skippable m (Suc d) (CHR ''#'' # w @ b @ ''#endif'' @ t)"

lemma skip_turn:
  assumes "top_ok P" and "rest P \<noteq> []" and "0 < n" and "skip_step (P, s2, s1, n) = Inl (P', t2, t1, n')"
  shows "skip_loop P s2 s1 n = skip_loop P' t2 t1 n'"
  using assms not_end_iff [OF assms(1)] by (subst skip_loop.simps) simp

lemma skip_quiet:
  assumes ok: "top_ok P" and r: "rest P = c # t" and q: "quiet c" and n: "0 < n"
  shows "skip_loop P False False n = skip_loop (move 1 P) False False n"
proof -
  have "currChar P = c" by (rule currChar_rest [OF ok r])
  then have "skip_step (P, False, False, n) = Inl (move 1 P, False, False, n)"
    using q advance_move [OF ok] r by (simp add: skip_step_def Let_def quiet_def)
  then show ?thesis using skip_turn [OF ok _ n] r by simp
qed

lemma skip_at_directive:
  assumes ok: "top_ok P" and r: "rest P = CHR ''#'' # w @ t"
    and w: "\<forall>c \<in> set w. IS_IDENT_CHAR c" and t: "word_ends t"
  shows "read_directive P = (CHR ''#'' # w, move (Suc (length w)) P)"
    and "skip_step (P, False, False, n) = (case skip_directive P n of
      Inl (P, n) \<Rightarrow> Inl (P, False, False, n) | Inr r \<Rightarrow> Inr r)"
proof -
  show "read_directive P = (CHR ''#'' # w, move (Suc (length w)) P)"
    using read_directive_text [OF ok r] ident_len_append [OF w] t by (simp add: word_ends_def)
  have "currChar P = CHR ''#''" by (rule currChar_rest [OF ok r])
  then show "skip_step (P, False, False, n) = (case skip_directive P n of
      Inl (P, n) \<Rightarrow> Inl (P, False, False, n) | Inr r \<Rightarrow> Inr r)"
    by (simp add: skip_step_def Let_def)
qed

lemma skip_over_directive:
  assumes ok: "top_ok P" and r: "rest P = CHR ''#'' # w @ t"
    and w: "\<forall>c \<in> set w. IS_IDENT_CHAR c" and t: "word_ends t" and n: "0 < n"
    and d: "skip_directive P n = Inl (P', n')"
  shows "skip_loop P False False n = skip_loop P' False False n'"
  using skip_turn [OF ok _ n] skip_at_directive(2) [OF ok r w t, of n] r d by simp

lemma directive_letters:
  "\<forall>c \<in> set ''if''. IS_IDENT_CHAR c" "\<forall>c \<in> set ''ifndef''. IS_IDENT_CHAR c" "\<forall>c \<in> set ''endif''. IS_IDENT_CHAR c"
  "\<forall>c \<in> set ''else''. IS_IDENT_CHAR c" "\<forall>c \<in> set ''elif''. IS_IDENT_CHAR c"
  by (simp_all add: IS_IDENT_CHAR_conv ident_6bit_nonzero ident_byte_def)

lemma move_over:
  assumes "top_ok P" and "rest P = a @ t" and "k = length a"
  shows "top_ok (move k P)" and "rest (move k P) = t"
  using move_ok [OF assms(1), of k] assms(2,3) by simp_all

text \<open>Comments and literals.\<close>

lemma skip_at_slash:
  assumes ok: "top_ok P" and r: "rest P = CHR ''/'' # t"
  shows "skip_step (P, False, False, n) = Inl (move
    (if t \<noteq> [] \<and> hd t = CHR ''/'' then line_len (CHR ''/'' # t)
     else if t \<noteq> [] \<and> hd t = CHR ''*'' then block_len (CHR ''/'' # t) else 1) P, False, False, n)"
proof -
  have ch: "currChar P = CHR ''/''" by (rule currChar_rest [OF ok r])
  have nx: "cursor P + 1 < ssize P \<and> nextChar P = d \<longleftrightarrow> t \<noteq> [] \<and> hd t = d" for d
    using nextChar_rest [OF ok] next_below_rest [OF ok] r by (cases t) auto
  have adv: "set_cursor (cursor P + 1) P = move 1 P" by (rule advance_move [OF ok]) (simp add: r)
  have line: "skip_line_or_end P = move (line_len (CHR ''/'' # t)) P" using skip_line_or_end_move [OF ok] r by simp
  have block: "set_cursor (if findNext_seq ''*/'' (move 2 P) = PCursorMax then ssize P
      else findNext_seq ''*/'' (move 2 P) + 2) (move 2 P) = move (block_len (CHR ''/'' # t)) P" (is "?lhs = _")
    if "t \<noteq> []"
  proof -
    have ok2: "top_ok (move 2 P)" "rest (move 2 P) = drop 1 t"
      using move_ok [OF ok, of 2] r that by (cases t; simp)+
    let ?k = "case sv_find ''*/'' (rest (move 2 P)) of None \<Rightarrow> length (rest (move 2 P)) | Some n \<Rightarrow> n + length ''*/''"
    have "block_len (CHR ''/'' # t) = 2 + ?k"
      using that ok2(2) by (cases t) (simp_all add: block_len_def split: option.splits)
    moreover have "?lhs = move ?k (move 2 P)"
      using seq_end_move [OF ok2(1), of "''*/''" 2] unfolding move_frame by (rule meta_mp) simp_all
    ultimately show ?thesis by (simp only: move_move)
  qed
  have two: "set_cursor (cursor P + 2) P = move 2 P" by (simp add: move_def)
  show ?thesis
    using nx [of "CHR ''/''"] nx [of "CHR ''*''"] line block two adv by (auto simp: skip_step_def ch Let_def)
qed

lemma skip_comment:
  assumes ok: "top_ok P" and r: "rest P = CHR ''/'' # t" and n: "0 < n"
    and k: "k = (if t \<noteq> [] \<and> hd t = CHR ''/'' then line_len (CHR ''/'' # t)
      else if t \<noteq> [] \<and> hd t = CHR ''*'' then block_len (CHR ''/'' # t) else 1)"
  shows "skip_loop P False False n = skip_loop (move k P) False False n"
  using skip_turn [OF ok _ n skip_at_slash [OF ok r]] r k by simp

lemma skip_in_literal:
  assumes "top_ok P" and "rest P = u @ q # t" and "CHR 0x22 \<notin> set u" and "CHR 0x27 \<notin> set u"
    and "q = (if b then CHR 0x22 else CHR 0x27)" and "0 < n"
  shows "skip_loop P b (\<not> b) n = skip_loop (move (Suc (length u)) P) False False n"
  using assms
proof (induction u arbitrary: P)
  case Nil
  have "currChar P = q" by (rule currChar_rest [OF Nil(1)]) (simp add: Nil(2))
  then have "skip_step (P, b, \<not> b, n) = Inl (move 1 P, False, False, n)"
    using advance_move [OF Nil(1)] Nil by (cases b) (simp_all add: skip_step_def Let_def)
  then show ?case using skip_turn [OF Nil(1) _ Nil(6)] Nil(2) by simp
next
  case (Cons c u)
  have "currChar P = c" by (rule currChar_rest [OF Cons(2)]) (simp add: Cons(3))
  then have "skip_step (P, b, \<not> b, n) = Inl (move 1 P, b, \<not> b, n)"
    using advance_move [OF Cons(2)] Cons(3-5) by (cases b) (auto simp: skip_step_def Let_def)
  then have "skip_loop P b (\<not> b) n = skip_loop (move 1 P) b (\<not> b) n"
    using skip_turn [OF Cons(2) _ Cons(7)] Cons(3) by simp
  also have "\<dots> = skip_loop (move (Suc (length u)) (move 1 P)) False False n"
    using move_ok [OF Cons(2), of 1] Cons by (intro Cons.IH) simp_all
  finally show ?case by (simp add: move_move)
qed

lemma skip_literal:
  assumes ok: "top_ok P" and r: "rest P = q # u @ q # t" and q: "q = CHR 0x22 \<or> q = CHR 0x27"
    and u: "CHR 0x22 \<notin> set u" "CHR 0x27 \<notin> set u" and n: "0 < n"
  shows "skip_loop P False False n = skip_loop (move (length u + 2) P) False False n"
proof -
  let ?b = "q = CHR 0x22"
  have "currChar P = q" by (rule currChar_rest [OF ok r])
  then have "skip_step (P, False, False, n) = Inl (move 1 P, ?b, \<not> ?b, n)"
    using advance_move [OF ok] r q by (auto simp: skip_step_def Let_def)
  then have "skip_loop P False False n = skip_loop (move 1 P) ?b (\<not> ?b) n"
    using skip_turn [OF ok _ n] r by simp
  also have "\<dots> = skip_loop (move (Suc (length u)) (move 1 P)) False False n"
    using move_ok [OF ok, of 1] r q n u by (intro skip_in_literal [of _ u q t]) auto
  finally show ?thesis by (simp add: move_move)
qed

text \<open>Directives that are passed over with the rest of their lines.\<close>

lemma line_len_until: "LF \<notin> set u \<Longrightarrow> line_len (u @ LF # t) = Suc (length u)"
  using takeWhile_until [of LF u] by (simp add: line_len_def Let_def)

lemma block_len_until:
  assumes "sv_find ''*/'' (u @ ''*/'') = Some (length u)"
  shows "block_len (''/*'' @ u @ ''*/'' @ t) = length u + 4"
  using sv_find_extend [OF assms, of t] by (simp add: block_len_def)

lemma skip_line_directive:
  assumes ok: "top_ok P" and r: "rest P = CHR ''#'' # w @ u @ LF # t"
    and w: "\<forall>c \<in> set w. IS_IDENT_CHAR c" and u: "word_ends u" "LF \<notin> set u" and n: "0 < n"
    and d: "skip_directive P n = Inl (skip_line_or_end (move (Suc (length w)) P), n)"
  shows "skip_loop P False False n = skip_loop (move (length w + length u + 2) P) False False n"
proof -
  have ok1: "top_ok (move (Suc (length w)) P)" "rest (move (Suc (length w)) P) = u @ LF # t"
    using move_ok [OF ok, of "Suc (length w)"] r by simp_all
  have "skip_line_or_end (move (Suc (length w)) P) = move (length w + length u + 2) P"
    using skip_line_or_end_move [OF ok1(1)] ok1(2) line_len_until [OF u(2)] by (simp add: move_move)
  then show ?thesis
    using skip_over_directive [OF ok _ w _ n d] r word_ends_append [OF u(1)] by simp
qed

lemma skip_define_m:
  assumes ok: "top_ok P" and r: "rest P = ''#define_m'' @ u @ ''#enddef'' @ t" and u: "word_ends u"
    and e: "sv_find ''#enddef'' (u @ ''#enddef'') = Some (length u)" and n: "0 < n"
  shows "skip_loop P False False n = skip_loop (move (length u + 16) P) False False n"
proof -
  let ?P1 = "move 9 P"
  have ok1: "top_ok ?P1" "rest ?P1 = u @ ''#enddef'' @ t" using move_ok [OF ok, of 9] r by simp_all
  have t: "word_ends (u @ ''#enddef'' @ t)" using u by (simp add: word_ends_append)
  have r': "rest P = CHR ''#'' # ''define_m'' @ (u @ ''#enddef'' @ t)" using r by simp
  note read = skip_at_directive(1) [OF ok r' _ t]
  have l: "\<forall>c \<in> set ''define_m''. IS_IDENT_CHAR c"
    by (simp_all add: IS_IDENT_CHAR_conv ident_6bit_nonzero ident_byte_def)
  have k7: "(7 :: u32) = of_nat (length ''#enddef'')" by simp
  have "sv_find ''#enddef'' (rest ?P1) = Some (length u)" using sv_find_extend [OF e, of t] ok1(2) by simp
  then have m: "set_cursor (if findNext_seq ''#enddef'' ?P1 = PCursorMax then ssize ?P1
      else findNext_seq ''#enddef'' ?P1 + 7) ?P1 = move (length u + 16) P" (is "?next = _")
    using seq_end_move [OF ok1(1) _ k7] by (simp add: move_move ac_simps)
  have "read_directive P = (''#define_m'', ?P1)" using read [OF l] by (simp add: eval_nat_numeral)
  then have "skip_directive P n = Inl (?next, n)" by (simp add: skip_directive_def Let_def)
  then have "skip_directive P n = Inl (move (length u + 16) P, n)" by (simp only: m)
  then show ?thesis by (rule skip_over_directive [OF ok r' l t n])
qed

lemma skip_skip:
  assumes ok: "top_ok P" and r: "rest P = ''#skip'' @ u @ LF # v @ LF # t"
    and u: "word_ends u" "LF \<notin> set u" "LF \<notin> set v" and n: "0 < n"
  shows "skip_loop P False False n = skip_loop (move (length u + length v + 7) P) False False n"
proof -
  let ?P1 = "move 5 P"
  have ok1: "top_ok ?P1" "rest ?P1 = u @ LF # v @ LF # t" using move_ok [OF ok, of 5] r by simp_all
  have t: "word_ends (u @ LF # v @ LF # t)" using u(1) by (simp add: word_ends_append)
  have r': "rest P = CHR ''#'' # ''skip'' @ (u @ LF # v @ LF # t)" using r by simp
  note read = skip_at_directive(1) [OF ok r' ident_letters(3) t]
  note f = findNext_char_text [OF ok1 u(2)]
  let ?P2 = "move (Suc (length u)) ?P1"
  have ok2: "top_ok ?P2" "rest ?P2 = v @ LF # t" using move_ok [OF ok1(1), of "Suc (length u)"] ok1(2) by simp_all
  have m: "set_cursor (findNext_char LF ?P1 + 1) ?P1 = ?P2"
    using f(1) by (simp add: move_def add.assoc)
  have "skip_line_or_end ?P2 = move (length u + length v + 7) P"
    using skip_line_or_end_move [OF ok2(1)] ok2(2) line_len_until [OF u(3)]
    by (simp add: move_move eval_nat_numeral ac_simps)
  then have "skip_directive P n = Inl (move (length u + length v + 7) P, n)"
    using f(2) m by (simp add: skip_directive_def read Let_def eval_nat_numeral)
  then show ?thesis by (rule skip_over_directive [OF ok r' ident_letters(3) t n])
qed

lemma skip_skippable:
  assumes "skippable m d b" and "top_ok P" and "rest P = b @ CHR ''#'' # t"
    and "0 < n" and "m = Nested \<longleftrightarrow> n \<noteq> 1" and "unat n + d < 65536"
    and "m = Done \<Longrightarrow> branchFlags P \<noteq> [] \<and> hd (branchFlags P) AND EVER_TAKEN \<noteq> 0"
  shows "skip_loop P False False n = skip_loop (move (length b) P) False False n"
  using assms
proof (induction arbitrary: P t n rule: skippable.induct)
  case (empty m d)
  then show ?case using move_0 by simp
next
  case (char c m d b)
  have ok1: "top_ok (move 1 P)" "rest (move 1 P) = b @ CHR ''#'' # t"
    using move_ok [of P 1] char.prems by simp_all
  have "skip_loop P False False n = skip_loop (move 1 P) False False n"
    using skip_quiet char by simp
  also have "\<dots> = skip_loop (move (length b) (move 1 P)) False False n"
    using char.prems by (intro char.IH [OF ok1]) simp_all
  finally show ?case by (simp add: move_move)
next
  case (slash b m d)
  have ok1: "top_ok (move 1 P)" "rest (move 1 P) = b @ CHR ''#'' # t"
    using move_ok [of P 1] slash.prems by simp_all
  have "hd (b @ CHR ''#'' # t) \<noteq> CHR ''/'' \<and> hd (b @ CHR ''#'' # t) \<noteq> CHR ''*''"
    using slash.hyps(1) by (cases b) simp_all
  then have "skip_loop P False False n = skip_loop (move 1 P) False False n"
    using slash.prems by (intro skip_comment [of P "b @ CHR ''#'' # t"]) simp_all
  also have "\<dots> = skip_loop (move (length b) (move 1 P)) False False n"
    using slash.prems by (intro slash.IH [OF ok1]) simp_all
  finally show ?case by (simp add: move_move)
next
  case (line u m d b)
  have r: "rest P = (''//'' @ u) @ LF # (b @ CHR ''#'' # t)" using line.prems(2) by simp
  have k: "line_len ((''//'' @ u) @ LF # (b @ CHR ''#'' # t)) = length u + 3"
    using line.hyps(1) line_len_until [of "''//'' @ u"] by simp
  have "skip_loop P False False n = skip_loop (move (length u + 3) P) False False n"
    using k r by (intro skip_comment [OF line.prems(1) _ line.prems(3), of "CHR ''/'' # u @ LF # b @ CHR ''#'' # t"]) simp_all
  also have "\<dots> = skip_loop (move (length b) (move (length u + 3) P)) False False n"
    using line.prems move_over [OF line.prems(1), of "''//'' @ u @ [LF]" "b @ CHR ''#'' # t" "length u + 3"] r
    by (intro line.IH) simp_all
  finally show ?case by (simp add: move_move eval_nat_numeral)
next
  case (block u m d b)
  have r: "rest P = ''/*'' @ u @ ''*/'' @ (b @ CHR ''#'' # t)" using block.prems(2) by simp
  note k = block_len_until [OF block.hyps(1), of "b @ CHR ''#'' # t"]
  have "skip_loop P False False n = skip_loop (move (length u + 4) P) False False n"
    using k r by (intro skip_comment [OF block.prems(1) _ block.prems(3), of "CHR ''*'' # u @ ''*/'' @ b @ CHR ''#'' # t"])
      simp_all
  also have "\<dots> = skip_loop (move (length b) (move (length u + 4) P)) False False n"
    using block.prems move_over [OF block.prems(1), of "''/*'' @ u @ ''*/''" "b @ CHR ''#'' # t" "length u + 4"] r
    by (intro block.IH) simp_all
  finally show ?case by (simp add: move_move eval_nat_numeral)
next
  case (literal q u m d b)
  have r: "rest P = q # u @ q # (b @ CHR ''#'' # t)" using literal.prems(2) by simp
  have "skip_loop P False False n = skip_loop (move (length u + 2) P) False False n"
    by (rule skip_literal [OF literal.prems(1) r literal.hyps(1-3) literal.prems(3)])
  also have "\<dots> = skip_loop (move (length b) (move (length u + 2) P)) False False n"
    using literal.prems move_over [OF literal.prems(1), of "q # u @ [q]" "b @ CHR ''#'' # t" "length u + 2"] r
    by (intro literal.IH) simp_all
  finally show ?case by (simp add: move_move)
next
  case (macro u m d b)
  have r: "rest P = CHR ''#'' # ''define'' @ u @ LF # (b @ CHR ''#'' # t)" using macro.prems by simp
  have t: "word_ends (u @ LF # (b @ CHR ''#'' # t))" using macro.hyps(1) by (simp add: word_ends_append)
  note read = skip_at_directive(1) [OF macro.prems(1) r ident_letters(1) t]
  have "skip_loop P False False n = skip_loop (move (length ''define'' + length u + 2) P) False False n"
    by (rule skip_line_directive [OF macro.prems(1) r ident_letters(1) macro.hyps(1,2) macro.prems(3)])
      (simp add: skip_directive_def read Let_def eval_nat_numeral)
  also have "\<dots> = skip_loop (move (length b) (move (length ''define'' + length u + 2) P)) False False n"
    using macro.prems move_over [OF macro.prems(1), of "''#define'' @ u @ [LF]" "b @ CHR ''#'' # t" "length ''define'' + length u + 2"] r
    by (intro macro.IH) simp_all
  finally show ?case by (simp add: move_move eval_nat_numeral)
next
  case (macro_m u m d b)
  have r: "rest P = ''#define_m'' @ u @ ''#enddef'' @ (b @ CHR ''#'' # t)" using macro_m.prems by simp
  have "skip_loop P False False n = skip_loop (move (length u + 16) P) False False n"
    by (rule skip_define_m [OF macro_m.prems(1) r macro_m.hyps(1,2) macro_m.prems(3)])
  also have "\<dots> = skip_loop (move (length b) (move (length u + 16) P)) False False n"
    using macro_m.prems move_over [OF macro_m.prems(1), of "''#define_m'' @ u @ ''#enddef''" "b @ CHR ''#'' # t" "length u + 16"] r
    by (intro macro_m.IH) simp_all
  finally show ?case by (simp add: move_move eval_nat_numeral)
next
  case (skip u v m d b)
  have r: "rest P = ''#skip'' @ u @ LF # v @ LF # (b @ CHR ''#'' # t)" using skip.prems by simp
  have "skip_loop P False False n = skip_loop (move (length u + length v + 7) P) False False n"
    by (rule skip_skip [OF skip.prems(1) r skip.hyps(1-3) skip.prems(3)])
  also have "\<dots> = skip_loop (move (length b) (move (length u + length v + 7) P)) False False n"
    using skip.prems move_over [OF skip.prems(1), of "''#skip'' @ u @ [LF] @ v @ [LF]" "b @ CHR ''#'' # t" "length u + length v + 7"] r
    by (intro skip.IH) simp_all
  finally show ?case by (simp add: move_move eval_nat_numeral add.assoc)
next
  case (other w b m d)
  have r: "rest P = CHR ''#'' # w @ (b @ CHR ''#'' # t)" using other.prems by simp
  have t: "word_ends (b @ CHR ''#'' # t)" using other(2) by (simp add: word_ends_append)
  note read = skip_at_directive(1) [OF other.prems(1) r other(1) t]
  let ?P1 = "move (Suc (length w)) P"
  have "skip_directive P n = Inl (?P1, n)"
    using other(3,4) other.prems(4) by (auto simp: skip_directive_def read Let_def)
  then have "skip_loop P False False n = skip_loop ?P1 False False n"
    using skip_over_directive [OF other.prems(1) r other(1) t] other.prems by simp
  also have "\<dots> = skip_loop (move (length b) ?P1) False False n"
    using move_ok [OF other.prems(1), of "Suc (length w)"] r other.prems by (intro other.IH) simp_all
  finally show ?case by (simp add: move_move)
next
  case (later w u d b)
  have r: "rest P = CHR ''#'' # w @ u @ LF # (b @ CHR ''#'' # t)" using later.prems by simp
  have w: "\<forall>c \<in> set w. IS_IDENT_CHAR c" using later.hyps(1) directive_letters by auto
  have t: "word_ends (u @ LF # (b @ CHR ''#'' # t))" using later.hyps(2) by (simp add: word_ends_append)
  note read = skip_at_directive(1) [OF later.prems(1) r w t]
  have "n = 1" using later.prems(4) by simp
  then have "skip_directive P n = Inl (skip_line_or_end (move (Suc (length w)) P), n)"
    unfolding skip_directive_def read using later.prems(6) later.hyps(1) by (auto simp: Let_def)
  then have "skip_loop P False False n = skip_loop (move (length w + length u + 2) P) False False n"
    by (rule skip_line_directive [OF later.prems(1) r w later.hyps(2,3) later.prems(3)])
  also have "\<dots> = skip_loop (move (length b) (move (length w + length u + 2) P)) False False n"
    using later.prems move_over [OF later.prems(1), of "CHR ''#'' # w @ u @ [LF]" "b @ CHR ''#'' # t" "length w + length u + 2"] r
    by (intro later.IH) simp_all
  finally show ?case by (simp add: move_move add.assoc)
next
  case (nest w b d u m)
  have r: "rest P = CHR ''#'' # w @ (b @ ''#endif'' @ u @ CHR ''#'' # t)" using nest.prems by simp
  have w: "\<forall>c \<in> set w. IS_IDENT_CHAR c" using nest(1) directive_letters by auto
  have t: "word_ends (b @ ''#endif'' @ u @ CHR ''#'' # t)"
    by (rule word_ends_append [OF nest(2)]) simp
  note read = skip_at_directive(1) [OF nest.prems(1) r w t]
  let ?P1 = "move (Suc (length w)) P"
  have ok1: "top_ok ?P1" "rest ?P1 = b @ CHR ''#'' # (''endif'' @ u @ CHR ''#'' # t)"
    using move_ok [OF nest.prems(1), of "Suc (length w)"] r by simp_all
  have n1: "unat (n + 1) = unat n + 1" using nest.prems(5) by (subst unat_add_lt) simp_all
  have pos: "0 < n + 1" "n + 1 \<noteq> 1" using n1 nest.prems(3) by (auto simp: word_less_nat_alt)
  have h: "macro_hash_match (CHR ''#'' # w) = M_If \<or> macro_hash_match (CHR ''#'' # w) = M_Ifndef"
    using nest(1) by auto
  have "skip_directive P n = Inl (?P1, n + 1)"
    unfolding skip_directive_def read Let_def prod.case if_P [OF h] by (rule refl)
  then have "skip_loop P False False n = skip_loop ?P1 False False (n + 1)"
    using skip_over_directive [OF nest.prems(1) r w t] nest.prems by simp
  also have "\<dots> = skip_loop (move (length b) ?P1) False False (n + 1)"
    using nest.prems(5) n1 pos by (intro nest.IH(1) [OF ok1]) simp_all
  also have "\<dots> = skip_loop (move 6 (move (length b) ?P1)) False False n"
  proof -
    let ?P2 = "move (length b) ?P1"
    have ok2: "top_ok ?P2" "rest ?P2 = CHR ''#'' # ''endif'' @ (u @ CHR ''#'' # t)"
      using move_ok [OF ok1(1), of "length b"] ok1(2) by simp_all
    have t2: "word_ends (u @ CHR ''#'' # t)" using nest.hyps(4) by (simp add: word_ends_append)
    note read2 = skip_at_directive(1) [OF ok2 directive_letters(3) t2]
    have "skip_directive ?P2 (n + 1) = Inl (move 6 ?P2, n)"
      using pos by (simp add: skip_directive_def read2 Let_def eval_nat_numeral)
    then show ?thesis by (rule skip_over_directive [OF ok2 directive_letters(3) t2 pos(1)])
  qed
  also have "\<dots> = skip_loop (move (length u) (move 6 (move (length b) ?P1))) False False n"
    using move_ok [OF ok1(1), of "length b + 6"] ok1(2) nest.prems
    by (intro nest.IH(2)) (simp_all add: move_move)
  finally show ?case by (simp add: move_move eval_nat_numeral ac_simps)
qed

section \<open>The end of a branch\<close>

lemma top_ok_push_flags [simp]: "top_ok (push_flags b P) = top_ok P" "rest (push_flags b P) = rest P"
  by (simp_all add: push_flags_def top_ok_def rest_def frame_text_def text_of_def)

lemma skip_branch_text:
  assumes ok: "top_ok P" and r: "rest P = b @ CHR ''#'' # w @ t"
    and w: "\<forall>c \<in> set w. IS_IDENT_CHAR c" and t: "word_ends t"
    and b: "skippable m d b" "d < 65535" "m \<noteq> Nested"
    and f: "m = Done \<Longrightarrow> branchFlags P \<noteq> [] \<and> hd (branchFlags P) AND EVER_TAKEN \<noteq> 0"
    and d: "skip_directive (move (length b) P) 1 = Inr r'"
  shows "skip_if_branch P = r'"
proof -
  let ?P1 = "move (length b) P"
  have ok1: "top_ok ?P1" "rest ?P1 = CHR ''#'' # w @ t"
    using move_ok [OF ok, of "length b"] r by simp_all
  have "skip_step (?P1, False, False, 1) = Inr r'"
    using skip_at_directive(2) [OF ok1 w t, of 1] d by simp
  moreover have "cursor ?P1 < ssize ?P1" using not_end_iff [OF ok1(1)] ok1(2) by simp
  ultimately have "skip_loop ?P1 False False 1 = r'" by (subst skip_loop.simps) simp
  moreover have "skip_loop P False False 1 = skip_loop ?P1 False False 1"
    using b f by (intro skip_skippable [OF b(1) ok, of "w @ t"]) (simp_all add: r)
  ultimately show ?thesis by (simp add: skip_if_branch_def)
qed

text \<open>Skipping ends behind the line of an \<open>#endif\<close>, or of an \<open>#else\<close> when no branch was taken yet.\<close>

lemma skip_if_branch_to:
  assumes ok: "top_ok P" and r: "rest P = b @ CHR ''#'' # w @ u @ LF # t"
    and w: "w = ''endif'' \<or> w = ''else'' \<and> hd (branchFlags P) AND EVER_TAKEN = 0"
    and b: "skippable m d b" "d < 65535" "m \<noteq> Nested"
    and f: "m = Done \<Longrightarrow> branchFlags P \<noteq> [] \<and> hd (branchFlags P) AND EVER_TAKEN \<noteq> 0"
    and u: "word_ends u" "LF \<notin> set u"
  shows "skip_if_branch P = (0, move (length b + length w + length u + 2) P)"
proof -
  let ?P1 = "move (length b) P" and ?n = "length b + length w + length u + 2"
  have ok1: "top_ok ?P1" "rest ?P1 = CHR ''#'' # w @ (u @ LF # t)"
    using move_ok [OF ok, of "length b"] r by simp_all
  have letters: "\<forall>c \<in> set w. IS_IDENT_CHAR c" using w directive_letters by auto
  have t: "word_ends (u @ LF # t)" using u(1) by (simp add: word_ends_append)
  note read = skip_at_directive(1) [OF ok1 letters t]
  let ?P2 = "move (Suc (length w)) ?P1"
  have ok2: "top_ok ?P2" "rest ?P2 = u @ LF # t"
    using move_ok [OF ok1(1), of "Suc (length w)"] ok1(2) by simp_all
  note f' = findNext_char_text [OF ok2 u(2)]
  have "end_branching ?P2 = (0, move ?n P)"
    using f' by (simp add: end_branching_def move_def add.assoc) (simp add: ac_simps)
  then have "skip_directive ?P1 1 = Inr (0, move ?n P)"
    unfolding skip_directive_def read using w by (auto simp: Let_def)
  then show ?thesis using skip_branch_text [OF ok _ letters t b f] r by simp
qed

text \<open>At an \<open>#elif\<close> when no branch was taken yet, it ends behind the word.\<close>

lemma skip_if_branch_to_elif:
  assumes ok: "top_ok P" and r: "rest P = b @ ''#elif'' @ t" and t: "word_ends t"
    and b: "skippable Pending d b" "d < 65535" and f: "hd (branchFlags P) AND EVER_TAKEN = 0"
  shows "skip_if_branch P = (105102, move (length b + 5) P)"
proof -
  let ?P1 = "move (length b) P"
  have ok1: "top_ok ?P1" "rest ?P1 = CHR ''#'' # ''elif'' @ t" using move_ok [OF ok, of "length b"] r by simp_all
  note read = skip_at_directive(1) [OF ok1 directive_letters(5) t]
  have "skip_directive ?P1 1 = Inr (105102, move (length b + 5) P)"
    unfolding skip_directive_def read using f by (simp add: Let_def move_move eval_nat_numeral)
  then show ?thesis using skip_branch_text [OF ok _ directive_letters(5) t b] r by simp
qed

text \<open>\<open>#ifndef\<close> on a name: past the line, with the flags of the new branch.\<close>

lemma handle_ifndef_text:
  assumes ok: "top_ok P" and r: "rest P = CHR '' '' # w @ v @ LF # t"
    and w: "w \<noteq> []" "\<forall>c \<in> set w. IS_IDENT_CHAR c" and v: "word_ends v" "LF \<notin> set v"
    and Q: "Q = (move (length w + length v + 2) P)\<lparr>currActive := M_Ifndef\<rparr>"
  shows "handle_ifndef P = Some
    (if isDefined w P then skip_if_branch (push_flags False Q) else (0, push_flags True Q))"
proof -
  let ?P0 = "P\<lparr>currActive := M_Ifndef\<rparr>" and ?n = "length w"
  have ok0: "top_ok ?P0" "rest ?P0 = rest P" using ok by simp_all
  have "blank CHR '' ''" "\<not> blank (hd w)"
    using w ident_not_space [of "hd w"] by (simp_all add: blank_def)
  then have "takeWhile blank (rest P) = [CHR '' '']" using r w(1) by (cases w) simp_all
  then have s1: "ol ?P0 = move 1 ?P0" using ol_text [OF ok0(1)] ok0(2) by simp
  let ?P1 = "move 1 ?P0"
  have ok1: "top_ok ?P1" "rest ?P1 = w @ (v @ LF # t)" using move_ok [OF ok, of 1] r by simp_all
  have "ident_len (rest ?P1) = ?n"
    using ident_len_append [OF w(2), of "v @ LF # t"] word_ends_append [OF v(1), of "LF # t"] ok1(2)
    by (simp add: word_ends_def not_ident)
  then have s2: "skip_ident ?P1 = move ?n ?P1" using skip_ident_move [OF ok1(1)] by simp
  let ?P2 = "move ?n ?P1"
  define s where "s = from_cursor (cursor ?P1) ?P2"
  have ok2: "top_ok ?P2" "rest ?P2 = v @ LF # t" using move_ok [OF ok1(1), of ?n] ok1(2) by simp_all
  have s3: "skip_line ?P2 = Q"
    using skip_line_text [OF ok2 v(2)] by (simp add: Q move_move eval_nat_numeral)
  have "text_of ?P2 s = w" unfolding s_def using text_from [OF ok1(1), of ?n] ok1(2) by simp
  then have tx: "text_of Q s = w" using text_of_file [of Q ?P2] by (simp add: Q)
  have act: "currActive Q = M_Ifndef" by (simp add: Q)
  have "\<not> space (hd w)" "\<not> space (last w)" using w ident_not_space by auto
  then have "evalCondition Q s = Some (if \<not> isDefined w Q then 1 else 0)"
    using w(1) find_first_not_space_Some [of w] trim_sv_id [of w]
    by (subst evalCondition.simps) (simp add: tx act Let_def)
  moreover have "isDefined w Q = isDefined w P" by (simp add: isDefined_def Q)
  ultimately show ?thesis unfolding handle_ifndef_def Let_def s1 s2 s_def [symmetric] s3 by simp
qed

section \<open>Guarded text\<close>

text \<open>The branch that is taken: its text, then \<open>#endif\<close>, which drops the flags.\<close>

lemma process_taken_branch:
  assumes ok: "top_ok P" and r: "rest P = b @ ''#endif'' @ u @ LF # t" and b: "closed b"
    and u: "word_ends u" "LF \<notin> set u" and f: "branchFlags P = f # fl"
  shows "\<exists>Q. process fill fs P = process fill fs Q \<and> top_ok Q \<and> rest Q = t \<and>
    output_buffer Q = output_buffer P @ expand (macro_text P) b \<and> macro_text Q = macro_text P \<and>
    branchFlags Q = fl \<and> tl (inputStack Q) = tl (inputStack P)"
proof -
  let ?P1 = "emit (expand (macro_text P) b) (move (length b) P)"
  have r1: "rest P = b @ CHR ''#'' # (''endif'' @ u @ LF # t)" using r by simp
  have p1: "process fill fs P = process fill fs ?P1" by (rule process_closed [OF ok r1 b])
  have ok1: "top_ok ?P1" "rest ?P1 = CHR ''#'' # ''endif'' @ (u @ LF # t)"
    using move_ok [OF ok, of "length b"] r by simp_all
  have t: "u @ LF # t = [] \<or> \<not> IS_IDENT_CHAR (hd (u @ LF # t))"
    using word_ends_append [OF u(1), of "LF # t"] by (simp add: word_ends_def not_ident)
  let ?P2 = "(move 6 ?P1)\<lparr>currActive := M_Endif\<rparr>"
  have ok2: "top_ok ?P2" "rest ?P2 = u @ LF # t" using move_ok [OF ok1(1), of 6] ok1(2) by simp_all
  let ?P3 = "?P2\<lparr>branchFlags := fl\<rparr>"
  have ok3: "top_ok ?P3" "rest ?P3 = u @ LF # t"
    using ok2 by (simp_all add: top_ok_def rest_def frame_text_def text_of_def)
  let ?Q = "move (Suc (length u)) ?P3"
  have "process_step fill fs ?P1 = process_directive fill fs M_Endif ?P2"
    using process_step_directive [OF ok1 directive_letters(3) t, of M_Endif fill fs]
    by (simp add: eval_nat_numeral)
  also have "\<dots> = Some (0, ?Q)"
    using skip_line_text [OF ok3 u(2)] f by (simp add: process_directive_def handle_endif_def)
  finally have "process fill fs ?P1 = process fill fs ?Q" by (rule process_turn [OF ok1(1)]) simp
  moreover have "top_ok ?Q" "rest ?Q = t" using move_ok [OF ok3(1), of "Suc (length u)"] ok3(2) by simp_all
  moreover have "macro_text ?Q = macro_text P"
    by (simp add: macro_text_def fun_eq_iff text_of_def cong: if_cong)
  ultimately show ?thesis using p1 by (intro exI [of _ ?Q]) simp
qed

text \<open>
  C25: \<open>#ifndef\<close> guards the text up to its \<open>#endif\<close>: when the name is a macro, the text is dropped
  as a whole, with all definitions and nested conditionals in it, and otherwise text whose comments and
  literals are closed is put out, expanded. Preprocessing goes on behind the line of the \<open>#endif\<close>. (A branch that was skipped
  leaves its flags on the stack.)
\<close>

theorem ifndef_guards_text:
  assumes "top_ok P" and "tl (inputStack P) = []"
    and "rest P = ''#ifndef '' @ w @ v @ LF # b @ ''#endif'' @ u @ LF # t"
    and "w \<noteq> []" and "\<forall>c \<in> set w. IS_IDENT_CHAR c" and "word_ends v" and "LF \<notin> set v"
    and "if isDefined w P then skippable Pending d b \<and> d < 65535 else closed b"
    and "word_ends u" and "LF \<notin> set u" and "no_directive t"
  shows "\<exists>Q. process fill fs P = Some (0, Q) \<and>
    get_result Q = get_result P @ (if isDefined w P then [] else expand (macro_text P) b) @
      expand (macro_text P) t"
proof -
  let ?P1 = "move 7 P\<lparr>currActive := M_Ifndef\<rparr>" and ?n = "length w + length v + 2"
  have ok1: "top_ok ?P1" "rest ?P1 = CHR '' '' # w @ v @ LF # b @ ''#endif'' @ u @ LF # t"
    using move_ok [OF assms(1), of 7] assms(3) by simp_all
  let ?Q = "(move ?n ?P1)\<lparr>currActive := M_Ifndef\<rparr>"
  have okQ: "top_ok ?Q" "rest ?Q = b @ ''#endif'' @ u @ LF # t"
    using move_ok [OF ok1(1), of ?n] ok1(2) by simp_all
  have def: "isDefined w ?P1 = isDefined w P" by (simp add: isDefined_def)
  have "process_step fill fs P = process_directive fill fs M_Ifndef ?P1"
    using process_step_directive [OF assms(1), of "''ifndef''" _ M_Ifndef fill fs] assms(3)
      directive_letters(2) ident_letters(4) by (simp add: eval_nat_numeral)
  then have step: "process_step fill fs P = Some
      (if isDefined w P then skip_if_branch (push_flags False ?Q) else (0, push_flags True ?Q))"
    using handle_ifndef_text [OF ok1 assms(4-7) refl] def by (simp add: process_directive_def)
  show ?thesis
  proof (cases "isDefined w P")
    case True
    let ?Q1 = "move (length b + length ''endif'' + length u + 2) (push_flags False ?Q)"
    have ok: "top_ok (push_flags False ?Q)" "rest (push_flags False ?Q) = b @ CHR ''#'' # ''endif'' @ u @ LF # t"
      using okQ by simp_all
    have b: "skippable Pending d b" "d < 65535" using assms(8) True by simp_all
    have skip: "skip_if_branch (push_flags False ?Q) = (0, ?Q1)"
      by (rule skip_if_branch_to [OF ok _ b _ _ assms(9,10)]) simp_all
    then have p: "process fill fs P = process fill fs ?Q1"
      using process_turn [OF assms(1)] step True skip by simp
    have ok2: "top_ok ?Q1" "rest ?Q1 = t"
      using move_ok [OF ok(1), of "length b + length ''endif'' + length u + 2"] ok(2) by (simp_all add: eval_nat_numeral)
    have "macro_text ?Q1 = macro_text P" "tl (inputStack ?Q1) = []" "output_buffer ?Q1 = output_buffer P"
      using assms(2) by (simp_all add: macro_text_def fun_eq_iff text_of_def push_flags_def cong: if_cong)
    then show ?thesis
      using process_finish [OF ok2(1), of fill fs] ok2(2) assms(11) p True by (simp add: get_result_def)
  next
    case False
    let ?Q1 = "push_flags True ?Q"
    have ok: "top_ok ?Q1" "rest ?Q1 = b @ ''#endif'' @ u @ LF # t" using okQ by simp_all
    have p: "process fill fs P = process fill fs ?Q1" using process_turn [OF assms(1)] step False by simp
    have same: "macro_text ?Q1 = macro_text P" "tl (inputStack ?Q1) = []" "output_buffer ?Q1 = output_buffer P"
      using assms(2) by (simp_all add: macro_text_def fun_eq_iff text_of_def push_flags_def cong: if_cong)
    have b: "closed b" using assms(8) False by simp
    obtain R where R: "process fill fs ?Q1 = process fill fs R" "top_ok R" "rest R = t"
        "output_buffer R = output_buffer P @ expand (macro_text P) b" "macro_text R = macro_text P"
        "tl (inputStack R) = []"
      using process_taken_branch [OF ok b assms(9,10) push_flags_flags, of fill fs] same by auto
    then show ?thesis
      using process_finish [OF R(2), of fill fs] assms(11) p False by (simp add: get_result_def)
  qed
qed

definition guarded_source :: string where
  "guarded_source = ''#ifndef N'' @ [LF] @ ''x #if 1'' @ [LF] @ ''#endif'' @ [LF] @ ''#endif'' @ [LF] @ ''y''"

lemma guarded_source_skippable:
  "skippable Pending 1 (''x #if 1'' @ [LF] @ ''#endif'' @ [LF])"
proof -
  have "word_ends '' 1'' \<and> word_ends [LF] \<and> list_all quiet ('' 1'' @ [LF]) \<and> list_all quiet ''x '' \<and> quiet LF"
    by code_simp
  then have "skippable Pending (Suc 0) (CHR ''x'' # CHR '' '' # CHR ''#'' # ''if'' @ ('' 1'' @ [LF]) @ ''#endif'' @ [LF])"
    by (intro skippable.char skippable.nest) (auto intro!: skippable.intros simp: word_ends_def)
  then show ?thesis by simp
qed

definition guarded_state :: "(string \<Rightarrow> Defined option) \<Rightarrow> Preprocessor" where
  "guarded_state M =
     init_preprocessor CHR ''?'' (\<lambda>_. Some guarded_source) None (Some ''a'') Log_Off\<lparr>storedMacros := M\<rparr>"

theorem ifndef_guards_text_witness:
  "\<exists>Q. process CHR ''?'' (\<lambda>_. None) (guarded_state
      [''N'' \<mapsto> \<lparr>def_content = SNIPPET_SENT, def_t = M_Define, def_flags = 0\<rparr>]) = Some (0, Q) \<and>
    get_result Q = ''y''"
proof -
  let ?P0 = "init_preprocessor CHR ''?'' (\<lambda>_. Some guarded_source) None (Some ''a'') Log_Off"
  let ?P = "guarded_state [''N'' \<mapsto> \<lparr>def_content = SNIPPET_SENT, def_t = M_Define, def_flags = 0\<rparr>]"
  have len: "length (c_str ''a'') + 1 + length guarded_source < 2 ^ 32"
    by (simp add: c_str_a guarded_source_def)
  have i: "top_ok ?P" "rest ?P = normalize guarded_source" "tl (inputStack ?P) = []" "output_buffer ?P = []"
    using init_loaded(1-3,5) [of "\<lambda>_. Some guarded_source" None "''a''" guarded_source "CHR ''?''" Log_Off, OF refl len]
    by (simp_all add: guarded_state_def)
  have r: "rest ?P = ''#ifndef '' @ ''N'' @ [] @ LF # (''x #if 1'' @ [LF] @ ''#endif'' @ [LF]) @ ''#endif'' @ [] @ LF # ''y''"
    unfolding i(2) by (subst normalize_id) (simp_all add: guarded_source_def)
  have "\<forall>c \<in> set ''N''. IS_IDENT_CHAR c" by code_simp
  moreover have "no_directive ''y''" by (rule no_directive_plain) simp
  moreover have "isDefined ''N'' ?P" by (simp add: isDefined_def guarded_state_def)
  moreover have "expand M ''y'' = ''y''" if "M ''y'' = None" for M
    using that by (subst expand.simps) (simp add: expand_chunk_def ident_len_def)
  moreover have "macro_text ?P ''y'' = None" by (simp add: macro_text_def guarded_state_def)
  ultimately show ?thesis
    using ifndef_guards_text [OF i(1,3) r, of 1 "CHR ''?''" "\<lambda>_. None"] guarded_source_skippable i(4)
    by (simp add: get_result_def)
qed

end
