(* ===== verification/Preproc_Branch.thy ===== *)
theory Preproc_Branch
  imports Preproc_Cond
begin

text \<open>
  \<open>#if\<close> and \<open>#else\<close> on text: the value of a condition, stated on strings, and the branch that is
  put out.
\<close>

section \<open>Conditions\<close>

text \<open>What an operand of a comparison stands for, with the macros \<open>M\<close>.\<close>

definition operand :: "(string \<Rightarrow> string option) \<Rightarrow> string \<Rightarrow> string" where
  "operand M s = (case M s of Some v \<Rightarrow> if v = [] then s else trim_sv v | None \<Rightarrow> s)"

definition bool_words :: "string set" where
  "bool_words = {''0'', ''false'', ''1'', ''true''}"

text \<open>
  The value of a condition: a literal, a comparison of two operands as texts, or a macro, which
  stands for the condition its text is; a macro without a text is true and a name that is no
  macro is false.
\<close>

inductive condition :: "(string \<Rightarrow> string option) \<Rightarrow> string \<Rightarrow> bool \<Rightarrow> bool" for M where
  none: "trim_sv c = [] \<Longrightarrow> condition M c False"
| no: "trim_sv c \<in> {''0'', ''false''} \<Longrightarrow> condition M c False"
| yes: "trim_sv c \<in> {''1'', ''true''} \<Longrightarrow> condition M c True"
| equal: "\<lbrakk>trim_sv c = s; s \<notin> bool_words; sv_find ''=='' s = Some k;
    b \<longleftrightarrow> operand M (trim_sv (take k s)) = operand M (trim_sv (drop (k + 2) s))\<rbrakk> \<Longrightarrow> condition M c b"
| differ: "\<lbrakk>trim_sv c = s; s \<notin> bool_words; sv_find ''=='' s = None; sv_find ''!='' s = Some k;
    b \<longleftrightarrow> operand M (trim_sv (take k s)) \<noteq> operand M (trim_sv (drop (k + 2) s))\<rbrakk> \<Longrightarrow> condition M c b"
| macro: "\<lbrakk>trim_sv c = s; s \<notin> bool_words; s \<noteq> []; sv_find ''=='' s = None; sv_find ''!='' s = None;
    M s = Some v; v \<noteq> []; condition M v b\<rbrakk> \<Longrightarrow> condition M c b"
| flag: "\<lbrakk>trim_sv c = s; s \<notin> bool_words; s \<noteq> []; sv_find ''=='' s = None; sv_find ''!='' s = None;
    M s = Some []\<rbrakk> \<Longrightarrow> condition M c True"
| unknown: "\<lbrakk>trim_sv c = s; s \<notin> bool_words; s \<noteq> []; sv_find ''=='' s = None; sv_find ''!='' s = None;
    M s = None\<rbrakk> \<Longrightarrow> condition M c False"

text \<open>The texts of the macros are in the buffer.\<close>

definition macros_ok :: "Preprocessor \<Rightarrow> bool" where
  "macros_ok P \<longleftrightarrow> (\<forall>n d. storedMacros P n = Some d \<longrightarrow> in_bounds (file_mgr P) (def_content d))"

lemma has_value_text:
  assumes "macros_ok P" and "storedMacros P n = Some d"
  shows "has_value d \<longleftrightarrow> text_of P (def_content d) \<noteq> []"
proof -
  have b: "in_bounds (file_mgr P) (def_content d)" using assms by (simp add: macros_ok_def)
  have "unat PLengthMax = 4294967295" "unat POffsetMax = 4294967295"
    by (simp_all add: PLengthMax_def POffsetMax_def unsigned_minus_1_eq_mask mask_eq_exp_minus_1)
  then have "def_content d \<noteq> SNIPPET_SENT" using b by (auto simp: in_bounds_def SNIPPET_SENT_def)
  moreover have "length (text_of P (def_content d)) = unat (snip_size (def_content d))"
    using b by (simp add: text_of_def length_snippet_text)
  ultimately show ?thesis by (auto simp: has_value_def word_neq_0_conv unat_gt_0 length_greater_0_conv [symmetric]
      simp del: length_greater_0_conv)
qed

lemma macro_text_Some:
  assumes "macros_ok P" and "storedMacros P n = Some d"
  shows "macro_text P n = Some (text_of P (def_content d))"
  using has_value_text [OF assms] assms(2) by (simp add: macro_text_def)

lemma operand_value_text: "macros_ok P \<Longrightarrow> operand_value s P = operand (macro_text P) s"
  using has_value_text [of P s] macro_text_Some [of P s]
  by (cases "storedMacros P s")
    (auto simp: operand_value_def operand_def isDefined_def findDefined_def Let_def macro_text_def)

lemma evalCondition_condition:
  assumes "condition M c b" and "macros_ok P" and "M = macro_text P"
    and "currActive P = M_If \<or> currActive P = M_Elif" and "text_of P cond = c"
  shows "evalCondition P cond = Some (if b then 1 else 0)"
  using assms
proof (induction arbitrary: cond rule: condition.induct)
  case (none c)
  have "evalCondition P cond = Some 0"
  proof (cases "find_first_not_space c = None")
    case False
    then obtain n where "find_first_not_space c = Some n" by auto
    then have "\<not> (\<forall>x \<in> set c. space x)"
      by (auto simp: find_first_not_space_def Let_def split: if_splits)
        (metis less_irrefl takeWhile_eq_all_conv)
    then have "trim_sv c \<noteq> []" by (auto simp: trim_sv_conv dropWhile_eq_Nil_conv)
      (metis set_dropWhileD dropWhile_eq_Nil_conv takeWhile_dropWhile_id Un_iff set_append set_takeWhileD)
    with none show ?thesis by simp
  qed (use none in \<open>subst evalCondition.simps, simp\<close>)
  then show ?case by simp
next
  case (macro c s v b)
  then obtain d where d: "storedMacros P s = Some d" by (auto simp: macro_text_def)
  have v: "text_of P (def_content d) = v" using macro_text_Some [OF macro.prems(1) d] macro by simp
  have "has_value d" using has_value_text [OF macro.prems(1) d] v macro by simp
  then have "evalCondition P cond = evalCondition P (def_content d)"
    using macro.hyps macro.prems d trim_sv_not_Nil [of c]
    by (subst evalCondition.simps) (auto simp: Let_def isDefined_def findDefined_def bool_words_def)
  then show ?case using macro.IH [OF macro.prems(1-3) v] by simp
next
  case (flag c s)
  then obtain d where d: "storedMacros P s = Some d" by (auto simp: macro_text_def)
  have "\<not> has_value d"
    using has_value_text [OF flag.prems(1) d] macro_text_Some [OF flag.prems(1) d] flag by simp
  then show ?case
    using flag d trim_sv_not_Nil [of c]
    by (subst evalCondition.simps) (auto simp: Let_def isDefined_def findDefined_def bool_words_def)
next
  case (unknown c s)
  then have "storedMacros P s = None" by (simp add: macro_text_def)
  then show ?case
    using unknown trim_sv_not_Nil [of c]
    by (subst evalCondition.simps) (auto simp: Let_def isDefined_def bool_words_def)
qed (use trim_sv_not_Nil operand_value_text in
    \<open>(subst evalCondition.simps, force simp: Let_def eval_comparison_def bool_words_def)+\<close>)

section \<open>Reading a condition\<close>

lemma getChar_before:
  assumes ok: "top_ok P" and n: "0 < n" "n \<le> length (rest P)"
  shows "getChar_snippet (file_mgr P) (sourceContent P) (cursor (move n P) - 1) = rest P ! (n - 1)"
proof -
  let ?e = "cursor (move n P)"
  have e: "unat ?e = unat (cursor P) + n" using cursor_move [OF ok n(2)] .
  have u: "unat (?e - 1) = unat (cursor P) + (n - 1)" using unat_diff_le [of 1 ?e] e n(1) by simp
  have "unat (cursor P) + n \<le> unat (ssize P)" using n(2) ok by (auto simp: length_rest top_ok_def word_le_nat_alt)
  then have "?e - 1 < ssize P" using u n(1) by (simp add: word_less_nat_alt)
  then have "getChar_snippet (file_mgr P) (sourceContent P) (?e - 1) = frame_text P ! unat (?e - 1)"
    using ok getChar_snippet_text by (simp add: top_ok_def frame_text_def text_of_def)
  also have "\<dots> = rest P ! (n - 1)" using u n by (simp add: rest_def)
  finally show ?thesis .
qed

text \<open>Back over blanks, to a character that is none.\<close>

lemma ol_back_text:
  assumes "top_ok P" and "0 < n" and "n + k \<le> length (rest P)" and "\<not> blank (rest P ! (n - 1))"
    and "\<forall>j < k. blank (rest P ! (n + j))"
  shows "ol_back (move (n + k) P) = move n P"
  using assms(3,5)
proof (induction k)
  case 0
  have "\<not> blank (getChar_snippet (file_mgr P) (sourceContent P) (cursor (move n P) - 1))"
    using getChar_before [OF assms(1,2)] 0 assms(4) by simp
  then show ?case by (subst ol_back.simps) simp
next
  case (Suc k)
  let ?Q = "move (n + Suc k) P"
  have "getChar_snippet (file_mgr P) (sourceContent P) (cursor ?Q - 1) = rest P ! (n + k)"
    using getChar_before [OF assms(1), of "n + Suc k"] Suc.prems(1) by simp
  then have b: "blank (getChar_snippet (file_mgr ?Q) (sourceContent ?Q) (cursor ?Q - 1))"
    using Suc.prems(2) by simp
  have "unat (cursor ?Q) = unat (cursor P) + (n + Suc k)" by (rule cursor_move [OF assms(1) Suc.prems(1)])
  then have pos: "0 < cursor ?Q" by (simp add: word_less_nat_alt)
  have "set_cursor (cursor ?Q - 1) ?Q = move (n + k) P" by (simp add: move_def)
  then have "ol_back ?Q = ol_back (move (n + k) P)" using b pos by (subst ol_back.simps) simp
  then show ?case using Suc.IH Suc.prems by simp
qed

lemma trim_sv_blanks:
  assumes "\<forall>x \<in> set a. space x" and "\<forall>x \<in> set b. space x"
  shows "trim_sv (a @ s @ b) = trim_sv s"
proof -
  have "dropWhile space (a @ s @ b) = dropWhile space (s @ b)"
    using assms(1) by (simp add: dropWhile_append)
  moreover have "dropWhile space (rev (dropWhile space (s @ b))) = dropWhile space (rev (dropWhile space s))"
  proof (cases "\<forall>x \<in> set s. space x")
    case True
    then have "dropWhile space (s @ b) = []" "dropWhile space s = []"
      using assms(2) by (auto simp: dropWhile_eq_Nil_conv)
    then show ?thesis by (simp only:)
  next
    case False
    then have "dropWhile space (s @ b) = dropWhile space s @ b" by (auto simp: dropWhile_append1)
    moreover have "dropWhile space (rev b @ u) = dropWhile space u" for u
      using assms(2) by (intro dropWhile_append2) simp
    ultimately show ?thesis by simp
  qed
  ultimately show ?thesis by (simp add: trim_sv_conv)
qed

lemma condition_trim: "trim_sv c = trim_sv c' \<Longrightarrow> condition M c b \<Longrightarrow> condition M c' b"
  by (erule condition.cases) (auto intro: condition.intros)

text \<open>A text that is not only blanks, without the blanks at its ends.\<close>

lemma split_blanks:
  assumes "\<exists>x \<in> set c. \<not> blank x"
  shows "\<exists>a s z. c = a @ s @ z \<and> a = takeWhile blank c \<and> s \<noteq> [] \<and> \<not> blank (last s) \<and>
    (\<forall>x \<in> set a. blank x) \<and> (\<forall>x \<in> set z. blank x)"
proof -
  let ?d = "dropWhile blank c"
  let ?s = "rev (dropWhile blank (rev ?d))" and ?z = "rev (takeWhile blank (rev ?d))"
  have d: "?d \<noteq> []" using assms by (auto simp: dropWhile_eq_Nil_conv)
  then have "\<not> blank (hd ?d)" by (rule hd_dropWhile)
  then have "dropWhile blank (rev ?d) \<noteq> []" using hd_in_set [OF d] by (auto simp: dropWhile_eq_Nil_conv)
  moreover have "c = takeWhile blank c @ ?s @ ?z"
    by (simp flip: rev_append)
  moreover have "\<not> blank (last ?s)" using calculation(1) hd_dropWhile [of blank "rev ?d"] by (simp add: last_rev)
  ultimately show ?thesis
    by (intro exI [of _ "takeWhile blank c"] exI [of _ ?s] exI [of _ ?z]) (auto dest: set_takeWhileD)
qed

lemma blank_space: "blank x \<Longrightarrow> space x"
  by (auto simp: blank_def space_def)

lemma read_condition_text:
  assumes ok: "top_ok P" and r: "rest P = c @ LF # t" and c: "LF \<notin> set c" "\<exists>x \<in> set c. \<not> blank x"
  shows "\<exists>cond. read_condition (ol P) (findNext_char LF (ol P)) = (cond, move (Suc (length c)) P) \<and>
    findNext_char LF (ol P) \<noteq> PCursorMax \<and>
    (\<forall>Q. file_mgr Q = file_mgr P \<longrightarrow> trim_sv (text_of Q cond) = trim_sv c)"
proof -
  obtain a s z where s: "c = a @ s @ z" "a = takeWhile blank c" "s \<noteq> []" "\<not> blank (last s)"
      "\<forall>x \<in> set a. blank x" "\<forall>x \<in> set z. blank x"
    using split_blanks [OF c(2)] by blast
  let ?P1 = "move (length a) P"
  have "takeWhile blank (rest P) = a" using r c(2) s(2) by (auto simp: takeWhile_append1)
  then have o: "ol P = ?P1" using ol_text [OF ok] by simp
  have ok1: "top_ok ?P1" "rest ?P1 = (s @ z) @ LF # t"
    using move_ok [OF ok, of "length a"] r s(1) by simp_all
  have lf: "LF \<notin> set (s @ z)" using c(1) s(1) by simp
  note f = findNext_char_text [OF ok1 lf]
  have e: "set_cursor (findNext_char LF ?P1) ?P1 = move (length s + length z) ?P1"
    using f(1) by (simp add: move_def)
  have "rest ?P1 ! (length s - 1) = last s" using ok1(2) s(3) by (simp add: nth_append last_conv_nth)
  then have over: "ol_back (move (length s + length z) ?P1) = move (length s) ?P1"
    using s(3,4,6) ok1(2) by (intro ol_back_text [OF ok1(1)]) (auto simp: nth_append)
  let ?cond = "from_cursor (cursor ?P1) (move (length s) ?P1)"
  have m: "set_cursor (findNext_char LF ?P1 + 1) (move (length s) ?P1) = move (Suc (length c)) P"
    using f(1) s(1) by (simp add: move_def add.assoc) (simp add: ac_simps)
  have reads: "read_condition ?P1 (findNext_char LF ?P1) = (?cond, move (Suc (length c)) P)"
    by (simp only: read_condition_def Let_def e over m)
  have "text_of (move (length s) ?P1) ?cond = s" using text_from [OF ok1(1), of "length s"] ok1(2) by simp
  then have of_cond: "text_of Q ?cond = s" if "file_mgr Q = file_mgr P" for Q
    using that text_of_file [of Q "move (length s) ?P1"] by simp
  have "trim_sv s = trim_sv c" using trim_sv_blanks [of a z s] s(1,5,6) blank_space by simp
  then show ?thesis unfolding o using reads f(2) of_cond by (intro exI [of _ ?cond]) simp
qed

lemma handle_if_text:
  assumes ok: "top_ok P" and r: "rest P = c @ LF # t" and c: "LF \<notin> set c" "\<exists>x \<in> set c. \<not> blank x"
    and v: "condition (macro_text P) c b" "macros_ok P"
    and Q: "Q = (move (Suc (length c)) P)\<lparr>currActive := M_If\<rparr>"
  shows "handle_if P = Some (if b then (0, push_flags True Q) else skip_if_branch (push_flags False Q))"
proof -
  let ?P0 = "P\<lparr>currActive := M_If\<rparr>"
  have ok0: "top_ok ?P0" "rest ?P0 = c @ LF # t" using ok r by simp_all
  obtain cond where cond: "read_condition (ol ?P0) (findNext_char LF (ol ?P0)) = (cond, move (Suc (length c)) ?P0)"
      "findNext_char LF (ol ?P0) \<noteq> PCursorMax" "\<forall>Q. file_mgr Q = file_mgr ?P0 \<longrightarrow> trim_sv (text_of Q cond) = trim_sv c"
    using read_condition_text [OF ok0 c] by blast
  have q: "move (Suc (length c)) ?P0 = Q" by (simp add: Q)
  have t: "trim_sv (text_of Q cond) = trim_sv c" using cond(3) Q by simp
  have M: "macro_text Q = macro_text P" "macros_ok Q" "currActive Q = M_If"
    using v(2) by (simp_all add: Q macros_ok_def)
  have "condition (macro_text Q) (text_of Q cond) b" using condition_trim [OF t [symmetric]] v(1) M(1) by simp
  then have "evalCondition Q cond = Some (if b then 1 else 0)"
    using evalCondition_condition [OF _ M(2) refl, of _ b cond] M(3) by blast
  then show ?thesis
    unfolding handle_if_def Let_def using cond(1,2) q by (cases b) simp_all
qed

text \<open>
  An \<open>#if\<close> with blanks and no condition: going back over the blanks passes the place where the
  condition begins, and the size of its snippet wraps around.
\<close>

lemma empty_condition_wraps:
  assumes ok: "top_ok P" and r: "rest P = ''#if'' @ a @ LF # t" and a: "\<forall>x \<in> set a. blank x"
  shows "snip_size (fst (read_condition (ol (move 3 P)) (findNext_char LF (ol (move 3 P))))) = - of_nat (length a)"
proof -
  let ?P1 = "move 3 P"
  have ok1: "top_ok ?P1" "rest ?P1 = a @ LF # t" using move_ok [OF ok, of 3] r by simp_all
  have lf: "\<not> blank LF" by (simp add: blank_def)
  have "takeWhile blank (rest ?P1) = a" using ok1(2) a lf by (simp add: takeWhile_append2)
  then have o: "ol ?P1 = move (3 + length a) P" using ol_text [OF ok1(1)] by (simp add: move_move)
  let ?P2 = "move (3 + length a) P"
  have ok2: "top_ok ?P2" "rest ?P2 = [] @ LF # t" using move_ok [OF ok1(1), of "length a"] ok1(2) by (simp_all add: move_move)
  have e: "findNext_char LF ?P2 = cursor ?P2" using findNext_char_text(1) [OF ok2] move_0 [OF ok2(1)] by simp
  have s: "set_cursor (cursor ?P2) ?P2 = ?P2" by (simp add: move_def)
  have "ol_back ?P2 = move 3 P"
    using r a by (intro ol_back_text [OF ok]) (auto simp: nth_append blank_def)
  then show ?thesis
    unfolding o e by (simp add: read_condition_def Let_def s from_cursor_def) (simp add: move_def)
qed

section \<open>Two branches\<close>

lemma set_flags_simps [simp]:
  "top_ok (set_flags f P) = top_ok P" "rest (set_flags f P) = rest P" "file_mgr (set_flags f P) = file_mgr P"
  "tl (inputStack (set_flags f P)) = tl (inputStack P)" "output_buffer (set_flags f P) = output_buffer P"
  "macro_text (set_flags f P) = macro_text P"
  by (simp_all add: set_flags_def top_ok_def rest_def frame_text_def text_of_def macro_text_def fun_eq_iff cong: if_cong)

lemma push_flags_simps [simp]:
  "tl (inputStack (push_flags b P)) = tl (inputStack P)" "output_buffer (push_flags b P) = output_buffer P"
  "macro_text (push_flags b P) = macro_text P"
  by (simp_all add: push_flags_def macro_text_def fun_eq_iff text_of_def cong: if_cong)

lemma ever_taken: "branch_flags True AND EVER_TAKEN \<noteq> 0" "branch_flags False AND EVER_TAKEN = 0"
  "(branch_flags True AND NOT ACTIVE) AND EVER_TAKEN \<noteq> 0"
  by (simp_all add: branch_flags_def ACTIVE_def EVER_TAKEN_def)

text \<open>The branch in front of \<open>#else\<close> is taken: its text, then nothing up to the end.\<close>

lemma process_if_taken:
  assumes ok: "top_ok P" and r: "rest P = b1 @ ''#else'' @ u1 @ LF # b2 @ ''#endif'' @ u2 @ LF # t"
    and f: "branchFlags P = branch_flags True # fl" and b1: "closed b1"
    and b2: "skippable Done d b2" "d < 65535"
    and u: "word_ends u1" "LF \<notin> set u1" "word_ends u2" "LF \<notin> set u2"
  shows "\<exists>Q. process fill fs P = process fill fs Q \<and> top_ok Q \<and> rest Q = t \<and>
    output_buffer Q = output_buffer P @ expand (macro_text P) b1 \<and> macro_text Q = macro_text P \<and>
    tl (inputStack Q) = tl (inputStack P)"
proof -
  let ?P1 = "emit (expand (macro_text P) b1) (move (length b1) P)"
  let ?close = "b2 @ CHR ''#'' # ''endif'' @ u2 @ LF # t"
  have r1: "rest P = b1 @ CHR ''#'' # (''else'' @ u1 @ LF # ?close)" using r by simp
  have p1: "process fill fs P = process fill fs ?P1" by (rule process_closed [OF ok r1 b1])
  have ok1: "top_ok ?P1" "rest ?P1 = CHR ''#'' # ''else'' @ (u1 @ LF # ?close)"
    using move_ok [OF ok, of "length b1"] r by simp_all
  have t: "u1 @ LF # ?close = [] \<or> \<not> IS_IDENT_CHAR (hd (u1 @ LF # ?close))"
    using word_ends_append [OF u(1), of "LF # ?close"] by (simp add: word_ends_def not_ident)
  let ?P2 = "(move 5 ?P1)\<lparr>currActive := M_Else\<rparr>"
  have ok2: "top_ok ?P2" "rest ?P2 = u1 @ LF # ?close" using move_ok [OF ok1(1), of 5] ok1(2) by simp_all
  let ?P3 = "move (Suc (length u1)) ?P2"
  have ok3: "top_ok ?P3" "rest ?P3 = ?close" using move_ok [OF ok2(1), of "Suc (length u1)"] ok2(2) by simp_all
  let ?P4 = "set_flags (branch_flags True AND NOT ACTIVE) ?P3"
  let ?Q = "move (length b2 + length ''endif'' + length u2 + 2) ?P4"
  have ok4: "top_ok ?P4" "rest ?P4 = ?close" using ok3 by simp_all
  have skip: "skip_if_branch ?P4 = (0, ?Q)"
    using ever_taken(3) by (intro skip_if_branch_to [OF ok4 _ b2 _ _ u(3,4)]) (simp_all add: set_flags_def)
  have "process_step fill fs ?P1 = process_directive fill fs M_Else ?P2"
    using process_step_directive [OF ok1 directive_letters(4) t, of M_Else fill fs]
    by (simp add: eval_nat_numeral)
  also have "\<dots> = Some (0, ?Q)"
    using skip_line_text [OF ok2 u(2)] f ever_taken(1) skip
    by (simp add: process_directive_def handle_else_def Let_def)
  finally have "process fill fs ?P1 = process fill fs ?Q" by (rule process_turn [OF ok1(1)]) simp
  moreover have "top_ok ?Q" "rest ?Q = t"
    using move_ok [OF ok4(1), of "length b2 + length ''endif'' + length u2 + 2"] ok4(2)
    by (simp_all add: eval_nat_numeral)
  moreover have "macro_text ?Q = macro_text P" by simp
  ultimately show ?thesis using p1 by (intro exI [of _ ?Q]) simp
qed

text \<open>
  C24: \<open>#if\<close> with an \<open>#else\<close> puts out exactly one branch, expanded: the first when the condition
  is true and the second when it is false. The condition is a literal, a comparison of macro values
  and texts, or a macro that stands for a further condition. The other branch is dropped as a
  whole, with all definitions and nested conditionals in it, and preprocessing goes on behind the
  line of the \<open>#endif\<close>.
\<close>

theorem if_else_selects_branch:
  assumes "top_ok P" and "tl (inputStack P) = []" and "macros_ok P"
    and "rest P = ''#if'' @ c @ LF # b1 @ ''#else'' @ u1 @ LF # b2 @ ''#endif'' @ u2 @ LF # t"
    and "word_ends c" and "LF \<notin> set c" and "\<exists>x \<in> set c. \<not> blank x"
    and "condition (macro_text P) c b"
    and "closed (if b then b1 else b2)" and "if b then skippable Done d b2 else skippable Pending d b1" and "d < 65535"
    and "word_ends u1" and "LF \<notin> set u1" and "word_ends u2" and "LF \<notin> set u2" and "no_directive t"
  shows "\<exists>Q. process fill fs P = Some (0, Q) \<and>
    get_result Q = get_result P @ expand (macro_text P) (if b then b1 else b2) @ expand (macro_text P) t"
proof -
  let ?second = "''else'' @ u1 @ LF # b2 @ ''#endif'' @ u2 @ LF # t"
  let ?P1 = "move 3 P\<lparr>currActive := M_If\<rparr>"
  have ok1: "top_ok ?P1" "rest ?P1 = c @ LF # b1 @ CHR ''#'' # ?second"
    using move_ok [OF assms(1), of 3] assms(4) by simp_all
  have macros: "macro_text ?P1 = macro_text P" "macros_ok ?P1" using assms(3) by (simp_all add: macros_ok_def)
  let ?Q = "(move (Suc (length c)) ?P1)\<lparr>currActive := M_If\<rparr>"
  have okQ: "top_ok ?Q" "rest ?Q = b1 @ CHR ''#'' # ?second"
    using move_ok [OF ok1(1), of "Suc (length c)"] ok1(2) by simp_all
  have same: "macro_text ?Q = macro_text P" "tl (inputStack ?Q) = []" "output_buffer ?Q = output_buffer P"
    using assms(2) by simp_all
  have ends: "c @ LF # b1 @ CHR ''#'' # ?second = [] \<or> \<not> IS_IDENT_CHAR (hd (c @ LF # b1 @ CHR ''#'' # ?second))"
    using word_ends_append [OF assms(5), of "LF # b1 @ CHR ''#'' # ?second"] by (simp add: word_ends_def not_ident)
  have r: "rest P = CHR ''#'' # ''if'' @ (c @ LF # b1 @ CHR ''#'' # ?second)" using assms(4) by simp
  have "process_step fill fs P = process_directive fill fs M_If ?P1"
    using process_step_directive [OF assms(1) r directive_letters(1) ends, of M_If fill fs]
    by (simp add: eval_nat_numeral)
  then have step: "process_step fill fs P = Some
      (if b then (0, push_flags True ?Q) else skip_if_branch (push_flags False ?Q))"
    using handle_if_text [OF ok1 assms(6,7) _ macros(2) refl, of b] assms(8) macros(1)
    by (simp add: process_directive_def)
  have "\<exists>R. process fill fs P = process fill fs R \<and> top_ok R \<and> rest R = t \<and>
      output_buffer R = output_buffer P @ expand (macro_text P) (if b then b1 else b2) \<and>
      macro_text R = macro_text P \<and> tl (inputStack R) = []"
  proof (cases b)
    case True
    have p: "process fill fs P = process fill fs (push_flags True ?Q)"
      using process_turn [OF assms(1)] step True by simp
    have ok: "top_ok (push_flags True ?Q)"
        "rest (push_flags True ?Q) = b1 @ ''#else'' @ u1 @ LF # b2 @ ''#endif'' @ u2 @ LF # t"
      using okQ by simp_all
    have b: "closed b1" "skippable Done d b2" using assms(9,10) True by simp_all
    show ?thesis
      using process_if_taken [OF ok push_flags_flags b assms(11-15), of fill fs] p same True by simp
  next
    case False
    let ?R = "move (length b1 + length ''else'' + length u1 + 2) (push_flags False ?Q)"
    have ok: "top_ok (push_flags False ?Q)"
        "rest (push_flags False ?Q) = b1 @ CHR ''#'' # ''else'' @ u1 @ LF # b2 @ ''#endif'' @ u2 @ LF # t"
      using okQ by simp_all
    have b: "skippable Pending d b1" "closed b2" using assms(9,10) False by simp_all
    have "skip_if_branch (push_flags False ?Q) = (0, ?R)"
      using ever_taken(2) by (intro skip_if_branch_to [OF ok _ b(1) assms(11) _ _ assms(12,13)]) simp_all
    then have p: "process fill fs P = process fill fs ?R" using process_turn [OF assms(1)] step False by simp
    have okR: "top_ok ?R" "rest ?R = b2 @ ''#endif'' @ u2 @ LF # t"
      using move_ok [OF ok(1), of "length b1 + length ''else'' + length u1 + 2"] ok(2)
      by (simp_all add: eval_nat_numeral)
    have "branchFlags ?R = branch_flags False # branchFlags P" by simp
    from process_taken_branch [OF okR b(2) assms(14,15) this, of fill fs] show ?thesis
      using p same False by auto
  qed
  then obtain R where R: "process fill fs P = process fill fs R" "top_ok R" "rest R = t"
      "output_buffer R = output_buffer P @ expand (macro_text P) (if b then b1 else b2)"
      "macro_text R = macro_text P" "tl (inputStack R) = []"
    by blast
  then show ?thesis
    using process_finish [OF R(2,6), of fill fs] assms(16) by (simp add: get_result_def)
qed

text \<open>A file with two branches; the macro \<open>N\<close> stands for the 12 in its first line.\<close>

definition branch_source :: string where
  "branch_source = ''#if N == 12'' @ [LF] @ ''x'' @ [LF] @ ''#else'' @ [LF] @ ''y'' @ [LF] @ ''#endif'' @ [LF] @ ''z''"

definition branch_state :: Preprocessor where
  "branch_state =
     init_preprocessor CHR ''?'' (\<lambda>_. Some branch_source) None (Some ''a'') Log_Off\<lparr>storedMacros :=
       [''N'' \<mapsto> \<lparr>def_content = \<lparr>snip_offset = 11, snip_size = 2\<rparr>, def_t = M_Define, def_flags = 1\<rparr>]\<rparr>"

lemma branch_state_text: "text_of branch_state \<lparr>snip_offset = 11, snip_size = 2\<rparr> = ''12''"
  by code_simp

lemma branch_state_ok:
  "top_ok branch_state" "tl (inputStack branch_state) = []" "output_buffer branch_state = []"
  "rest branch_state = ''#if'' @ '' N == 12'' @ LF # (''x'' @ [LF]) @ ''#else'' @ [] @ LF # (''y'' @ [LF]) @
     ''#endif'' @ [] @ LF # ''z''"
proof -
  have len: "length (c_str ''a'') + 1 + length branch_source < 2 ^ 32"
    by (simp add: c_str_a branch_source_def)
  note i = init_loaded(1-3,5) [of "\<lambda>_. Some branch_source" None "''a''" branch_source "CHR ''?''" Log_Off, OF refl len]
  then show "top_ok branch_state" "tl (inputStack branch_state) = []" "output_buffer branch_state = []"
    by (simp_all add: branch_state_def)
  have "rest branch_state = normalize branch_source" using i(2) by (simp add: branch_state_def)
  also have "\<dots> = ''#if'' @ '' N == 12'' @ LF # (''x'' @ [LF]) @ ''#else'' @ [] @ LF # (''y'' @ [LF]) @
     ''#endif'' @ [] @ LF # ''z''"
    by (subst normalize_id) (simp_all add: branch_source_def)
  finally show "rest branch_state = ''#if'' @ '' N == 12'' @ LF # (''x'' @ [LF]) @ ''#else'' @ [] @ LF # (''y'' @ [LF]) @
     ''#endif'' @ [] @ LF # ''z''" .
qed

lemma branch_state_macros:
  "macros_ok branch_state" "macro_text branch_state = [''N'' \<mapsto> ''12'']"
proof -
  have "in_bounds (file_mgr branch_state) \<lparr>snip_offset = 11, snip_size = 2\<rparr>"
  proof -
    have "length (fdata (file_mgr branch_state)) = 32" by code_simp
    then show ?thesis by (simp add: in_bounds_def)
  qed
  then show ok: "macros_ok branch_state" by (auto simp: macros_ok_def branch_state_def split: if_splits)
  show "macro_text branch_state = [''N'' \<mapsto> ''12'']"
  proof
    fix w
    show "macro_text branch_state w = [''N'' \<mapsto> ''12''] w"
    proof (cases "w = ''N''")
      case True
      have d: "storedMacros branch_state ''N''
          = Some \<lparr>def_content = \<lparr>snip_offset = 11, snip_size = 2\<rparr>, def_t = M_Define, def_flags = 1\<rparr>"
        by (simp add: branch_state_def)
      show ?thesis using macro_text_Some [OF ok d] branch_state_text True by simp
    qed (simp add: macro_text_def branch_state_def)
  qed
qed

theorem if_else_selects_branch_witness:
  "\<exists>Q. process CHR ''?'' (\<lambda>_. None) branch_state = Some (0, Q) \<and> get_result Q = ''x'' @ [LF] @ ''z''"
proof -
  have "trim_sv '' N == 12'' = ''N == 12'' \<and> ''N == 12'' \<notin> {''0'', ''false'', ''1'', ''true''} \<and>
      sv_find ''=='' ''N == 12'' = Some 2 \<and>
      trim_sv (take 2 ''N == 12'') = ''N'' \<and> trim_sv (drop (2 + 2) ''N == 12'') = ''12'' \<and> trim_sv ''12'' = ''12''"
    by code_simp
  then have cond: "condition (macro_text branch_state) '' N == 12'' True"
    unfolding branch_state_macros(2)
    by (intro condition.equal [of _ "''N == 12''" 2]) (simp_all add: bool_words_def operand_def)
  have facts: "word_ends '' N == 12'' \<and> list_all (\<lambda>c. c \<noteq> LF) '' N == 12'' \<and> list_ex (\<lambda>c. \<not> blank c) '' N == 12'' \<and>
      list_all quiet (''x'' @ [LF]) \<and> quiet CHR ''y'' \<and> quiet LF"
    by code_simp
  have skip: "skippable Done 0 (''y'' @ [LF])" using facts by (auto intro!: skippable.intros)
  have "closed (''x'' @ [LF])" by (rule closed_quiet) (use facts in simp)
  moreover have "no_directive ''z''" by (rule no_directive_plain) simp
  ultimately obtain Q where Q: "process CHR ''?'' (\<lambda>_. None) branch_state = Some (0, Q)"
      "get_result Q = get_result branch_state @ expand (macro_text branch_state) (if True then ''x'' @ [LF] else ''y'' @ [LF]) @
        expand (macro_text branch_state) ''z''"
    using if_else_selects_branch [OF branch_state_ok(1,2) branch_state_macros(1) branch_state_ok(4) _ _ _ cond,
        of 0 "CHR ''?''" "\<lambda>_. None"] facts skip
    by (auto simp: list_all_iff list_ex_iff)
  moreover have "expand [''N'' \<mapsto> ''12''] (''x'' @ [LF]) = ''x'' @ [LF]" "expand [''N'' \<mapsto> ''12''] ''z'' = ''z''"
    by code_simp+
  ultimately show ?thesis by (simp add: get_result_def branch_state_ok(3) branch_state_macros(2))
qed

end
