(* ===== verification/Preproc_Lines.thy ===== *)
theory Preproc_Lines
  imports Preproc_Branch
begin

text \<open>
  The handlers of \<open>#define\<close>, \<open>#define_m\<close>, \<open>#param\<close>, \<open>#include\<close>, \<open>#elif\<close>, \<open>#else\<close> and \<open>#endif\<close> on text,
  in the generality the handlers have: lists of names, values that continue on the next line, blanks
  wherever they are skipped.
\<close>

section \<open>Snippets of the frame\<close>

lemma in_bounds_between:
  assumes ok: "top_ok P" and n: "n \<le> length (rest P)"
    and s: "snip_offset s = snip_offset (sourceContent P) + cursor P" "unat (snip_size s) = n"
  shows "in_bounds (file_mgr P) s"
proof -
  let ?s = "sourceContent P"
  have b: "in_bounds (file_mgr P) ?s" "cursor P \<le> ssize P" using ok by (simp_all add: top_ok_def)
  have o: "unat (snip_offset s) = unat (snip_offset ?s) + unat (cursor P)"
    using s(1) unat_offset_add [OF b] by simp
  have "unat (cursor P) + n \<le> unat (ssize P)"
    using n ok b(2) by (auto simp: length_rest word_le_nat_alt)
  then show ?thesis using b(1) o s(2) by (simp add: in_bounds_def)
qed

text \<open>The text of the first \<open>n\<close> characters as a snippet, as the handlers make it.\<close>

lemma snippet_at:
  assumes ok: "top_ok P" and n: "n \<le> length (rest P)"
    and s: "s = \<lparr>snip_offset = snip_offset (sourceContent P) + cursor P, snip_size = cursor (move n P) - cursor P\<rparr>"
  shows "in_bounds (file_mgr P) s" and "file_mgr Q = file_mgr P \<Longrightarrow> text_of Q s = take n (rest P)"
proof -
  have sz: "unat (snip_size s) = n" using unat_cursor_diff [OF ok n] s by simp
  show "in_bounds (file_mgr P) s" using sz s by (intro in_bounds_between [OF ok n]) simp_all
  assume "file_mgr Q = file_mgr P"
  moreover have "text_of P s = take n (rest P)" using sz s by (intro text_between [OF ok n]) simp_all
  ultimately show "text_of Q s = take n (rest P)" using text_of_file [of Q P] by simp
qed

lemma ol_blanks:
  assumes "top_ok P" and "rest P = a @ t" and "\<forall>c \<in> set a. blank c" and "t = [] \<or> \<not> blank (hd t)"
  shows "ol P = move (length a) P" and "top_ok (move (length a) P)" and "rest (move (length a) P) = t"
proof -
  have "takeWhile blank (rest P) = a" using assms(2-4) by (cases t) (simp_all add: takeWhile_append2)
  then show "ol P = move (length a) P" using ol_text [OF assms(1)] by simp
qed (use move_over [OF assms(1,2) refl] in simp_all)

lemma skip_ident_word:
  assumes "top_ok P" and "rest P = w @ t" and "\<forall>c \<in> set w. IS_IDENT_CHAR c" and "word_ends t"
  shows "skip_ident P = move (length w) P" and "top_ok (move (length w) P)" and "rest (move (length w) P) = t"
  using skip_ident_move [OF assms(1)] ident_len_append [OF assms(3)] assms(2,4) move_over [OF assms(1,2) refl]
  by (simp_all add: word_ends_def)

lemma blank_not_ident: "blank c \<Longrightarrow> \<not> IS_IDENT_CHAR c"
  using ident_not_space by blast

section \<open>Definitions\<close>

definition name_char :: "char \<Rightarrow> bool" where
  "name_char c \<longleftrightarrow> IS_IDENT_CHAR c \<or> c = CHR ''&''"

definition names_end :: "string \<Rightarrow> bool" where
  "names_end t \<longleftrightarrow> t = [] \<or> \<not> name_char (hd t)"

lemma name_char_not_blank: "name_char c \<Longrightarrow> \<not> blank c \<and> c \<noteq> LF"
  using ident_not_space [of c] not_ident(2) by (auto simp: name_char_def blank_def)

lemma amp_names_text:
  assumes "top_ok P" and "rest P = n @ t" and "\<forall>c \<in> set n. name_char c" and "names_end t"
  shows "amp_names_loop (skip_ident P) = move (length n) P"
  using assms
proof (induction "length n" arbitrary: P n rule: less_induct)
  case less
  let ?w = "takeWhile IS_IDENT_CHAR n" and ?u = "dropWhile IS_IDENT_CHAR n"
  let ?P1 = "move (length ?w) P"
  have ends: "word_ends (?u @ t)"
  proof (cases "?u = []")
    case True
    then show ?thesis using less.prems(4) by (simp only: append_Nil) (auto simp: word_ends_def names_end_def name_char_def)
  next
    case False
    then show ?thesis using hd_dropWhile [of IS_IDENT_CHAR n] by (simp add: word_ends_def)
  qed
  have r: "rest P = ?w @ (?u @ t)" using less.prems(2) by (simp flip: append_assoc)
  have w: "\<forall>c \<in> set ?w. IS_IDENT_CHAR c" by (auto dest: set_takeWhileD)
  note s = skip_ident_word [OF less.prems(1) r w ends]
  show ?case
  proof (cases ?u)
    case Nil
    then have "length ?w = length n" by (metis append_Nil2 takeWhile_dropWhile_id)
    moreover have "t = [] \<or> hd t \<noteq> CHR ''&''" using less.prems(4) by (auto simp: names_end_def name_char_def)
    ultimately show ?thesis using s Nil amp_names_loop_stays [OF s(2)] by simp
  next
    case (Cons c v)
    have "\<not> IS_IDENT_CHAR c" using hd_dropWhile [of IS_IDENT_CHAR n] Cons by simp
    moreover have "name_char c" using less.prems(3) Cons by (metis dropWhile_eq_drop in_set_dropD list.set_intros(1))
    ultimately have c: "c = CHR ''&''" by (simp add: name_char_def)
    have n: "n = ?w @ c # v" using Cons by (metis takeWhile_dropWhile_id)
    then have len: "length v < length n" "length n = Suc (length ?w + length v)"
      by (metis length_append length_Cons add_Suc_right less_add_Suc2) (metis n length_append length_Cons add_Suc_right)
    have r1: "rest ?P1 = c # v @ t" using s(3) Cons by simp
    have lt: "cursor ?P1 < ssize ?P1" "currChar ?P1 = CHR ''&''"
      using not_end_iff [OF s(2)] currChar_rest [OF s(2)] r1 c by simp_all
    have ok2: "top_ok (move 1 ?P1)" "rest (move 1 ?P1) = v @ t" using move_ok [OF s(2), of 1] r1 by simp_all
    have "amp_names_loop ?P1 = amp_names_loop (skip_ident (move 1 ?P1))"
      using lt advance_move [OF s(2)] r1 by (subst amp_names_loop.simps) simp
    also have "\<dots> = move (length v) (move 1 ?P1)"
    proof (rule less.hyps [OF len(1) ok2 _ less.prems(4)])
      show "\<forall>c \<in> set v. name_char c" using less.prems(3) n by (metis in_set_conv_decomp append_Cons append_assoc)
    qed
    finally show ?thesis using s(1) len(2) by (simp add: move_move ac_simps)
  qed
qed

text \<open>A value on several lines: each but the last holds a mark of continuation.\<close>

definition value_lines :: "string \<Rightarrow> bool" where
  "value_lines v =
     (let ls = split_on LF v in list_all has_continuation (butlast ls) \<and> \<not> has_continuation (last ls))"

lemma split_on_ne: "split_on q t \<noteq> []"
  by (induction t) (auto split: list.splits)

lemma value_loop_lines:
  assumes "top_ok P" and "rest P = v @ LF # t" and "value_lines v"
  shows "value_loop P c = (cursor (move (length v) P), move (Suc (length v)) P)"
  using assms
proof (induction "length v" arbitrary: P v rule: less_induct)
  case less
  show ?case
  proof (cases "LF \<in> set v")
    case False
    then have "\<not> has_continuation v" using less.prems(3) by (simp add: value_lines_def split_on_none)
    then show ?thesis using value_loop_text [OF less.prems(1,2) False] by simp
  next
    case True
    then obtain u w where v: "v = u @ LF # w" and lf: "LF \<notin> set u" using split_list_first by metis
    have s: "split_on LF v = u # split_on LF w"
      using split_on_some [OF True] takeWhile_until [OF lf, of w] by (simp add: v)
    have cont: "has_continuation u" "value_lines w"
      using less.prems(3) split_on_ne [of LF w] by (simp_all add: value_lines_def s Let_def)
    have r: "rest P = u @ LF # (w @ LF # t)" using less.prems(2) v by simp
    note f = findNext_char_text [OF less.prems(1) r lf]
    have lt: "cursor P < ssize P" using not_end_iff [OF less.prems(1)] r by simp
    have "length u \<le> length (rest P)" using r by simp
    note tx = snippet_at(2) [OF less.prems(1) this refl refl]
    have tx: "text_of P (to_cursor (cursor (move (length u) P)) P) = u"
      using tx r by (simp add: to_cursor_def)
    let ?P1 = "move (Suc (length u)) P"
    have ok1: "top_ok ?P1" "rest ?P1 = w @ LF # t"
      using move_over [OF less.prems(1), of "u @ [LF]" "w @ LF # t" "Suc (length u)"] r by simp_all
    have m: "set_cursor (findNext_char LF P + 1) P = ?P1"
      using f(1) by (simp add: move_def add.assoc) (simp add: add.commute)
    have "value_loop P c = value_loop ?P1 c"
      using lt f m tx cont(1) by (subst value_loop.simps) (simp add: Let_def)
    also have "\<dots> = (cursor (move (length w) ?P1), move (Suc (length w)) ?P1)"
      using v by (intro less.hyps [OF _ ok1 cont(2)]) simp
    finally show ?thesis using v by (simp add: move_move)
  qed
qed

lemma trim_end_loop_text:
  assumes "top_ok P" and "rest P = v @ z @ t" and "\<forall>c \<in> set z. blank c" and "v = [] \<or> \<not> blank (last v)"
  shows "trim_end_loop (file_mgr P) (sourceContent P) (cursor P) (cursor (move (length v + length z) P)) =
    cursor (move (length v) P)"
  using assms(2,3)
proof (induction z arbitrary: t rule: rev_induct)
  case Nil
  show ?case
  proof (cases "v = []")
    case True
    then show ?thesis using move_0 [OF assms(1)] by (subst trim_end_loop.simps) simp
  next
    case False
    then have "rest P ! (length v - 1) = last v" using Nil(1) by (simp add: nth_append last_conv_nth)
    then show ?thesis using trim_end_loop_stays [OF assms(1), of "length v"] False assms(4) Nil(1) by simp
  qed
next
  case (snoc c z)
  let ?n = "length v + length (z @ [c])"
  have le: "?n \<le> length (rest P)" using snoc.prems(1) by simp
  have u: "unat (cursor (move ?n P)) = unat (cursor P) + ?n" by (rule cursor_move [OF assms(1) le])
  have "cursor P < cursor (move ?n P)" using u by (simp add: word_less_nat_alt)
  moreover have "blank (getChar_snippet (file_mgr P) (sourceContent P) (cursor (move ?n P) - 1))"
    using getChar_before [OF assms(1) _ le] snoc.prems by (simp add: nth_append)
  moreover have "cursor (move ?n P) - 1 = cursor (move (length v + length z) P)" by (simp add: move_def)
  ultimately show ?case using snoc.IH [of "c # t"] snoc.prems by (subst trim_end_loop.simps) simp
qed

text \<open>\<open>#define\<close>: names joined by \<open>&\<close>, blanks, the value, blanks.\<close>

lemma handle_define_lines:
  assumes ok: "top_ok P" and r: "rest P = a @ n @ a' @ v @ z @ LF # t"
    and a: "\<forall>c \<in> set a. blank c" "\<forall>c \<in> set a'. blank c" "\<forall>c \<in> set z. blank c"
    and n: "n \<noteq> []" "\<forall>c \<in> set n. name_char c" "names_end (a' @ v @ z)"
    and v: "v = [] \<Longrightarrow> z = []" "v \<noteq> [] \<Longrightarrow> \<not> blank (hd v) \<and> \<not> blank (last v)" "value_lines (v @ z)"
  shows "\<exists>d. handle_define P = (0, (move (Suc (length (a @ n @ a' @ v @ z))) P)\<lparr>storedMacros :=
      (\<lambda>w. if w \<in> set (alias_names n) then Some d else storedMacros P w)\<rparr>) \<and>
    in_bounds (file_mgr P) (def_content d) \<and> (\<forall>Q. file_mgr Q = file_mgr P \<longrightarrow> text_of Q (def_content d) = v)"
proof -
  let ?P1 = "move (length a) P" and ?P2 = "move (length a + length n) P" and ?P3 = "move (length a + length n + length a') P"
  have "\<not> blank (hd (n @ a' @ v @ z @ LF # t))" using n(1,2) name_char_not_blank by (cases n) auto
  then have s1: "ol P = ?P1" "top_ok ?P1" "rest ?P1 = n @ (a' @ v @ z @ LF # t)"
    using ol_blanks [OF ok r a(1)] by simp_all
  have ends: "names_end (a' @ v @ z @ LF # t)"
    using n(3) name_char_not_blank by (cases "a' @ v @ z = []") (auto simp: names_end_def hd_append)
  have s2: "amp_names_loop (skip_ident ?P1) = ?P2"
    using amp_names_text [OF s1(2,3) n(2) ends] by (simp add: move_move)
  have ok2: "top_ok ?P2" "rest ?P2 = a' @ (v @ z @ LF # t)"
    using move_over [OF s1(2,3) refl] by (simp_all add: move_move)
  have nm: "text_of ?P2 (from_cursor (cursor ?P1) ?P2) = n"
    using text_from [OF s1(2), of "length n"] s1(3) by (simp add: move_move)
  have "\<not> blank (hd (v @ z @ LF # t))" using v(1,2) by (cases "v = []") (simp_all add: blank_def)
  then have s3: "ol ?P2 = ?P3" "top_ok ?P3" "rest ?P3 = v @ z @ LF # t"
    using ol_blanks [OF ok2 a(2)] by (simp_all add: move_move)
  let ?P4 = "move (Suc (length (v @ z))) ?P3" and ?e = "cursor (move (length v) ?P3)"
  have vl: "value_loop ?P3 (cursor ?P3) = (cursor (move (length (v @ z)) ?P3), ?P4)"
    using value_loop_lines [OF s3(2) _ v(3), of t] s3(3) by simp
  have te: "trim_end_loop (file_mgr ?P4) (sourceContent ?P4) (cursor ?P3) (cursor (move (length (v @ z)) ?P3)) = ?e"
    using trim_end_loop_text [OF s3(2,3) a(3)] v(2) by auto
  let ?s = "\<lparr>snip_offset = snip_offset (sourceContent ?P3) + cursor ?P3, snip_size = ?e - cursor ?P3\<rparr>"
  let ?d = "\<lparr>def_content = ?s, def_t = M_Define, def_flags = 1\<rparr>"
  have "length v \<le> length (rest ?P3)" using s3(3) by simp
  note tx = snippet_at [OF s3(2) this refl]
  have "?P4 = move (Suc (length (a @ n @ a' @ v @ z))) P" by (simp add: move_move ac_simps)
  then have "handle_define P = (0, (move (Suc (length (a @ n @ a' @ v @ z))) P)\<lparr>storedMacros :=
      (\<lambda>w. if w \<in> set (alias_names n) then Some ?d else storedMacros P w)\<rparr>)"
    unfolding handle_define_def Let_def s1(1) s2 nm s3(1) vl prod.case te by (simp add: register_loop_eq cong: if_cong)
  then show ?thesis using tx s3(3) by (intro exI [of _ ?d]) simp
qed

text \<open>\<open>#define_m\<close>: names joined by \<open>&\<close> with blanks around them, then the body up to \<open>#enddef\<close>.\<close>

inductive name_list :: "string \<Rightarrow> bool" where
  last: "\<lbrakk>\<forall>c \<in> set w. IS_IDENT_CHAR c; \<forall>c \<in> set a. blank c\<rbrakk> \<Longrightarrow> name_list (w @ a)"
| more: "\<lbrakk>\<forall>c \<in> set w. IS_IDENT_CHAR c; \<forall>c \<in> set a. blank c; \<forall>c \<in> set b. blank c; name_list n;
    n = [] \<or> \<not> blank (hd n)\<rbrakk> \<Longrightarrow> name_list (w @ a @ CHR ''&'' # b @ n)"

lemma names_loop_text:
  assumes "name_list n" and "top_ok P" and "rest P = n @ LF # t"
  shows "names_loop P = move (length n) P"
  using assms
proof (induction arbitrary: P rule: name_list.induct)
  case (last w a)
  have ends: "word_ends (a @ LF # t)" using last(2) blank_not_ident by (cases a) (simp_all add: word_ends_def not_ident)
  have r: "rest P = w @ (a @ LF # t)" using last.prems(2) by simp
  note s = skip_ident_word [OF last.prems(1) r last(1) ends]
  note o = ol_blanks [OF s(2,3) last(2)]
  have o: "ol (skip_ident P) = move (length (w @ a)) P" "rest (move (length (w @ a)) P) = LF # t"
    "top_ok (move (length (w @ a)) P)"
    using o s(1) by (simp_all add: blank_def move_move)
  have "cursor P < ssize P" using not_end_iff [OF last.prems(1)] last.prems(2) by simp
  moreover have "currChar (move (length (w @ a)) P) \<noteq> CHR ''&''" using currChar_rest [OF o(3,2)] by simp
  ultimately show ?case by (subst names_loop.simps) (simp add: Let_def o(1) [simplified])
next
  case (more w a b n)
  have ends: "word_ends (a @ CHR ''&'' # b @ n @ LF # t)"
    using more(2) blank_not_ident ident_not_space [of "CHR ''&''"] by (cases a) (auto simp: word_ends_def)
  have r: "rest P = w @ (a @ CHR ''&'' # b @ n @ LF # t)" using more.prems(2) by simp
  note s = skip_ident_word [OF more.prems(1) r more(1) ends]
  let ?P1 = "move (length w + length a) P"
  have o: "ol (skip_ident P) = ?P1" "top_ok ?P1" "rest ?P1 = CHR ''&'' # b @ n @ LF # t"
    using ol_blanks [OF s(2,3) more(2)] s(1) by (simp_all add: blank_def move_move)
  have c: "cursor ?P1 < ssize ?P1" "currChar ?P1 = CHR ''&''"
    using not_end_iff [OF o(2)] currChar_rest [OF o(2,3)] o(3) by simp_all
  have ok2: "top_ok (move 1 ?P1)" "rest (move 1 ?P1) = b @ (n @ LF # t)" using move_ok [OF o(2), of 1] o(3) by simp_all
  have "n @ LF # t = [] \<or> \<not> blank (hd (n @ LF # t))" using more(5) by (cases n) (simp_all add: blank_def)
  note o2 = ol_blanks [OF ok2 more(3) this]
  have "names_loop P = names_loop (ol (set_cursor (cursor ?P1 + 1) ?P1))"
    using not_end_iff [OF more.prems(1)] r o(1) c more.prems(2) by (subst names_loop.simps) (simp add: Let_def)
  also have "\<dots> = names_loop (move (length b) (move 1 ?P1))" using advance_move [OF o(2)] o(3) o2(1) by simp
  also have "\<dots> = move (length n) (move (length b) (move 1 ?P1))" by (rule more.IH [OF o2(2,3)])
  finally show ?case by (simp add: move_move ac_simps)
qed

lemma handle_define_m_text:
  assumes ok: "top_ok P" and r: "rest P = a @ n @ LF # b @ ''#enddef'' @ u @ LF # t"
    and a: "\<forall>c \<in> set a. blank c" and n: "name_list n" "n = [] \<or> \<not> blank (hd n)"
    and b: "sv_find ''#enddef'' (b @ ''#enddef'') = Some (length b)" and u: "LF \<notin> set u"
  shows "\<exists>d. handle_define_m P = (0, (move (length (a @ n @ b @ u) + 9) P)\<lparr>storedMacros :=
      (\<lambda>w. if w \<in> set (alias_names n) then Some d else storedMacros P w)\<rparr>) \<and>
    in_bounds (file_mgr P) (def_content d) \<and>
    (\<forall>Q. file_mgr Q = file_mgr P \<longrightarrow> text_of Q (def_content d) = LF # b)"
proof -
  let ?P1 = "move (length a) P" and ?P2 = "move (length a + length n) P"
  have "n @ LF # b @ ''#enddef'' @ u @ LF # t = [] \<or> \<not> blank (hd (n @ LF # b @ ''#enddef'' @ u @ LF # t))"
    using n(2) by (cases n) (simp_all add: blank_def)
  note s1 = ol_blanks [OF ok r a this]
  have s2: "names_loop ?P1 = ?P2" using names_loop_text [OF n(1) s1(2,3)] by (simp add: move_move)
  have ok2: "top_ok ?P2" "rest ?P2 = LF # b @ ''#enddef'' @ u @ LF # t"
    using move_over [OF s1(2,3) refl] by (simp_all add: move_move)
  have "length n \<le> length (rest ?P1)" using s1(3) by simp
  note nm = snippet_at(2) [OF s1(2) this refl, of ?P2]
  have nm: "text_of ?P2 \<lparr>snip_offset = snip_offset (sourceContent ?P2) + cursor ?P1, snip_size = cursor ?P2 - cursor ?P1\<rparr> = n"
    using nm s1(3) by (simp add: move_move)
  have f: "sv_find ''#enddef'' (rest ?P2) = Some (Suc (length b))"
    using sv_find_extend [OF b, of "u @ LF # t"] ok2(2) by simp
  let ?e = "cursor (move (Suc (length b)) ?P2)"
  have e: "findNext_seq ''#enddef'' ?P2 = ?e" using findNext_seq_text [OF ok2(1), of "''#enddef''"] f by simp
  have ne: "?e \<noteq> PCursorMax" using cursor_not_max [OF ok2(1)] ok2(2) by simp
  let ?s = "\<lparr>snip_offset = snip_offset (sourceContent ?P2) + cursor ?P2, snip_size = ?e - cursor ?P2\<rparr>"
  have s: "to_cursor ?e ?P2 = ?s" by (simp add: to_cursor_def)
  have "Suc (length b) \<le> length (rest ?P2)" using ok2(2) by simp
  note tx = snippet_at [OF ok2(1) this refl]
  let ?P3 = "move (length b + 8) ?P2"
  have ok3: "top_ok ?P3" "rest ?P3 = u @ LF # t"
    using move_over [OF ok2(1), of "LF # b @ ''#enddef''" "u @ LF # t" "length b + 8"] ok2(2) by simp_all
  have m: "set_cursor (?e + 7) ?P2 = ?P3" by (simp add: move_def add.assoc) (simp add: ac_simps)
  have s4: "skip_line ?P3 = move (length (a @ n @ b @ u) + 9) P"
    using skip_line_text [OF ok3 u] by (simp add: move_move ac_simps)
  let ?d = "\<lparr>def_content = ?s, def_t = M_Define_M, def_flags = 1\<rparr>"
  have "handle_define_m P = (0, (move (length (a @ n @ b @ u) + 9) P)\<lparr>storedMacros :=
      (\<lambda>w. if w \<in> set (alias_names n) then Some ?d else storedMacros P w)\<rparr>)"
    unfolding handle_define_m_def Let_def s1(1) s2 nm e if_not_P [OF ne] s m s4
    by (simp add: register_loop_eq cong: if_cong)
  then show ?thesis using tx ok2(2) by (intro exI [of _ ?d]) simp
qed

section \<open>Parameters\<close>

text \<open>A text on one line whose parentheses match, inside of \<open>k\<close> open ones.\<close>

fun balanced :: "nat \<Rightarrow> string \<Rightarrow> bool" where
  "balanced k [] \<longleftrightarrow> k = 0"
| "balanced k (c # t) \<longleftrightarrow>
     (if c = CHR ''('' then balanced (Suc k) t
      else if c = CHR '')'' then 0 < k \<and> balanced (k - 1) t
      else c \<noteq> LF \<and> balanced k t)"

lemma paren_loop_text:
  assumes "top_ok P" and "rest P = T @ CHR '')'' # t" and "balanced k T"
    and "unat d = Suc k" and "Suc k + count_list T CHR ''('' < 65536"
  shows "paren_loop P d = (Some 0, move (length T) P)"
  using assms
proof (induction T arbitrary: P k d)
  case Nil
  have "currChar P = CHR '')''" using currChar_rest [OF Nil(1)] Nil(2) by simp
  moreover have "\<not> at_end P" using not_end_iff [OF Nil(1)] Nil(2) by (simp add: at_end_def not_le)
  moreover have "d = 1" using Nil(3,4) by (simp add: word_unat_eq_iff)
  ultimately show ?case using move_0 [OF Nil(1)] by (subst paren_loop.simps) (simp add: Let_def)
next
  case (Cons c T)
  have ch: "currChar P = c" using currChar_rest [OF Cons.prems(1)] Cons.prems(2) by simp
  have ne: "\<not> at_end P" using not_end_iff [OF Cons.prems(1)] Cons.prems(2) by (simp add: at_end_def not_le)
  have pos: "0 < d" using Cons.prems(4) by (simp add: word_less_nat_alt)
  have adv: "set_cursor (cursor P + 1) P = move 1 P" using advance_move [OF Cons.prems(1)] Cons.prems(2) by simp
  have ok1: "top_ok (move 1 P)" "rest (move 1 P) = T @ CHR '')'' # t"
    using move_ok [OF Cons.prems(1), of 1] Cons.prems(2) by simp_all
  consider (left) "c = CHR ''(''" | (right) "c = CHR '')''" | (other) "c \<noteq> CHR ''(''" "c \<noteq> CHR '')''" by blast
  then have "\<exists>d' k'. paren_loop P d = paren_loop (move 1 P) d' \<and> balanced k' T \<and> unat d' = Suc k' \<and>
      Suc k' + count_list T CHR ''('' < 65536"
  proof cases
    case left
    have "unat (d + 1) = Suc (Suc k)" using Cons.prems(4,5) left by (subst unat_add_lt) simp_all
    then show ?thesis using Cons.prems(3,5) left ch ne pos adv
      by (intro exI [of _ "d + 1"] exI [of _ "Suc k"]) (subst paren_loop.simps, simp add: Let_def)
  next
    case right
    then have k: "0 < k" "balanced (k - 1) T" using Cons.prems(3) by simp_all
    have u: "unat (d - 1) = k" using Cons.prems(4) by (simp add: unat_diff_le)
    then have "d - 1 \<noteq> 0" using k(1) by auto
    then show ?thesis using k u Cons.prems(5) right ch ne pos adv
      by (intro exI [of _ "d - 1"] exI [of _ "k - 1"]) (subst paren_loop.simps, simp add: Let_def)
  next
    case other
    then show ?thesis using Cons.prems(3-5) ch ne pos adv
      by (intro exI [of _ d] exI [of _ k]) (subst paren_loop.simps, simp add: Let_def)
  qed
  then show ?case using Cons.IH [OF ok1] by (auto simp: move_move)
qed

lemma handle_param_text:
  assumes ok: "top_ok P" and r: "rest P = a @ CHR ''('' # T @ CHR '')'' # a1 @ w @ a2 @ CHR ''='' # x @ LF # t"
    and a: "\<forall>c \<in> set a. blank c" "\<forall>c \<in> set a1. blank c" "\<forall>c \<in> set a2. blank c"
    and T: "balanced 0 T" "count_list T CHR ''('' < 65535" "trim_sv T \<noteq> []"
    and w: "w \<noteq> []" "\<forall>c \<in> set w. IS_IDENT_CHAR c" and x: "LF \<notin> set x"
  shows "handle_param P = (let (finalVal, Q) = param_value w (trim_sv x) (move (length (a @ T @ a1 @ w @ a2 @ x) + 4) P)
    in (0, emit (param_text (trim_sv T) w finalVal) Q))"
proof -
  let ?u5 = "CHR ''='' # x @ LF # t"
  let ?u4 = "a2 @ ?u5" let ?u2 = "a1 @ w @ ?u4"
  let ?P1 = "move (length a) P" let ?P2 = "move 1 ?P1" let ?P3 = "move (length T) ?P2" let ?P4 = "move 1 ?P3"
  let ?P5 = "move (length a1) ?P4" let ?P6 = "move (length w) ?P5" let ?P7 = "move (length a2) ?P6"
  let ?P8 = "move 1 ?P7"
  have eq: "\<not> IS_IDENT_CHAR CHR ''=''" by (simp_all add: IS_IDENT_CHAR_conv ident_6bit_nonzero ident_byte_def)
  have s1: "ol P = ?P1" "top_ok ?P1" "rest ?P1 = CHR ''('' # T @ CHR '')'' # ?u2"
    using ol_blanks [OF ok r a(1)] by (simp_all add: blank_def)
  have c1: "\<not> (at_end ?P1 \<or> currChar ?P1 \<noteq> CHR ''('')"
    using not_end_iff [OF s1(2)] currChar_rest [OF s1(2,3)] s1(3) by (simp add: at_end_def not_le)
  have s2: "set_cursor (cursor ?P1 + 1) ?P1 = ?P2" using advance_move [OF s1(2)] s1(3) by simp
  have ok2: "top_ok ?P2" "rest ?P2 = T @ CHR '')'' # ?u2" using move_ok [OF s1(2), of 1] s1(3) by simp_all
  have s3: "paren_loop ?P2 1 = (Some 0, ?P3)"
    using T(2) by (intro paren_loop_text [OF ok2 T(1)]) simp_all
  have ok3: "top_ok ?P3" "rest ?P3 = CHR '')'' # ?u2" using move_over [OF ok2 refl] by simp_all
  have ty: "text_of ?P3 (from_cursor (cursor ?P2) ?P3) = T" using text_from [OF ok2(1), of "length T"] ok2(2) by simp
  have ok4: "top_ok ?P4" "rest ?P4 = a1 @ (w @ ?u4)" using move_ok [OF ok3(1), of 1] ok3(2) by simp_all
  have "w @ ?u4 = [] \<or> \<not> blank (hd (w @ ?u4))" using w ident_not_space by (cases w) simp_all
  note s5 = ol_blanks [OF ok4 a(2) this]
  have s4: "ol (set_cursor (cursor ?P3 + 1) ?P3) = ?P5" using advance_move [OF ok3(1)] ok3(2) s5(1) by simp
  have "word_ends ?u4" using a(3) blank_not_ident eq by (cases a2) (simp_all add: word_ends_def)
  note s6 = skip_ident_word [OF s5(2,3) w(2) this]
  have nm: "trim_sv (text_of ?P6 (from_cursor (cursor ?P5) ?P6)) = w"
    using text_from [OF s5(2), of "length w"] s5(3) trim_sv_id [of w] w ident_not_space by simp
  note s7 = ol_blanks [OF s6(2,3) a(3)]
  have s7: "ol ?P6 = ?P7" "top_ok ?P7" "rest ?P7 = ?u5" using s7 by (simp_all add: blank_def)
  have c7: "\<not> (at_end ?P7 \<or> currChar ?P7 \<noteq> CHR ''='')"
    using not_end_iff [OF s7(2)] currChar_rest [OF s7(2,3)] s7(3) by (simp add: at_end_def not_le)
  let ?b = "takeWhile blank x" and ?y = "dropWhile blank x"
  have ok8: "top_ok ?P8" "rest ?P8 = x @ LF # t" using move_ok [OF s7(2), of 1] s7(3) by simp_all
  then have r8: "rest ?P8 = ?b @ (?y @ LF # t)" by (metis append_assoc takeWhile_dropWhile_id)
  have "?y @ LF # t = [] \<or> \<not> blank (hd (?y @ LF # t))"
  proof (cases "?y = []")
    case True
    then show ?thesis by (simp only: append_Nil list.sel) (simp add: blank_def)
  next
    case False
    then show ?thesis using hd_dropWhile [OF False] by simp
  qed
  note s9 = ol_blanks [OF ok8(1) r8 _ this]
  let ?P9 = "move (length ?b) ?P8" let ?P10 = "move (length ?y) ?P9"
  have s9: "ol ?P8 = ?P9" "top_ok ?P9" "rest ?P9 = ?y @ LF # t" using s9 by (auto dest: set_takeWhileD)
  have s8: "ol (set_cursor (cursor ?P7 + 1) ?P7) = ?P9" using advance_move [OF s7(2)] s7(3) s9(1) by simp
  have y: "LF \<notin> set ?y" using x by (metis dropWhile_eq_drop in_set_dropD)
  note f = findNext_char_text [OF s9(2,3) y]
  have s10: "set_cursor (if findNext_char LF ?P9 = PCursorMax then ssize ?P9 else findNext_char LF ?P9) ?P9 = ?P10"
    using f by (simp add: move_def)
  have tx: "text_of ?P10 (from_cursor (cursor ?P9) ?P10) = ?y" using text_from [OF s9(2), of "length ?y"] s9(3) by simp
  have "\<forall>c \<in> set ?b. space c" using blank_space set_takeWhileD by fast
  then have "trim_sv ?y = trim_sv x" using trim_sv_blanks [of ?b "[]" ?y] by simp
  then have df: "trim_sv (text_of ?P10 (from_cursor (cursor ?P9) ?P10)) = trim_sv x" unfolding tx .
  have len: "length ?b + length ?y = length x" by (metis length_append takeWhile_dropWhile_id)
  have s11: "set_cursor (cursor ?P10 + 1) ?P10 = move (length (a @ T @ a1 @ w @ a2 @ x) + 4) P"
  proof -
    have "set_cursor (cursor ?P10 + 1) ?P10 = move 1 ?P10" by (simp add: move_def)
    then show ?thesis by (simp add: move_move len [symmetric] ac_simps eval_nat_numeral)
  qed
  show ?thesis
    unfolding handle_param_def Let_def s1(1) if_not_P [OF c1] s2 s3 prod.case ty if_not_P [OF T(3)] s4 s6(1) nm
      if_not_P [OF w(1)] s7(1) if_not_P [OF c7] s8 s10 df if_P [OF f(2)] s11
    by simp
qed

section \<open>Inclusion\<close>

text \<open>
  The two forms of a path, and what loading it does: the text, and the files the manager holds
  then.
\<close>

definition quoted :: "string \<Rightarrow> string \<Rightarrow> bool" where
  "quoted p q \<longleftrightarrow> q = CHR 0x22 # p @ [CHR 0x22] \<and> CHR 0x22 \<notin> set p \<or> q = CHR ''<'' # p @ [CHR ''>''] \<and> CHR ''>'' \<notin> set p"

lemma handle_include_quoted:
  assumes ok: "top_ok P" and r: "rest P = a @ q @ u @ LF # t" and a: "\<forall>c \<in> set a. blank c"
    and q: "quoted p q" and u: "LF \<notin> set u" and ld: "loadFile fill fs (Some p) (file_mgr P) = (i, m)"
  shows "handle_include fill fs P = (let Q = (move (length (a @ q @ u) + 1) P)\<lparr>file_mgr := m\<rparr>
    in if snip_offset (content i) = snip_offset SNIPPET_SENT \<or> snip_size (content i) = PLengthMax \<or>
          snip_size (content i) = 0 then (-2, Q) else (0, push_frame (content i) Q))"
proof -
  obtain c c' where c: "q = c # p @ [c']" "c' \<notin> set p" "c = CHR 0x22 \<or> c = CHR ''<''"
      "c' = (if c = CHR 0x22 then CHR 0x22 else CHR ''>'')"
  proof (cases "q = CHR 0x22 # p @ [CHR 0x22] \<and> CHR 0x22 \<notin> set p")
    case True
    then show thesis using that [of "CHR 0x22" "CHR 0x22"] by simp
  next
    case False
    then have "q = CHR ''<'' # p @ [CHR ''>''] \<and> CHR ''>'' \<notin> set p" using q unfolding quoted_def by blast
    then show thesis using that [of "CHR ''<''" "CHR ''>''"] by simp
  qed
  have "q @ u @ LF # t = [] \<or> \<not> blank (hd (q @ u @ LF # t))" using c(1,3) by (elim disjE) (simp_all add: blank_def)
  note s1 = ol_blanks [OF ok r a this]
  let ?P1 = "move (length a) P" let ?P2 = "move 1 ?P1" let ?P3 = "move (length p) ?P2" let ?P4 = "move 1 ?P3"
  have r1: "rest ?P1 = c # p @ c' # u @ LF # t" using s1(3) c(1) by simp
  have ne: "\<not> at_end ?P1" using not_end_iff [OF s1(2)] r1 by (simp add: at_end_def not_le)
  have ch: "currChar ?P1 = c" by (rule currChar_rest [OF s1(2) r1])
  have s2: "set_cursor (cursor ?P1 + 1) ?P1 = ?P2" using advance_move [OF s1(2)] r1 by simp
  have ok2: "top_ok ?P2" "rest ?P2 = p @ c' # (u @ LF # t)" using move_ok [OF s1(2), of 1] r1 by simp_all
  obtain s where rd: "readToNext c' ?P2 = (s, ?P3)" "snip_offset s \<noteq> snip_offset SNIPPET_SENT"
      "\<forall>Q. file_mgr Q = file_mgr ?P2 \<longrightarrow> text_of Q s = p"
    using readToNext_text [OF ok2 c(2)] by blast
  have ok3: "top_ok ?P3" "rest ?P3 = c' # u @ LF # t" using move_over [OF ok2 refl] by simp_all
  have s3: "set_cursor (cursor ?P3 + 1) ?P3 = ?P4" using advance_move [OF ok3(1)] ok3(2) by simp
  have ok4: "top_ok ?P4" "rest ?P4 = u @ LF # t" using move_ok [OF ok3(1), of 1] ok3(2) by simp_all
  let ?P5 = "move (length (a @ q @ u) + 1) P"
  have s4: "skip_line ?P4 = ?P5" using skip_line_text [OF ok4 u] c(1) by (simp add: move_move ac_simps)
  have lv: "loadView fill fs p ?P5 = (content i, ?P5\<lparr>file_mgr := m\<rparr>)" using ld by (simp add: loadView_def)
  have tx: "text_of ?P5 s = p" using rd(3) by simp
  have cc: "\<not> (c \<noteq> CHR 0x22 \<and> c \<noteq> CHR ''<'')" using c(3) by blast
  show ?thesis
    unfolding handle_include_def Let_def s1(1) if_not_P [OF ne] ch if_not_P [OF cc] s2 c(4) [symmetric] rd(1) prod.case
      if_not_P [OF rd(2)] s3 s4 tx lv ..
qed

section \<open>Branches\<close>

lemma set_flags_state [simp]:
  "storedMacros (set_flags f P) = storedMacros P" "branchFlags (set_flags f P) = f # tl (branchFlags P)"
  "text_of (set_flags f P) = text_of P" "inputStack (set_flags f P) = inputStack P"
  by (simp_all add: set_flags_def text_of_def fun_eq_iff)

lemma handle_endif_text:
  assumes ok: "top_ok P" and r: "rest P = u @ LF # t" and u: "LF \<notin> set u" and f: "branchFlags P = f # fl"
  shows "handle_endif P = (0, move (Suc (length u)) (P\<lparr>branchFlags := fl\<rparr>))"
proof -
  have "top_ok (P\<lparr>branchFlags := fl\<rparr>)" "rest (P\<lparr>branchFlags := fl\<rparr>) = u @ LF # t"
    using ok r by (simp_all add: top_ok_def rest_def frame_text_def text_of_def)
  then show ?thesis using skip_line_text u f by (simp add: handle_endif_def)
qed

lemma handle_elif_open:
  assumes ok: "top_ok P" and r: "rest P = c @ LF # t" and c: "LF \<notin> set c" "\<exists>x \<in> set c. \<not> blank x"
    and v: "condition (macro_text P) c b" "macros_ok P" and f: "branchFlags P = f # fl" "f AND EVER_TAKEN = 0"
    and Q: "Q = (move (Suc (length c)) P)\<lparr>currActive := M_Elif\<rparr>"
  shows "handle_elif P = Some (if b then (0, set_flags (branch_flags True) Q)
    else skip_if_branch (set_flags (branch_flags False) Q))"
proof -
  let ?P0 = "P\<lparr>currActive := M_Elif\<rparr>"
  have ok0: "top_ok ?P0" "rest ?P0 = c @ LF # t" using ok r by simp_all
  obtain cond where cond: "read_condition (ol ?P0) (findNext_char LF (ol ?P0)) = (cond, move (Suc (length c)) ?P0)"
      "findNext_char LF (ol ?P0) \<noteq> PCursorMax" "\<forall>Q. file_mgr Q = file_mgr ?P0 \<longrightarrow> trim_sv (text_of Q cond) = trim_sv c"
    using read_condition_text [OF ok0 c] by blast
  have q: "move (Suc (length c)) ?P0 = Q" by (simp add: Q)
  have t: "trim_sv (text_of Q cond) = trim_sv c" using cond(3) Q by simp
  have M: "macro_text Q = macro_text P" "macros_ok Q" "currActive Q = M_Elif"
    using v(2) by (simp_all add: Q macros_ok_def)
  have "condition (macro_text Q) (text_of Q cond) b" using condition_trim [OF t [symmetric]] v(1) M(1) by simp
  then have e: "evalCondition Q cond = Some (if b then 1 else 0)"
    using evalCondition_condition [OF _ M(2) refl, of _ b cond] M(3) by blast
  have "\<not> (branchFlags P = [])" "\<not> hd (branchFlags ?P0) AND EVER_TAKEN \<noteq> 0" using f by simp_all
  then show ?thesis
    unfolding handle_elif_def Let_def using cond(1,2) q e by (cases b) (simp_all add: branch_flags_def)
qed

end
