(* ===== verification/Preproc_Machine.thy ===== *)
theory Preproc_Machine
  imports Preproc_Lines
begin

text \<open>
  The preprocessor as a machine on text: its state is the text that is left of every open file, the
  texts of the macros, the files read so far, the flags of the open branches and the output, and a
  step reads one directive or a piece of text. The loop \<open>process\<close>, which works on cursors and snippets
  of one buffer, is refined to it.
\<close>

section \<open>The machine\<close>

record text_state =
  macros :: "string \<Rightarrow> string option"
  files :: "(string \<times> string) list"
  flags :: "u8 list"
  texts :: "string list"
  written :: string

text \<open>The first line of a conditional, without its line end, and its value.\<close>

inductive if_line :: "(string \<Rightarrow> string option) \<Rightarrow> string \<Rightarrow> bool \<Rightarrow> bool" for M where
  cond: "\<lbrakk>word_ends c; LF \<notin> set c; \<exists>x \<in> set c. \<not> blank x; condition M c b\<rbrakk> \<Longrightarrow> if_line M (''#if'' @ c) b"
| absent: "\<lbrakk>w \<noteq> []; \<forall>c \<in> set w. IS_IDENT_CHAR c; word_ends v; LF \<notin> set v; b \<longleftrightarrow> M w = None\<rbrakk> \<Longrightarrow>
    if_line M (''#ifndef '' @ w @ v) b"

text \<open>
  What is left after a branch is skipped, for the flags of its conditional: skipping ends behind the
  line of \<open>#endif\<close>, and, when no branch was taken yet, of \<open>#else\<close>, or behind the word \<open>#elif\<close>.
\<close>

inductive skipped :: "u8 \<Rightarrow> string \<Rightarrow> string \<Rightarrow> bool" for f where
  to_endif: "\<lbrakk>skippable (if f AND EVER_TAKEN = 0 then Pending else Done) d b; d < 65535; word_ends u; LF \<notin> set u\<rbrakk> \<Longrightarrow>
    skipped f (b @ ''#endif'' @ u @ LF # t) t"
| to_else: "\<lbrakk>f AND EVER_TAKEN = 0; skippable Pending d b; d < 65535; word_ends u; LF \<notin> set u\<rbrakk> \<Longrightarrow>
    skipped f (b @ ''#else'' @ u @ LF # t) t"
| to_elif: "\<lbrakk>f AND EVER_TAKEN = 0; skippable Pending d b; d < 65535; word_ends t\<rbrakk> \<Longrightarrow>
    skipped f (b @ ''#elif'' @ t) t"

text \<open>
  Reading a file: a file that was read before is not read again, and a new one is kept with its line
  ends normalized. The sum of the sizes stays below the limit of the buffer.
\<close>

definition loads ::
  "(string \<Rightarrow> string option) \<Rightarrow> string option \<Rightarrow> (string \<times> string) list \<Rightarrow> string \<Rightarrow> string \<Rightarrow> (string \<times> string) list \<Rightarrow> bool" where
  "loads fs base L p x L' \<longleftrightarrow> c_str p = p \<and> p \<noteq> [] \<and> p \<noteq> EMPTY_SV \<and> x \<noteq> [] \<and>
     (case map_of L p of
        Some y \<Rightarrow> x = y \<and> L' = L
      | None \<Rightarrow>
          (case fs (full_path base p) of
             None \<Rightarrow> False
           | Some bytes \<Rightarrow> x = normalize bytes \<and> L' = L @ [(p, x)] \<and>
               length (entries L) + length p + 1 + length bytes < 2 ^ 32))"

definition define_names :: "string \<Rightarrow> string \<Rightarrow> (string \<Rightarrow> string option) \<Rightarrow> string \<Rightarrow> string option" where
  "define_names n v M = (\<lambda>w. if w \<in> set (alias_names n) then Some v else M w)"

text \<open>The value of a parameter: of the macro of that name, or the default.\<close>

definition param_final :: "(string \<Rightarrow> string option) \<Rightarrow> string \<Rightarrow> string \<Rightarrow> string" where
  "param_final M w x =
     (case M w of None \<Rightarrow> trim_sv x | Some v \<Rightarrow> if v = [] then ''1'' else trim_sv v)"

inductive text_step :: "(string \<Rightarrow> string option) \<Rightarrow> string option \<Rightarrow> text_state \<Rightarrow> text_state \<Rightarrow> bool"
  for fs base where
  file_end: "texts c = [] # ts \<Longrightarrow> text_step fs base c (c\<lparr>texts := ts\<rparr>)"
| plain_text: "\<lbrakk>texts c = (b @ CHR ''#'' # t) # ts; closed b\<rbrakk> \<Longrightarrow> text_step fs base c
    (c\<lparr>texts := (CHR ''#'' # t) # ts, written := written c @ expand (macros c) b\<rparr>)"
| last_text: "\<lbrakk>texts c = t # ts; no_directive t\<rbrakk> \<Longrightarrow> text_step fs base c
    (c\<lparr>texts := ts, written := written c @ expand (macros c) t\<rparr>)"
| define_line: "\<lbrakk>texts c = (''#define'' @ a @ n @ a' @ v @ z @ LF # t) # ts;
    a \<noteq> []; \<forall>x \<in> set (a @ a' @ z). blank x; n \<noteq> []; \<forall>x \<in> set n. name_char x; names_end (a' @ v @ z);
    v = [] \<and> z = [] \<or> v \<noteq> [] \<and> \<not> blank (hd v) \<and> \<not> blank (last v); value_lines (v @ z)\<rbrakk> \<Longrightarrow>
    text_step fs base c (c\<lparr>macros := define_names n v (macros c), texts := t # ts\<rparr>)"
| define_block: "\<lbrakk>texts c = (''#define_m'' @ a @ n @ LF # b @ ''#enddef'' @ u @ LF # t) # ts;
    \<forall>x \<in> set a. blank x; word_ends (a @ n); name_list n; n = [] \<or> \<not> blank (hd n);
    sv_find ''#enddef'' (b @ ''#enddef'') = Some (length b); LF \<notin> set u\<rbrakk> \<Longrightarrow>
    text_step fs base c (c\<lparr>macros := define_names n (LF # b) (macros c), texts := t # ts\<rparr>)"
| param_line: "\<lbrakk>texts c = (''#param'' @ a @ CHR ''('' # T @ CHR '')'' # a1 @ w @ a2 @ CHR ''='' # x @ LF # t) # ts;
    \<forall>y \<in> set (a @ a1 @ a2). blank y; balanced 0 T; count_list T CHR ''('' < 65535; trim_sv T \<noteq> [];
    w \<noteq> []; \<forall>y \<in> set w. IS_IDENT_CHAR y; LF \<notin> set x\<rbrakk> \<Longrightarrow>
    text_step fs base c (c\<lparr>macros := (macros c)(w := None), texts := t # ts,
      written := written c @ param_text (trim_sv T) w (param_final (macros c) w x)\<rparr>)"
| skip_lines: "\<lbrakk>texts c = (''#skip'' @ u @ LF # v @ LF # t) # ts; word_ends u; LF \<notin> set u; LF \<notin> set v\<rbrakk> \<Longrightarrow>
    text_step fs base c (c\<lparr>texts := t # ts\<rparr>)"
| include_file: "\<lbrakk>texts c = (CHR ''#'' # w @ a @ q @ u @ LF # t) # ts; w \<in> {''include'', ''import''};
    \<forall>x \<in> set a. blank x; quoted p q; LF \<notin> set u; loads fs base (files c) p x L\<rbrakk> \<Longrightarrow>
    text_step fs base c (c\<lparr>files := L, texts := x # t # ts\<rparr>)"
| if_true: "\<lbrakk>texts c = (h @ LF # t) # ts; if_line (macros c) h True\<rbrakk> \<Longrightarrow>
    text_step fs base c (c\<lparr>flags := branch_flags True # flags c, texts := t # ts\<rparr>)"
| if_false: "\<lbrakk>texts c = (h @ LF # t) # ts; if_line (macros c) h False; skipped (branch_flags False) t t'\<rbrakk> \<Longrightarrow>
    text_step fs base c (c\<lparr>flags := branch_flags False # flags c, texts := t' # ts\<rparr>)"
| else_taken: "\<lbrakk>texts c = (''#else'' @ u @ LF # t) # ts; word_ends u; LF \<notin> set u; flags c = f # F;
    f AND EVER_TAKEN \<noteq> 0; skipped (f AND NOT ACTIVE) t t'\<rbrakk> \<Longrightarrow>
    text_step fs base c (c\<lparr>flags := (f AND NOT ACTIVE) # F, texts := t' # ts\<rparr>)"
| else_open: "\<lbrakk>texts c = (''#else'' @ u @ LF # t) # ts; word_ends u; LF \<notin> set u; flags c = f # F;
    f AND EVER_TAKEN = 0\<rbrakk> \<Longrightarrow>
    text_step fs base c (c\<lparr>flags := branch_flags True # F, texts := t # ts\<rparr>)"
| elif_taken: "\<lbrakk>texts c = (''#elif'' @ t) # ts; word_ends t; flags c = f # F; f AND EVER_TAKEN \<noteq> 0;
    skipped (f AND NOT ACTIVE) t t'\<rbrakk> \<Longrightarrow>
    text_step fs base c (c\<lparr>flags := (f AND NOT ACTIVE) # F, texts := t' # ts\<rparr>)"
| elif_true: "\<lbrakk>texts c = (''#elif'' @ e @ LF # t) # ts; word_ends e; LF \<notin> set e; \<exists>x \<in> set e. \<not> blank x;
    flags c = f # F; f AND EVER_TAKEN = 0; condition (macros c) e True\<rbrakk> \<Longrightarrow>
    text_step fs base c (c\<lparr>flags := branch_flags True # F, texts := t # ts\<rparr>)"
| elif_false: "\<lbrakk>texts c = (''#elif'' @ e @ LF # t) # ts; word_ends e; LF \<notin> set e; \<exists>x \<in> set e. \<not> blank x;
    flags c = f # F; f AND EVER_TAKEN = 0; condition (macros c) e False; skipped (branch_flags False) t t'\<rbrakk> \<Longrightarrow>
    text_step fs base c (c\<lparr>flags := branch_flags False # F, texts := t' # ts\<rparr>)"
| end_if: "\<lbrakk>texts c = (''#endif'' @ u @ LF # t) # ts; word_ends u; LF \<notin> set u; flags c = f # F\<rbrakk> \<Longrightarrow>
    text_step fs base c (c\<lparr>flags := F, texts := t # ts\<rparr>)"

text \<open>Updates in the order of the fields.\<close>

lemma text_state_order [simp]:
  "c\<lparr>texts := t, macros := M\<rparr> = c\<lparr>macros := M, texts := t\<rparr>"
  "c\<lparr>texts := t, files := L\<rparr> = c\<lparr>files := L, texts := t\<rparr>"
  "c\<lparr>texts := t, flags := F\<rparr> = c\<lparr>flags := F, texts := t\<rparr>"
  "c\<lparr>written := w, texts := t\<rparr> = c\<lparr>texts := t, written := w\<rparr>"
  by simp_all

section \<open>The preprocessor shows a state of the machine\<close>

definition frame_shows :: "FileManager \<Rightarrow> SourceFrame \<Rightarrow> string \<Rightarrow> bool" where
  "frame_shows m f t \<longleftrightarrow> in_bounds m (frame_content f) \<and> frame_cursor f \<le> snip_size (frame_content f) \<and>
     drop (unat (frame_cursor f)) (snippet_text m (frame_content f)) = t"

definition shows_text :: "string option \<Rightarrow> Preprocessor \<Rightarrow> text_state \<Rightarrow> bool" where
  "shows_text base P c \<longleftrightarrow> macros_ok P \<and> macro_text P = macros c \<and> represents (file_mgr P) (files c) \<and>
     src_path (file_mgr P) = base \<and> branchFlags P = flags c \<and> output_buffer P = written c \<and>
     list_all2 (frame_shows (file_mgr P)) (inputStack P) (texts c)"

lemma shows_top:
  assumes "shows_text base P c" and "texts c = t # ts"
  shows "top_ok P" and "rest P = t" and "list_all2 (frame_shows (file_mgr P)) (tl (inputStack P)) ts"
    and "macros_ok P" and "macro_text P = macros c" and "branchFlags P = flags c"
proof -
  obtain f fr where f: "inputStack P = f # fr" "frame_shows (file_mgr P) f t" "list_all2 (frame_shows (file_mgr P)) fr ts"
    using assms by (auto simp: shows_text_def list_all2_Cons2)
  then show "top_ok P" "rest P = t" "list_all2 (frame_shows (file_mgr P)) (tl (inputStack P)) ts"
    by (simp_all add: top_ok_def rest_def frame_text_def text_of_def sourceContent_def cursor_def frame_shows_def)
qed (use assms in \<open>simp_all add: shows_text_def\<close>)

lemma shows_next:
  assumes "shows_text base P c" and "texts c = t # ts"
    and "top_ok Q" and "rest Q = t'" and "file_mgr Q = file_mgr P" and "tl (inputStack Q) = tl (inputStack P)"
    and "macros_ok Q" and "macro_text Q = macros c'" and "files c' = files c" and "branchFlags Q = flags c'"
    and "texts c' = t' # ts" and "output_buffer Q = written c'"
  shows "shows_text base Q c'"
proof -
  have "inputStack Q = hd (inputStack Q) # tl (inputStack P)" using assms(3,6) by (cases "inputStack Q") (simp_all add: top_ok_def)
  moreover have "frame_shows (file_mgr P) (hd (inputStack Q)) t'"
    using assms(3-5) by (simp add: top_ok_def rest_def frame_text_def text_of_def sourceContent_def cursor_def frame_shows_def)
  ultimately have "list_all2 (frame_shows (file_mgr P)) (inputStack Q) (t' # ts)"
    using shows_top(3) [OF assms(1,2)] by (metis list_all2_Cons)
  then show ?thesis using assms by (simp add: shows_text_def)
qed

lemma macros_ok_keep: "macros_ok P \<Longrightarrow> file_mgr Q = file_mgr P \<Longrightarrow> storedMacros Q = storedMacros P \<Longrightarrow> macros_ok Q"
  by (simp add: macros_ok_def)

lemma macro_text_keep: "file_mgr Q = file_mgr P \<Longrightarrow> storedMacros Q = storedMacros P \<Longrightarrow> macro_text Q = macro_text P"
  by (simp add: macro_text_def text_of_def fun_eq_iff cong: if_cong)

text \<open>A directive is read, and its handler is called on the text behind it.\<close>

lemma at_directive:
  assumes s: "shows_text base P c" and t: "texts c = (CHR ''#'' # w @ t) # ts"
    and w: "\<forall>c \<in> set w. IS_IDENT_CHAR c" and e: "word_ends t" and ty: "macro_hash_match (CHR ''#'' # w) = type"
  shows "\<exists>Q. process_step fill fs P = process_directive fill fs type Q \<and> shows_text base Q (c\<lparr>texts := t # ts\<rparr>) \<and>
    currActive Q = type"
proof -
  note top = shows_top [OF s t]
  let ?Q = "(move (Suc (length w)) P)\<lparr>currActive := type\<rparr>"
  have "process_step fill fs P = process_directive fill fs type ?Q"
    using process_step_directive [OF top(1,2) w _ ty] e by (simp add: word_ends_def)
  moreover have "top_ok ?Q" "rest ?Q = t" using move_over [OF top(1), of "CHR ''#'' # w" t "Suc (length w)"] top(2) by simp_all
  then have "shows_text base ?Q (c\<lparr>texts := t # ts\<rparr>)"
    using top s by (intro shows_next [OF s t]) (simp_all add: shows_text_def macros_ok_def)
  ultimately show ?thesis by (intro exI [of _ ?Q]) simp
qed

lemma shows_move:
  assumes s: "shows_text base P c" and t: "texts c = (a @ t) # ts" and k: "k = length a"
  shows "shows_text base (move k P) (c\<lparr>texts := t # ts\<rparr>)"
proof -
  note top = shows_top [OF s t]
  show ?thesis
    using move_over [OF top(1,2) k] top s macros_ok_keep [of P "move k P"]
    by (intro shows_next [OF s t]) (simp_all add: shows_text_def)
qed

text \<open>What changes neither files nor macros nor the stack.\<close>

lemma shows_same:
  assumes "shows_text base P c" and "file_mgr Q = file_mgr P" and "storedMacros Q = storedMacros P"
    and "inputStack Q = inputStack P" and "branchFlags Q = flags c'" and "output_buffer Q = written c'"
    and "macros c' = macros c" and "files c' = files c" and "texts c' = texts c"
  shows "shows_text base Q c'"
  using assms(1,4-9) macros_ok_keep [OF _ assms(2,3)] macro_text_keep [OF assms(2,3)]
  by (simp add: shows_text_def assms(2))

lemma shows_fields: "shows_text base P c \<Longrightarrow> branchFlags P = flags c \<and> output_buffer P = written c"
  by (simp add: shows_text_def)

lemma shows_set_flags: "shows_text base P c \<Longrightarrow> flags c = f # F \<Longrightarrow> shows_text base (set_flags g P) (c\<lparr>flags := g # F\<rparr>)"
  by (frule shows_fields) (erule shows_same, simp_all add: set_flags_def)

lemma shows_push_flags: "shows_text base P c \<Longrightarrow> shows_text base (push_flags b P) (c\<lparr>flags := branch_flags b # flags c\<rparr>)"
  by (frule shows_fields) (erule shows_same, simp_all add: push_flags_def branch_flags_def)

lemma shows_pop_flags: "shows_text base P c \<Longrightarrow> flags c = f # F \<Longrightarrow> shows_text base (P\<lparr>branchFlags := F\<rparr>) (c\<lparr>flags := F\<rparr>)"
  by (frule shows_fields) (erule shows_same, simp_all)

lemma shows_active: "shows_text base P c \<Longrightarrow> shows_text base (P\<lparr>currActive := T\<rparr>) c"
  by (frule shows_fields) (erule shows_same, simp_all)

lemma shows_emit: "shows_text base P c \<Longrightarrow> shows_text base (emit sv P) (c\<lparr>written := written c @ sv\<rparr>)"
  by (frule shows_fields) (erule shows_same, simp_all)

lemma skipped_shows:
  assumes s: "shows_text base P c" and t: "texts c = t # ts" and f: "flags c = f # F" and sk: "skipped f t t'"
  shows "\<exists>k Q. skip_if_branch P = (k, Q) \<and> 0 \<le> k \<and> shows_text base Q (c\<lparr>texts := t' # ts\<rparr>)"
proof -
  note top = shows_top [OF s t]
  have fl: "branchFlags P = f # F" using top(6) f by simp
  from sk obtain a k where a: "t = a @ t'" "skip_if_branch P = (k, move (length a) P)" "0 \<le> k"
  proof cases
    case (to_endif d b u)
    have "rest P = b @ CHR ''#'' # ''endif'' @ u @ LF # t'" using top(2) to_endif(1) by simp
    then have "skip_if_branch P = (0, move (length b + length ''endif'' + length u + 2) P)"
      using fl by (intro skip_if_branch_to [OF top(1) _ _ to_endif(2,3) _ _ to_endif(4,5)]) auto
    then show ?thesis using that [of "b @ ''#endif'' @ u @ [LF]" 0] to_endif(1) by (simp add: eval_nat_numeral)
  next
    case (to_else d b u)
    have "rest P = b @ CHR ''#'' # ''else'' @ u @ LF # t'" using top(2) to_else(1) by simp
    then have "skip_if_branch P = (0, move (length b + length ''else'' + length u + 2) P)"
      using fl to_else(2) by (intro skip_if_branch_to [OF top(1) _ _ to_else(3,4) _ _ to_else(5,6)]) auto
    then show ?thesis using that [of "b @ ''#else'' @ u @ [LF]" 0] to_else(1) by (simp add: eval_nat_numeral)
  next
    case (to_elif d b)
    have "rest P = b @ ''#elif'' @ t'" using top(2) to_elif(1) by simp
    then have "skip_if_branch P = (105102, move (length b + 5) P)"
      using fl to_elif(2) by (intro skip_if_branch_to_elif [OF top(1) _ to_elif(5,3,4)]) auto
    then show ?thesis using that [of "b @ ''#elif''" 105102] to_elif(1) by (simp add: eval_nat_numeral)
  qed
  then show ?thesis using shows_move [OF s _ refl, of a t' ts] t by auto
qed

section \<open>Every step of the machine is one of the preprocessor\<close>

lemma sim_file_end:
  assumes "shows_text base P c" and "texts c = [] # ts"
  shows "\<exists>Q. process fill fs P = process fill fs Q \<and> shows_text base Q (c\<lparr>texts := ts\<rparr>)"
proof -
  note top = shows_top [OF assms]
  let ?Q = "P\<lparr>inputStack := tl (inputStack P)\<rparr>"
  have "shows_text base ?Q (c\<lparr>texts := ts\<rparr>)"
    using assms(1) top(3) macros_ok_keep [of P ?Q] macro_text_keep [of ?Q P] by (simp add: shows_text_def)
  then show ?thesis using process_pop [OF top(1,2)] by blast
qed

lemma sim_plain:
  assumes s: "shows_text base P c" and t: "texts c = (b @ CHR ''#'' # t) # ts" and b: "closed b"
  shows "\<exists>Q. process fill fs P = process fill fs Q \<and>
    shows_text base Q (c\<lparr>texts := (CHR ''#'' # t) # ts, written := written c @ expand (macros c) b\<rparr>)"
  using process_closed [OF shows_top(1,2) [OF s t] b] shows_emit [OF shows_move [OF s t refl]] shows_top(5) [OF s t]
  by (intro exI [of _ "emit (expand (macro_text P) b) (move (length b) P)"]) simp

lemma sim_last:
  assumes s: "shows_text base P c" and t: "texts c = t # ts" and n: "no_directive t"
  shows "\<exists>Q. process fill fs P = process fill fs Q \<and>
    shows_text base Q (c\<lparr>texts := ts, written := written c @ expand (macros c) t\<rparr>)"
proof -
  note top = shows_top [OF s t]
  obtain Q where Q: "process fill fs P = process fill fs Q" "inputStack Q = tl (inputStack P)"
      "output_buffer Q = output_buffer P @ expand (macro_text P) t"
      "storedMacros Q = storedMacros P" "branchFlags Q = branchFlags P" "file_mgr Q = file_mgr P"
    using process_plain [OF top(1), of fill fs] n top(2) by auto
  then have "shows_text base Q (c\<lparr>texts := ts, written := written c @ expand (macros c) t\<rparr>)"
    using s top(3) macros_ok_keep [of P Q] macro_text_keep [of Q P] by (simp add: shows_text_def)
  with Q(1) show ?thesis by blast
qed

text \<open>The steps that a directive makes.\<close>

definition directive_sim ::
  "char \<Rightarrow> (string \<Rightarrow> string option) \<Rightarrow> string option \<Rightarrow> MacroType \<Rightarrow> text_state \<Rightarrow> text_state \<Rightarrow> bool" where
  "directive_sim fill fs base type c c' \<longleftrightarrow> (\<forall>P. shows_text base P c \<longrightarrow> currActive P = type \<longrightarrow>
     (\<exists>k Q. process_directive fill fs type P = Some (k, Q) \<and> 0 \<le> k \<and> shows_text base Q c'))"

lemma sim_directive:
  assumes s: "shows_text base P c" and t: "texts c = (CHR ''#'' # w @ t) # ts"
    and w: "\<forall>c \<in> set w. IS_IDENT_CHAR c" and e: "word_ends t" and ty: "macro_hash_match (CHR ''#'' # w) = type"
    and d: "directive_sim fill fs base type (c\<lparr>texts := t # ts\<rparr>) c'"
  shows "\<exists>Q. process fill fs P = process fill fs Q \<and> shows_text base Q c'"
proof -
  obtain P1 where P1: "process_step fill fs P = process_directive fill fs type P1"
      "shows_text base P1 (c\<lparr>texts := t # ts\<rparr>)" "currActive P1 = type"
    using at_directive [OF s t w e ty] by blast
  obtain k Q where Q: "process_directive fill fs type P1 = Some (k, Q)" "0 \<le> k" "shows_text base Q c'"
    using d P1(2,3) unfolding directive_sim_def by blast
  have "process fill fs P = process fill fs Q"
    using process_turn [OF shows_top(1) [OF s t], of fill fs k Q] P1(1) Q(1,2) by simp
  with Q(3) show ?thesis by blast
qed

lemma directive_simI:
  assumes "\<And>P. shows_text base P c \<Longrightarrow> currActive P = type \<Longrightarrow>
    \<exists>k Q. process_directive fill fs type P = Some (k, Q) \<and> 0 \<le> k \<and> shows_text base Q c'"
  shows "directive_sim fill fs base type c c'"
  using assms unfolding directive_sim_def by blast

lemma macro_text_conv:
  assumes "macros_ok P"
  shows "macro_text P w = map_option (\<lambda>d. text_of P (def_content d)) (storedMacros P w)"
  using macro_text_Some [OF assms] by (cases "storedMacros P w") (simp_all add: macro_text_def)

lemma shows_register:
  assumes s: "shows_text base P c" and t: "texts c = (x @ t) # ts" and k: "k = length x"
    and d: "in_bounds (file_mgr P) (def_content d)" "\<forall>Q. file_mgr Q = file_mgr P \<longrightarrow> text_of Q (def_content d) = v"
  shows "shows_text base ((move k P)\<lparr>storedMacros := (\<lambda>w. if w \<in> set ws then Some d else storedMacros P w)\<rparr>)
    (c\<lparr>macros := (\<lambda>w. if w \<in> set ws then Some v else macros c w), texts := t # ts\<rparr>)"
    (is "shows_text base ?Q ?c")
proof -
  note top = shows_top [OF s t]
  have ok: "macros_ok ?Q" using top(4) d(1) by (simp add: macros_ok_def)
  have "macro_text ?Q = macros ?c"
  proof
    fix w
    have "text_of ?Q = text_of P" by (rule text_of_file) simp
    then show "macro_text ?Q w = macros ?c w"
      using macro_text_conv [OF ok, of w] macro_text_conv [OF top(4), of w] top(5) d(2) by (simp cong: if_cong)
  qed
  then show ?thesis
    using ok move_over [OF top(1,2) k] s by (intro shows_next [OF s t]) (simp_all add: shows_text_def)
qed

lemma sim_define:
  assumes "\<forall>x \<in> set (a @ a' @ z). blank x" and "n \<noteq> []" and "\<forall>x \<in> set n. name_char x" and "names_end (a' @ v @ z)"
    and "v = [] \<and> z = [] \<or> v \<noteq> [] \<and> \<not> blank (hd v) \<and> \<not> blank (last v)" and "value_lines (v @ z)"
  shows "directive_sim fill fs base M_Define (c\<lparr>texts := (a @ n @ a' @ v @ z @ LF # t) # ts\<rparr>)
    (c\<lparr>macros := define_names n v (macros c), texts := t # ts\<rparr>)" (is "directive_sim _ _ _ _ ?c _")
proof (rule directive_simI)
  fix P
  assume s: "shows_text base P ?c"
  have t: "texts ?c = ((a @ n @ a' @ v @ z @ [LF]) @ t) # ts" by simp
  note top = shows_top [OF s t]
  let ?k = "Suc (length (a @ n @ a' @ v @ z))"
  obtain d where d: "handle_define P = (0, (move ?k P)\<lparr>storedMacros :=
        (\<lambda>w. if w \<in> set (alias_names n) then Some d else storedMacros P w)\<rparr>)"
      "in_bounds (file_mgr P) (def_content d)" "\<forall>Q. file_mgr Q = file_mgr P \<longrightarrow> text_of Q (def_content d) = v"
    using handle_define_lines [OF top(1), of a n a' v z t] top(2) assms by auto
  have "?k = length (a @ n @ a' @ v @ z @ [LF])" by simp
  from shows_register [OF s t this d(2,3), of "alias_names n"] d(1)
  show "\<exists>k Q. process_directive fill fs M_Define P = Some (k, Q) \<and> 0 \<le> k \<and>
      shows_text base Q (c\<lparr>macros := define_names n v (macros c), texts := t # ts\<rparr>)"
    by (simp add: process_directive_def define_names_def cong: if_cong)
qed

lemma sim_define_m:
  assumes "\<forall>x \<in> set a. blank x" and "name_list n" and "n = [] \<or> \<not> blank (hd n)"
    and "sv_find ''#enddef'' (b @ ''#enddef'') = Some (length b)" and "LF \<notin> set u"
  shows "directive_sim fill fs base M_Define_M (c\<lparr>texts := (a @ n @ LF # b @ ''#enddef'' @ u @ LF # t) # ts\<rparr>)
    (c\<lparr>macros := define_names n (LF # b) (macros c), texts := t # ts\<rparr>)" (is "directive_sim _ _ _ _ ?c _")
proof (rule directive_simI)
  fix P
  assume s: "shows_text base P ?c"
  have t: "texts ?c = ((a @ n @ LF # b @ ''#enddef'' @ u @ [LF]) @ t) # ts" by simp
  note top = shows_top [OF s t]
  let ?k = "length (a @ n @ b @ u) + 9"
  obtain d where d: "handle_define_m P = (0, (move ?k P)\<lparr>storedMacros :=
        (\<lambda>w. if w \<in> set (alias_names n) then Some d else storedMacros P w)\<rparr>)"
      "in_bounds (file_mgr P) (def_content d)" "\<forall>Q. file_mgr Q = file_mgr P \<longrightarrow> text_of Q (def_content d) = LF # b"
    using handle_define_m_text [OF top(1) _ assms(1-5), of t] top(2) by auto
  have "?k = length (a @ n @ LF # b @ ''#enddef'' @ u @ [LF])" by simp
  from shows_register [OF s t this d(2,3), of "alias_names n"] d(1)
  show "\<exists>k Q. process_directive fill fs M_Define_M P = Some (k, Q) \<and> 0 \<le> k \<and>
      shows_text base Q (c\<lparr>macros := define_names n (LF # b) (macros c), texts := t # ts\<rparr>)"
    by (simp add: process_directive_def define_names_def cong: if_cong)
qed

lemma shows_forget:
  assumes s: "shows_text base P c"
  shows "shows_text base (forgetMacro w P) (c\<lparr>macros := (macros c)(w := None)\<rparr>)"
proof -
  let ?Q = "forgetMacro w P"
  have ok: "macros_ok ?Q" using s by (simp add: shows_text_def macros_ok_def forgetMacro_def)
  have "macro_text ?Q = (macro_text P)(w := None)"
    by (simp add: macro_text_def forgetMacro_def text_of_def fun_eq_iff cong: if_cong)
  then show ?thesis using s ok by (simp add: shows_text_def forgetMacro_def)
qed

lemma param_value_shows:
  assumes s: "shows_text base P c"
  shows "\<exists>Q. param_value w (trim_sv x) P = (param_final (macros c) w x, Q) \<and>
    shows_text base Q (c\<lparr>macros := (macros c)(w := None)\<rparr>)"
proof (cases "storedMacros P w")
  case None
  then have "macros c w = None" using s by (simp add: shows_text_def macro_text_def fun_eq_iff) (metis None option.map(1))
  moreover have "c\<lparr>macros := (macros c)(w := None)\<rparr> = c" using calculation by (simp add: fun_upd_idem)
  ultimately show ?thesis using None s by (simp add: param_value_def isDefined_def param_final_def)
next
  case (Some d)
  have ok: "macros_ok P" using s by (simp add: shows_text_def)
  have M: "macros c w = Some (text_of P (def_content d))"
    using s macro_text_Some [OF ok Some] by (simp add: shows_text_def)
  show ?thesis
    using Some M shows_forget [OF s, of w] has_value_text [OF ok Some]
    by (simp add: param_value_def isDefined_def findDefined_def param_final_def)
qed

lemma sim_param:
  assumes "\<forall>y \<in> set (a @ a1 @ a2). blank y" and "balanced 0 T" and "count_list T CHR ''('' < 65535"
    and "trim_sv T \<noteq> []" and "w \<noteq> []" and "\<forall>y \<in> set w. IS_IDENT_CHAR y" and "LF \<notin> set x"
  shows "directive_sim fill fs base M_Param
    (c\<lparr>texts := (a @ CHR ''('' # T @ CHR '')'' # a1 @ w @ a2 @ CHR ''='' # x @ LF # t) # ts\<rparr>)
    (c\<lparr>macros := (macros c)(w := None), texts := t # ts,
      written := written c @ param_text (trim_sv T) w (param_final (macros c) w x)\<rparr>)" (is "directive_sim _ _ _ _ ?c ?c'")
proof (rule directive_simI)
  fix P
  assume s: "shows_text base P ?c"
  let ?x = "a @ CHR ''('' # T @ CHR '')'' # a1 @ w @ a2 @ CHR ''='' # x @ [LF]"
  have t: "texts ?c = (?x @ t) # ts" by simp
  note top = shows_top [OF s t]
  let ?Q = "move (length (a @ T @ a1 @ w @ a2 @ x) + 4) P"
  have "shows_text base ?Q (c\<lparr>texts := t # ts\<rparr>)" using shows_move [OF s t, of "length (a @ T @ a1 @ w @ a2 @ x) + 4"] by simp
  from param_value_shows [OF this, of w x]
  obtain R where R: "param_value w (trim_sv x) ?Q = (param_final (macros c) w x, R)"
      "shows_text base R (c\<lparr>texts := t # ts, macros := (macros c)(w := None)\<rparr>)"
    by auto
  have "handle_param P = (0, emit (param_text (trim_sv T) w (param_final (macros c) w x)) R)"
    using handle_param_text [OF top(1) _ _ _ _ assms(2-7), of a a1 a2 t] top(2) assms(1) R(1) by simp
  then show "\<exists>k Q. process_directive fill fs M_Param P = Some (k, Q) \<and> 0 \<le> k \<and> shows_text base Q ?c'"
    using shows_emit [OF R(2)] by (simp add: process_directive_def)
qed

lemma sim_skip:
  assumes "LF \<notin> set u" and "LF \<notin> set v"
  shows "directive_sim fill fs base M_Skip (c\<lparr>texts := (u @ LF # v @ LF # t) # ts\<rparr>) (c\<lparr>texts := t # ts\<rparr>)"
    (is "directive_sim _ _ _ _ ?c _")
proof (rule directive_simI)
  fix P
  assume s: "shows_text base P ?c"
  have t: "texts ?c = ((u @ LF # v @ [LF]) @ t) # ts" by simp
  note top = shows_top [OF s t]
  have "handle_skip P = (0, move (length u + length v + 2) P)"
    using handle_skip_text [OF top(1) _ assms] top(2) by simp
  then show "\<exists>k Q. process_directive fill fs M_Skip P = Some (k, Q) \<and> 0 \<le> k \<and> shows_text base Q (c\<lparr>texts := t # ts\<rparr>)"
    using shows_move [OF s t, of "length u + length v + 2"] by (simp add: process_directive_def)
qed

text \<open>An included file is pushed with its whole text; the frames below read the same as before.\<close>

lemma in_bounds_extend:
  assumes "in_bounds m s" and "prefix (fdata m) (fdata m')" and "length (fdata m') < 2 ^ 32"
  shows "in_bounds m' s" and "snippet_text m' s = snippet_text m s"
proof -
  obtain ys where ys: "fdata m' = fdata m @ ys" using assms(2) by (auto simp: prefix_def)
  show "snippet_text m' s = snippet_text m s" using assms(1) by (simp add: snippet_text_def read_def ys in_bounds_def)
  show "in_bounds m' s" using assms(1,3) ys unfolding in_bounds_def by (metis le_add1 le_trans length_append)
qed

lemma frame_shows_extend:
  assumes "frame_shows m f t" and "prefix (fdata m) (fdata m')" and "length (fdata m') < 2 ^ 32"
  shows "frame_shows m' f t"
  using assms(1) in_bounds_extend [OF _ assms(2,3), of "frame_content f"] by (simp add: frame_shows_def)

lemma shows_manager:
  assumes s: "shows_text base P c" and m: "prefix (fdata (file_mgr P)) (fdata m)" "represents m L" "src_path m = base"
  shows "shows_text base (P\<lparr>file_mgr := m\<rparr>) (c\<lparr>files := L\<rparr>)"
proof -
  let ?Q = "P\<lparr>file_mgr := m\<rparr>"
  have len: "length (fdata m) < 2 ^ 32" using m(2) unfolding represents_def by blast
  have ok: "macros_ok P" using s by (simp add: shows_text_def)
  have ok': "macros_ok ?Q" using ok in_bounds_extend(1) [OF _ m(1) len] by (simp add: macros_ok_def)
  have "macro_text ?Q w = macro_text P w" for w
  proof (cases "storedMacros P w")
    case (Some d)
    then have "in_bounds (file_mgr P) (def_content d)" using ok by (simp add: macros_ok_def)
    then have "text_of ?Q (def_content d) = text_of P (def_content d)"
      using in_bounds_extend(2) [OF _ m(1) len] by (simp add: text_of_def)
    then show ?thesis using Some macro_text_Some [OF ok Some] macro_text_Some [OF ok', of w d] by simp
  qed (simp add: macro_text_def)
  then have "macro_text ?Q = macros c" using s by (simp add: shows_text_def fun_eq_iff)
  moreover have "list_all2 (frame_shows m) (inputStack P) (texts c)"
    using s frame_shows_extend [OF _ m(1) len] by (auto simp: shows_text_def elim: list_all2_mono)
  ultimately show ?thesis using s ok' m(2,3) by (simp add: shows_text_def)
qed

lemma map_of_first: "map_of L p = Some x \<Longrightarrow> \<exists>j < length L. L ! j = (p, x) \<and> (\<forall>k < j. fst (L ! k) \<noteq> p)"
proof (induction L)
  case (Cons f L)
  show ?case
  proof (cases "fst f = p")
    case True
    then show ?thesis using Cons.prems by (intro exI [of _ 0]) (cases f, simp)
  next
    case False
    then obtain j where j: "j < length L" "L ! j = (p, x)" "\<forall>k < j. fst (L ! k) \<noteq> p" using Cons by (cases f) auto
    moreover have "fst ((f # L) ! k) \<noteq> p" if "k < Suc j" for k
      using that j(3) False by (cases k) simp_all
    ultimately show ?thesis by (intro exI [of _ "Suc j"]) simp
  qed
qed simp

lemma layout_nth_info: "j < length L \<Longrightarrow> layout 0 L ! j = info_at (length (entries (take j L))) (L ! j)"
  using layout_nth [of L "take j L" "L ! j" "drop (Suc j) L"] by (simp add: id_take_nth_drop)

text \<open>What \<open>loads\<close> says of the manager.\<close>

lemma loads_text:
  assumes l: "loads fs base L p x L'" and r: "represents m L" and b: "src_path m = base"
  shows "\<exists>i m'. loadFile fill fs (Some p) m = (i, m') \<and> prefix (fdata m) (fdata m') \<and> represents m' L' \<and>
    src_path m' = base \<and> in_bounds m' (content i) \<and> snippet_text m' (content i) = x \<and> 0 < snip_offset (content i)"
proof -
  have p: "c_str p = p" "p \<noteq> []" "p \<noteq> EMPTY_SV" using l by (simp_all add: loads_def)
  have read: "in_bounds m' (content i) \<and> snippet_text m' (content i) = x \<and> 0 < snip_offset (content i)"
    if "represents m' L'" "j < length L'" "L' ! j = (p, x)" "i = layout 0 L' ! j" for m' i j
  proof -
    have s: "L' = take j L' @ (p, x) # drop (Suc j) L'" using that(2,3) by (metis id_take_nth_drop)
    have i: "i = info_at (length (entries (take j L'))) (p, x)" using layout_nth_info [OF that(2)] that(3,4) by simp
    have d: "fdata m' = entries (take j L' @ (p, x) # drop (Suc j) L')" "length (fdata m') < 2 ^ 32"
      using that(1) s unfolding represents_def by metis+
    note tx = read_entry [OF d]
    have lt: "length (entries (take j L')) + length (entry (p, x)) \<le> length (fdata m')" using d(1) by simp
    have u: "unat (of_nat (length p) + 1 + (0 :: u32)) = length p + 1"
      "unat (of_nat (length x) :: u32) = length x" "unat (of_nat (length (entries (take j L'))) :: u32) = length (entries (take j L'))"
      using unat_entry_size [of "length p" 0] lt d(2) by (simp_all add: unat_of_nat_lt)
    have "unat (snip_offset (content i)) = length (entries (take j L')) + (length p + 1)"
    proof -
      have "snip_offset (content i) = of_nat (length (entries (take j L'))) + (of_nat (length p) + 1)"
        by (simp add: content_def i info_at_def add.assoc)
      then show ?thesis using u lt d(2) by (simp add: unat_add_lt)
    qed
    then have "in_bounds m' (content i)" "0 < snip_offset (content i)"
      using u lt d(2) by (simp_all add: in_bounds_def content_def i info_at_def word_less_nat_alt)
    moreover have "snippet_text m' (content i) = x" using tx i by (simp add: file_text_def)
    ultimately show ?thesis by simp
  qed
  show ?thesis
  proof (cases "map_of L p")
    case None
    then have new: "p \<notin> fst ` set L" by (simp add: map_of_eq_None_iff)
    obtain bytes where f: "fs (full_path base p) = Some bytes" "x = normalize bytes" "L' = L @ [(p, x)]"
        "length (entries L) + length p + 1 + length bytes < 2 ^ 32"
      using l None by (auto simp: loads_def split: option.splits)
    have e: "fdata m = entries L" using r by (simp add: represents_def)
    have "findFile m (Some (c_str p)) = NOT_FOUND" using find_new [OF r new p(3)] p(1) by simp
    from loadFile_new [of m p fs bytes fill, OF this]
    have ld: "loadFile fill fs (Some p) m = (info_at (length (fdata m)) (p, x), m\<lparr>fdata := fdata m @ entry (p, x),
        loaded := loaded m @ [info_at (length (fdata m)) (p, x)]\<rparr>)" (is "_ = (?i, ?m)")
      using f b p(1) e by (simp add: Let_def)
    have rep: "represents ?m L'"
      using represents_snoc [OF r, of "(p, x)"] f length_normalize_le [of bytes] e by simp
    have "?i = layout 0 L' ! length L" using f(3) e by (simp add: layout_append nth_append)
    then have "in_bounds ?m (content ?i) \<and> snippet_text ?m (content ?i) = x \<and> 0 < snip_offset (content ?i)"
      using f(3) by (intro read [OF rep, of "length L"]) simp_all
    then show ?thesis using ld rep b by (intro exI [of _ ?i] exI [of _ ?m]) simp
  next
    case (Some y)
    then have L': "L' = L" "x = y" using l by (simp_all add: loads_def)
    have "p \<in> fst ` set L" using Some by (metis map_of_SomeD fst_conv image_eqI)
    then obtain j where j: "j < length L" "fst (L ! j) = p" "\<forall>k < j. fst (L ! k) \<noteq> p"
        "loadFile fill fs (Some p) m = (loaded m ! j, m)"
      using load_again [OF r, of p] p by auto
    obtain j' where j': "j' < length L" "L ! j' = (p, x)" "\<forall>k < j'. fst (L ! k) \<noteq> p"
      using map_of_first [of L p x] Some L'(2) by blast
    have "j = j'" using j j' by (metis fst_conv linorder_neqE_nat)
    moreover have "loaded m = layout 0 L" using r by (simp add: represents_def)
    ultimately have "in_bounds m (content (loaded m ! j)) \<and> snippet_text m (content (loaded m ! j)) = x \<and>
        0 < snip_offset (content (loaded m ! j))"
      using read [of m j] r L'(1) j'(2) j(1) by simp
    then show ?thesis using j(4) r b L'(1) by (intro exI [of _ "loaded m ! j"] exI [of _ m]) simp
  qed
qed

lemma sim_include:
  assumes w: "type = M_Include \<or> type = M_Import" and a: "\<forall>x \<in> set a. blank x" and q: "quoted p q" and u: "LF \<notin> set u"
    and l: "loads fs base (files c) p x L"
  shows "directive_sim fill fs base type (c\<lparr>texts := (a @ q @ u @ LF # t) # ts\<rparr>) (c\<lparr>files := L, texts := x # t # ts\<rparr>)"
    (is "directive_sim _ _ _ _ ?c ?c'")
proof (rule directive_simI)
  fix P
  assume s: "shows_text base P ?c"
  have t: "texts ?c = ((a @ q @ u @ [LF]) @ t) # ts" by simp
  note top = shows_top [OF s t]
  have rep: "represents (file_mgr P) (files c)" "src_path (file_mgr P) = base" using s by (simp_all add: shows_text_def)
  obtain i m where m: "loadFile fill fs (Some p) (file_mgr P) = (i, m)" "prefix (fdata (file_mgr P)) (fdata m)"
      "represents m L" "src_path m = base" "in_bounds m (content i)" "snippet_text m (content i) = x"
      "0 < snip_offset (content i)"
    using loads_text [OF l rep, of fill] by blast
  let ?Q = "(move (length (a @ q @ u) + 1) P)\<lparr>file_mgr := m\<rparr>"
  obtain y ys where x: "x = y # ys" using l by (cases x) (simp_all add: loads_def)
  have sz: "unat (snip_size (content i)) = length x" using length_snippet_text [OF m(5)] m(6) by simp
  have mx: "unat POffsetMax = 4294967295" "unat PLengthMax = 4294967295"
    by (simp_all add: POffsetMax_def PLengthMax_def unsigned_minus_1_eq_mask mask_eq_exp_minus_1)
  have "snip_size (content i) \<noteq> 0" "snip_size (content i) \<noteq> PLengthMax" "snip_offset (content i) \<noteq> snip_offset SNIPPET_SENT"
    using sz x m(5,7) mx by (auto simp: in_bounds_def SNIPPET_SENT_def word_less_nat_alt)
  then have h: "handle_include fill fs P = (0, push_frame (content i) ?Q)"
    using handle_include_quoted [OF top(1) _ a q u m(1), of t] top(2) by simp
  have "shows_text base ?Q (c\<lparr>files := L, texts := t # ts\<rparr>)"
    using shows_manager [OF shows_move [OF s t, of "length (a @ q @ u) + 1"] _ m(3,4)] m(2) by simp
  then have "shows_text base (push_frame (content i) ?Q) ?c'"
    using m(5,6) macros_ok_keep [of ?Q "push_frame (content i) ?Q"] macro_text_keep [of "push_frame (content i) ?Q" ?Q]
    by (simp add: shows_text_def push_frame_def frame_shows_def)
  moreover have "process_directive fill fs type P = Some (handle_include fill fs P)"
    using w by (auto simp: process_directive_def handle_import_def)
  ultimately show "\<exists>k Q. process_directive fill fs type P = Some (k, Q) \<and> 0 \<le> k \<and> shows_text base Q ?c'"
    using h by simp
qed

lemma if_line_if:
  assumes i: "word_ends e" "LF \<notin> set e" "\<exists>x \<in> set e. \<not> blank x" "condition (macros c) e b"
    and sk: "b = False \<Longrightarrow> skipped (branch_flags False) t t'" and t': "b = True \<Longrightarrow> t' = t"
  shows "directive_sim fill fs base M_If (c\<lparr>texts := (e @ LF # t) # ts\<rparr>)
    (c\<lparr>flags := branch_flags b # flags c, texts := t' # ts\<rparr>)" (is "directive_sim _ _ _ _ ?c ?c'")
proof (rule directive_simI)
  fix P
  assume s: "shows_text base P ?c"
  have t: "texts ?c = ((e @ [LF]) @ t) # ts" by simp
  note top = shows_top [OF s t]
  let ?Q = "(move (Suc (length e)) P)\<lparr>currActive := M_If\<rparr>"
  have r: "rest P = e @ LF # t" using top(2) by simp
  have v: "condition (macro_text P) e b" using i(4) top(5) by simp
  note h = handle_if_text [OF top(1) r i(2,3) v top(4) refl]
  have Q: "shows_text base (push_flags b ?Q) (c\<lparr>texts := t # ts, flags := branch_flags b # flags c\<rparr>)"
    using shows_push_flags [OF shows_active [OF shows_move [OF s t, of "Suc (length e)"]], of b] by simp
  show "\<exists>k Q. process_directive fill fs M_If P = Some (k, Q) \<and> 0 \<le> k \<and> shows_text base Q ?c'"
  proof (cases b)
    case True
    then show ?thesis using h Q t' by (intro exI [of _ 0] exI [of _ "push_flags True ?Q"]) (simp add: process_directive_def)
  next
    case False
    then show ?thesis
      using h skipped_shows [OF Q _ _ sk, of ts "flags c"] by (auto simp: process_directive_def)
  qed
qed

lemma if_line_ifndef:
  assumes i: "w \<noteq> []" "\<forall>c \<in> set w. IS_IDENT_CHAR c" "word_ends v" "LF \<notin> set v" "b \<longleftrightarrow> macros c w = None"
    and sk: "b = False \<Longrightarrow> skipped (branch_flags False) t t'" and t': "b = True \<Longrightarrow> t' = t"
  shows "directive_sim fill fs base M_Ifndef (c\<lparr>texts := (CHR '' '' # w @ v @ LF # t) # ts\<rparr>)
    (c\<lparr>flags := branch_flags b # flags c, texts := t' # ts\<rparr>)" (is "directive_sim _ _ _ _ ?c ?c'")
proof (rule directive_simI)
  fix P
  assume s: "shows_text base P ?c"
  have t: "texts ?c = ((CHR '' '' # w @ v @ [LF]) @ t) # ts" by simp
  note top = shows_top [OF s t]
  let ?Q = "(move (length w + length v + 2) P)\<lparr>currActive := M_Ifndef\<rparr>"
  have r: "rest P = CHR '' '' # w @ v @ LF # t" using top(2) by simp
  have "macro_text P w = None \<longleftrightarrow> \<not> isDefined w P" by (simp add: macro_text_def isDefined_def)
  then have d: "isDefined w P \<longleftrightarrow> \<not> b" using i(5) top(5) by simp
  note h = handle_ifndef_text [OF top(1) r i(1-4) refl]
  have Q: "shows_text base (push_flags b ?Q) (c\<lparr>texts := t # ts, flags := branch_flags b # flags c\<rparr>)"
    using shows_push_flags [OF shows_active [OF shows_move [OF s t, of "length w + length v + 2"]], of b] by simp
  show "\<exists>k Q. process_directive fill fs M_Ifndef P = Some (k, Q) \<and> 0 \<le> k \<and> shows_text base Q ?c'"
  proof (cases b)
    case True
    then show ?thesis using h d Q t' by (intro exI [of _ 0] exI [of _ "push_flags True ?Q"]) (simp add: process_directive_def)
  next
    case False
    then show ?thesis
      using h d skipped_shows [OF Q _ _ sk, of ts "flags c"] by (auto simp: process_directive_def)
  qed
qed

lemma sim_if_line:
  assumes s: "shows_text base P c" and t: "texts c = (h @ LF # t) # ts" and i: "if_line (macros c) h b"
    and sk: "b = False \<Longrightarrow> skipped (branch_flags False) t t'" and t': "b = True \<Longrightarrow> t' = t"
  shows "\<exists>Q. process fill fs P = process fill fs Q \<and>
    shows_text base Q (c\<lparr>flags := branch_flags b # flags c, texts := t' # ts\<rparr>)"
  using i
proof cases
  case (cond e)
  have e: "texts c = (CHR ''#'' # ''if'' @ (e @ LF # t)) # ts" using t cond(1) by simp
  have "word_ends (e @ LF # t)" using cond(2) by (simp add: word_ends_append)
  from sim_directive [OF s e directive_letters(1) this _ if_line_if [OF cond(2-5) sk t']]
  show ?thesis by simp
next
  case (absent w v)
  have e: "texts c = (CHR ''#'' # ''ifndef'' @ (CHR '' '' # w @ v @ LF # t)) # ts" using t absent(1) by simp
  from sim_directive [OF s e directive_letters(2) _ _ if_line_ifndef [OF absent(2-6) sk t']]
  show ?thesis by simp
qed

lemma sim_else:
  assumes u: "LF \<notin> set u" and f: "flags c = f # F"
    and sk: "if f AND EVER_TAKEN \<noteq> 0 then skipped (f AND NOT ACTIVE) t t' \<and> g = f AND NOT ACTIVE else t' = t \<and> g = branch_flags True"
  shows "directive_sim fill fs base M_Else (c\<lparr>texts := (u @ LF # t) # ts\<rparr>) (c\<lparr>flags := g # F, texts := t' # ts\<rparr>)"
    (is "directive_sim _ _ _ _ ?c ?c'")
proof (rule directive_simI)
  fix P
  assume s: "shows_text base P ?c"
  have t: "texts ?c = ((u @ [LF]) @ t) # ts" by simp
  note top = shows_top [OF s t]
  let ?P1 = "move (Suc (length u)) P"
  have b: "branchFlags P = f # F" using top(6) f by simp
  have sl: "skip_line P = ?P1" using skip_line_text [OF top(1) _ u, of t] top(2) by simp
  have s1: "shows_text base ?P1 (c\<lparr>texts := t # ts\<rparr>)" using shows_move [OF s t, of "Suc (length u)"] by simp
  have s2: "shows_text base (set_flags g ?P1) (c\<lparr>texts := t # ts, flags := g # F\<rparr>)" for g
    using shows_set_flags [OF s1, of f F g] f by simp
  show "\<exists>k Q. process_directive fill fs M_Else P = Some (k, Q) \<and> 0 \<le> k \<and> shows_text base Q ?c'"
  proof (cases "f AND EVER_TAKEN = 0")
    case True
    then have "handle_else P = (0, set_flags (branch_flags True) ?P1)" using b sl by (simp add: handle_else_def branch_flags_def)
    then show ?thesis using s2 [of g] sk True by (simp add: process_directive_def)
  next
    case False
    then have h: "handle_else P = skip_if_branch (set_flags g ?P1)" using b sl sk by (simp add: handle_else_def)
    have "skipped g t t'" using sk False by simp
    then show ?thesis using h skipped_shows [OF s2 [of g], of t ts g F t'] by (auto simp: process_directive_def)
  qed
qed

lemma sim_elif_taken:
  assumes f: "flags c = f # F" "f AND EVER_TAKEN \<noteq> 0" and sk: "skipped (f AND NOT ACTIVE) t t'"
  shows "directive_sim fill fs base M_Elif (c\<lparr>texts := t # ts\<rparr>) (c\<lparr>flags := (f AND NOT ACTIVE) # F, texts := t' # ts\<rparr>)"
    (is "directive_sim _ _ _ _ ?c ?c'")
proof (rule directive_simI)
  fix P
  assume s: "shows_text base P ?c"
  let ?P1 = "set_flags (f AND NOT ACTIVE) (P\<lparr>currActive := M_Elif\<rparr>)"
  have b: "branchFlags P = f # F" using shows_fields [OF s] f by simp
  have "handle_elif P = Some (skip_if_branch ?P1)" using b f(2) by (simp add: handle_elif_def Let_def)
  moreover have "shows_text base ?P1 (c\<lparr>texts := t # ts, flags := (f AND NOT ACTIVE) # F\<rparr>)"
    using shows_set_flags [OF shows_active [OF s], of f F "f AND NOT ACTIVE"] f(1) by simp
  ultimately show "\<exists>k Q. process_directive fill fs M_Elif P = Some (k, Q) \<and> 0 \<le> k \<and> shows_text base Q ?c'"
    using skipped_shows [of base ?P1 _ t ts "f AND NOT ACTIVE" F t'] sk by (fastforce simp: process_directive_def)
qed

lemma sim_elif_open:
  assumes e: "LF \<notin> set e" "\<exists>x \<in> set e. \<not> blank x" "condition (macros c) e b" and f: "flags c = f # F" "f AND EVER_TAKEN = 0"
    and sk: "b = False \<Longrightarrow> skipped (branch_flags False) t t'" and t': "b = True \<Longrightarrow> t' = t"
  shows "directive_sim fill fs base M_Elif (c\<lparr>texts := (e @ LF # t) # ts\<rparr>) (c\<lparr>flags := branch_flags b # F, texts := t' # ts\<rparr>)"
    (is "directive_sim _ _ _ _ ?c ?c'")
proof (rule directive_simI)
  fix P
  assume s: "shows_text base P ?c"
  have t: "texts ?c = ((e @ [LF]) @ t) # ts" by simp
  note top = shows_top [OF s t]
  let ?Q = "(move (Suc (length e)) P)\<lparr>currActive := M_Elif\<rparr>"
  have r: "rest P = e @ LF # t" using top(2) by simp
  have v: "condition (macro_text P) e b" using e(3) top(5) by simp
  have fl: "branchFlags P = f # F" using top(6) f(1) by simp
  note h = handle_elif_open [OF top(1) r e(1,2) v top(4) fl f(2) refl]
  have Q: "shows_text base (set_flags (branch_flags b) ?Q) (c\<lparr>texts := t # ts, flags := branch_flags b # F\<rparr>)"
    using shows_set_flags [OF shows_active [OF shows_move [OF s t, of "Suc (length e)"]], of f F "branch_flags b"] f(1) by simp
  show "\<exists>k Q. process_directive fill fs M_Elif P = Some (k, Q) \<and> 0 \<le> k \<and> shows_text base Q ?c'"
  proof (cases b)
    case True
    then show ?thesis using h Q t'
      by (intro exI [of _ 0] exI [of _ "set_flags (branch_flags True) ?Q"]) (simp add: process_directive_def)
  next
    case False
    then show ?thesis
      using h skipped_shows [OF Q _ _ sk, of ts F] by (auto simp: process_directive_def)
  qed
qed

lemma sim_endif:
  assumes u: "LF \<notin> set u" and f: "flags c = f # F"
  shows "directive_sim fill fs base M_Endif (c\<lparr>texts := (u @ LF # t) # ts\<rparr>) (c\<lparr>flags := F, texts := t # ts\<rparr>)"
    (is "directive_sim _ _ _ _ ?c ?c'")
proof (rule directive_simI)
  fix P
  assume s: "shows_text base P ?c"
  have t: "texts ?c = ((u @ [LF]) @ t) # ts" by simp
  note top = shows_top [OF s t]
  have s1: "shows_text base (P\<lparr>branchFlags := F\<rparr>) (?c\<lparr>flags := F\<rparr>)" using shows_pop_flags [OF s] f by simp
  have "handle_endif P = (0, move (Suc (length u)) (P\<lparr>branchFlags := F\<rparr>))"
    using handle_endif_text [OF top(1) _ u, of t f F] top(2,6) f by simp
  moreover have "shows_text base (move (Suc (length u)) (P\<lparr>branchFlags := F\<rparr>)) ?c'"
    using shows_move [OF s1, of "u @ [LF]" t ts "Suc (length u)"] by simp
  ultimately show "\<exists>k Q. process_directive fill fs M_Endif P = Some (k, Q) \<and> 0 \<le> k \<and> shows_text base Q ?c'"
    by (simp add: process_directive_def)
qed

section \<open>Refinement\<close>

lemma more_letters:
  "\<forall>c \<in> set ''define_m''. IS_IDENT_CHAR c" "\<forall>c \<in> set ''param''. IS_IDENT_CHAR c" "\<forall>c \<in> set ''import''. IS_IDENT_CHAR c"
  by (simp_all add: IS_IDENT_CHAR_conv ident_6bit_nonzero ident_byte_def)

lemma blanks_end_word: "\<forall>x \<in> set a. blank x \<Longrightarrow> a \<noteq> [] \<or> word_ends t \<Longrightarrow> word_ends (a @ t)"
  using blank_not_ident by (cases a) (simp_all add: word_ends_def)

lemma quoted_word_ends: "quoted p q \<Longrightarrow> word_ends (q @ t)"
  by (auto simp: quoted_def word_ends_def IS_IDENT_CHAR_conv ident_6bit_nonzero ident_byte_def)

lemma word_ends_paren: "word_ends (CHR ''('' # t)"
  by (simp add: word_ends_def IS_IDENT_CHAR_conv ident_6bit_nonzero ident_byte_def)

lemma step_refined:
  assumes "text_step fs base c c'" and s: "shows_text base P c"
  shows "\<exists>Q. process fill fs P = process fill fs Q \<and> shows_text base Q c'"
  using assms(1)
proof cases
  case (file_end ts)
  then show ?thesis using sim_file_end [OF s] by blast
next
  case (plain_text b t ts)
  then show ?thesis using sim_plain [OF s] by blast
next
  case (last_text t ts)
  then show ?thesis using sim_last [OF s] by blast
next
  case (define_line a n a' v z t ts)
  have t: "texts c = (CHR ''#'' # ''define'' @ (a @ n @ a' @ v @ z @ LF # t)) # ts" using define_line(2) by simp
  have "word_ends (a @ n @ a' @ v @ z @ LF # t)" using define_line(3,4) by (intro blanks_end_word) auto
  from sim_directive [OF s t ident_letters(1) this _ sim_define [OF define_line(4-9)]] define_line(1)
  show ?thesis by simp
next
  case (define_block a n b u t ts)
  have t: "texts c = (CHR ''#'' # ''define_m'' @ (a @ n @ LF # b @ ''#enddef'' @ u @ LF # t)) # ts"
    using define_block(2) by simp
  have "word_ends ((a @ n) @ LF # b @ ''#enddef'' @ u @ LF # t)" by (rule word_ends_append [OF define_block(4)]) simp
  then have e: "word_ends (a @ n @ LF # b @ ''#enddef'' @ u @ LF # t)" by simp
  from sim_directive [OF s t more_letters(1) e _ sim_define_m [OF define_block(3,5-8)]] define_block(1)
  show ?thesis by simp
next
  case (param_line a T a1 w a2 x t ts)
  have t: "texts c = (CHR ''#'' # ''param'' @ (a @ CHR ''('' # T @ CHR '')'' # a1 @ w @ a2 @ CHR ''='' # x @ LF # t)) # ts"
    using param_line(2) by simp
  have "word_ends (a @ CHR ''('' # T @ CHR '')'' # a1 @ w @ a2 @ CHR ''='' # x @ LF # t)"
    using param_line(3) word_ends_paren by (intro blanks_end_word) auto
  from sim_directive [OF s t more_letters(2) this _ sim_param [OF param_line(3-9)]] param_line(1)
  show ?thesis by simp
next
  case (skip_lines u v t ts)
  have t: "texts c = (CHR ''#'' # ''skip'' @ (u @ LF # v @ LF # t)) # ts" using skip_lines(2) by simp
  have "word_ends (u @ LF # v @ LF # t)" using skip_lines(3) by (simp add: word_ends_append)
  from sim_directive [OF s t ident_letters(3) this _ sim_skip [OF skip_lines(4,5)]] skip_lines(1)
  show ?thesis by simp
next
  case (include_file w a q u t ts p x L)
  have e: "word_ends (a @ q @ u @ LF # t)"
    using include_file(4) quoted_word_ends [OF include_file(5)] by (intro blanks_end_word) simp_all
  have w: "\<forall>c \<in> set w. IS_IDENT_CHAR c" using include_file(3) ident_letters(2) more_letters(3) by auto
  have ty: "macro_hash_match (CHR ''#'' # w) = M_Include \<or> macro_hash_match (CHR ''#'' # w) = M_Import"
    using include_file(3) by auto
  from sim_directive [OF s include_file(2) w e refl sim_include [OF ty include_file(4,5,6,7)]] include_file(1)
  show ?thesis by simp
next
  case (if_true h t ts)
  then show ?thesis using sim_if_line [OF s if_true(2,3)] by simp
next
  case (if_false h t ts t')
  then show ?thesis using sim_if_line [OF s if_false(2,3)] by simp
next
  case (else_taken u t ts f F t')
  have t: "texts c = (CHR ''#'' # ''else'' @ (u @ LF # t)) # ts" using else_taken(2) by simp
  have "word_ends (u @ LF # t)" using else_taken(3) by (simp add: word_ends_append)
  from sim_directive [OF s t directive_letters(4) this _ sim_else [OF else_taken(4,5), of t t' "f AND NOT ACTIVE"]] else_taken(1,6,7)
  show ?thesis by simp
next
  case (else_open u t ts f F)
  have t: "texts c = (CHR ''#'' # ''else'' @ (u @ LF # t)) # ts" using else_open(2) by simp
  have "word_ends (u @ LF # t)" using else_open(3) by (simp add: word_ends_append)
  from sim_directive [OF s t directive_letters(4) this _ sim_else [OF else_open(4,5), of t t "branch_flags True"]] else_open(1,6)
  show ?thesis by simp
next
  case (elif_taken t ts f F t')
  have t: "texts c = (CHR ''#'' # ''elif'' @ t) # ts" using elif_taken(2) by simp
  from sim_directive [OF s t directive_letters(5) elif_taken(3) _ sim_elif_taken [OF elif_taken(4-6)]] elif_taken(1)
  show ?thesis by simp
next
  case (elif_true e t ts f F)
  have t: "texts c = (CHR ''#'' # ''elif'' @ (e @ LF # t)) # ts" using elif_true(2) by simp
  have "word_ends (e @ LF # t)" using elif_true(3) by (simp add: word_ends_append)
  from sim_directive [OF s t directive_letters(5) this _ sim_elif_open [OF elif_true(4,5,8,6,7)]] elif_true(1)
  show ?thesis by simp
next
  case (elif_false e t ts f F t')
  have t: "texts c = (CHR ''#'' # ''elif'' @ (e @ LF # t)) # ts" using elif_false(2) by simp
  have "word_ends (e @ LF # t)" using elif_false(3) by (simp add: word_ends_append)
  from sim_directive [OF s t directive_letters(5) this _ sim_elif_open [OF elif_false(4,5,8,6,7,9)]] elif_false(1)
  show ?thesis by simp
next
  case (end_if u t ts f F)
  have t: "texts c = (CHR ''#'' # ''endif'' @ (u @ LF # t)) # ts" using end_if(2) by simp
  have "word_ends (u @ LF # t)" using end_if(3) by (simp add: word_ends_append)
  from sim_directive [OF s t directive_letters(3) this _ sim_endif [OF end_if(4,5)]] end_if(1)
  show ?thesis by simp
qed

lemma steps_refined:
  assumes "(text_step fs base)\<^sup>*\<^sup>* c c'" and "shows_text base P c"
  shows "\<exists>Q. process fill fs P = process fill fs Q \<and> shows_text base Q c'"
  using assms
proof (induction rule: rtranclp_induct)
  case (step c1 c2)
  then obtain Q where Q: "process fill fs P = process fill fs Q" "shows_text base Q c1" by blast
  obtain R where "process fill fs Q = process fill fs R" "shows_text base R c2"
    using step_refined [OF step(2) Q(2)] by blast
  with Q(1) show ?case by auto
qed blast

text \<open>A run of the machine to its end is a run of \<open>process\<close> that returns.\<close>

lemma run_refined:
  assumes "(text_step fs base)\<^sup>*\<^sup>* c c'" and "shows_text base P c" and "texts c' = []"
  shows "\<exists>Q. process fill fs P = Some (0, Q) \<and> get_result Q = written c' \<and> shows_text base Q c'"
proof -
  obtain Q where Q: "process fill fs P = process fill fs Q" "shows_text base Q c'"
    using steps_refined [OF assms(1,2)] by blast
  then have "inputStack Q = []" using assms(3) by (simp add: shows_text_def)
  then have "process fill fs Q = Some (0, Q)" by (subst process.simps) simp
  then show ?thesis using Q by (simp add: shows_text_def get_result_def)
qed

text \<open>The state a file starts in.\<close>

definition start_text :: "string \<Rightarrow> string \<Rightarrow> text_state" where
  "start_text p x = \<lparr>macros = Map.empty, files = [(p, x)], flags = [], texts = [x], written = []\<rparr>"

lemma start_shows:
  assumes f: "fs (full_path base (c_str p)) = Some bytes" and len: "length (c_str p) + 1 + length bytes < 2 ^ 32"
  shows "shows_text base (init_preprocessor fill fs base (Some p) lvl) (start_text (c_str p) (normalize bytes))"
proof -
  let ?P = "init_preprocessor fill fs base (Some p) lvl" and ?f = "(c_str p, normalize bytes)"
  note i = init_loaded [where fs = fs and base = base and p = p and bytes = bytes and fill = fill and lvl = lvl,
      OF f len]
  let ?m = "init_manager base"
  have m0: "src_path ?m = base" "fdata ?m = []" "loaded ?m = []" by (simp_all add: init_manager_def)
  have "findFile ?m (Some (c_str p)) = NOT_FOUND" by (simp add: findFile_def m0)
  from loadFile_new [of ?m p fs bytes fill, OF this]
  have l: "loadFile fill fs (Some p) ?m = (info_at 0 ?f, ?m\<lparr>fdata := entry ?f, loaded := [info_at 0 ?f]\<rparr>)" (is "_ = (_, ?m')")
    using f len by (simp add: m0 Let_def)
  have fm: "file_mgr ?P = ?m'" "branchFlags ?P = []" by (simp_all add: init_preprocessor_def l init_preprocessor_info_def)
  have rep: "represents ?m' [?f]" using len length_normalize_le [of bytes] by (simp add: represents_def)
  have st: "inputStack ?P = [hd (inputStack ?P)]" using i(1,3) by (cases "inputStack ?P") (simp_all add: top_ok_def)
  have "frame_shows (file_mgr ?P) (hd (inputStack ?P)) (normalize bytes)"
    using i(1,2) by (simp add: top_ok_def rest_def frame_text_def text_of_def sourceContent_def cursor_def frame_shows_def)
  then have "list_all2 (frame_shows (file_mgr ?P)) (inputStack ?P) [normalize bytes]" using st by (metis list_all2_Cons list_all2_Nil)
  moreover have "macros_ok ?P" "macro_text ?P = Map.empty" using i(4) by (simp_all add: macros_ok_def macro_text_def fun_eq_iff)
  ultimately show ?thesis using i(5) fm rep m0 by (simp add: shows_text_def start_text_def)
qed

text \<open>
  C19: Preprocessing a file refines a machine on text, in which every directive is one step on the text
  of the open files: a run of the machine from the normalized contents of a file, with macros, included
  files and conditionals nested in any way, is a run of \<open>process\<close> that returns with code 0 and with the
  output of the machine, and the macros, the files read and the flags of the branches are then those of
  the machine.
\<close>

theorem process_refines_machine:
  assumes "fs (full_path base (c_str p)) = Some bytes" and "length (c_str p) + 1 + length bytes < 2 ^ 32"
    and "(text_step fs base)\<^sup>*\<^sup>* (start_text (c_str p) (normalize bytes)) c" and "texts c = []"
  shows "\<exists>Q. process fill fs (init_preprocessor fill fs base (Some p) lvl) = Some (0, Q) \<and> get_result Q = written c \<and>
    macro_text Q = macros c \<and> represents (file_mgr Q) (files c) \<and> branchFlags Q = flags c"
  using run_refined [OF assms(3) start_shows [where fs = fs and base = base and p = p and bytes = bytes and fill = fill and lvl = lvl,
        OF assms(1,2)] assms(4), of fill]
  by (auto simp: shows_text_def)

end
