(* ===== verification/Preproc_Runs.thy ===== *)
theory Preproc_Runs
  imports Preproc_Machine
begin

text \<open>
  Runs of the machine on text and what they mean for \<open>process\<close>: erroneous directives, files that
  are included, block macros, parameters, and a run through nested directives.
\<close>

section \<open>Errors\<close>

text \<open>The directives that end preprocessing, and their codes.\<close>

inductive text_error :: "(string \<Rightarrow> string option) \<Rightarrow> string option \<Rightarrow> text_state \<Rightarrow> int \<Rightarrow> bool" for fs base where
  unknown: "\<lbrakk>texts c = (CHR ''#'' # w @ t) # ts; \<forall>x \<in> set w. IS_IDENT_CHAR x; word_ends t;
    macro_hash_match (CHR ''#'' # w) = M_Unknown\<rbrakk> \<Longrightarrow> text_error fs base c (-404)"
| stray_enddef: "\<lbrakk>texts c = (''#enddef'' @ t) # ts; word_ends t\<rbrakk> \<Longrightarrow> text_error fs base c (-1)"
| no_branch: "\<lbrakk>texts c = (CHR ''#'' # w @ t) # ts; w \<in> {''else'', ''elif'', ''endif''}; word_ends t; flags c = []\<rbrakk> \<Longrightarrow>
    text_error fs base c (-400)"
| open_block: "\<lbrakk>texts c = (''#define_m'' @ a @ n @ LF # b) # ts; \<forall>x \<in> set a. blank x; word_ends (a @ n);
    name_list n; n = [] \<or> \<not> blank (hd n); sv_find ''#enddef'' (LF # b) = None\<rbrakk> \<Longrightarrow> text_error fs base c (-3)"
| no_path: "\<lbrakk>texts c = (CHR ''#'' # w @ a @ t) # ts; w \<in> {''include'', ''import''}; \<forall>x \<in> set a. blank x;
    word_ends (a @ t); t = [] \<or> \<not> blank (hd t) \<and> hd t \<noteq> CHR 0x22 \<and> hd t \<noteq> CHR ''<''\<rbrakk> \<Longrightarrow> text_error fs base c (-1)"
| no_file: "\<lbrakk>texts c = (CHR ''#'' # w @ a @ q @ u @ LF # t) # ts; w \<in> {''include'', ''import''};
    \<forall>x \<in> set a. blank x; quoted p q; LF \<notin> set u; c_str p = p; p \<noteq> EMPTY_SV; p \<notin> fst ` set (files c);
    fs (full_path base p) = None\<rbrakk> \<Longrightarrow> text_error fs base c (-2)"
| no_type: "\<lbrakk>texts c = (''#param'' @ a @ t) # ts; \<forall>x \<in> set a. blank x; word_ends (a @ t);
    t = [] \<or> \<not> blank (hd t) \<and> hd t \<noteq> CHR ''(''\<rbrakk> \<Longrightarrow> text_error fs base c (-400)"
| open_condition: "\<lbrakk>texts c = (''#if'' @ e) # ts; word_ends e; LF \<notin> set e\<rbrakk> \<Longrightarrow> text_error fs base c (-422)"

definition directive_fails ::
  "char \<Rightarrow> (string \<Rightarrow> string option) \<Rightarrow> string option \<Rightarrow> MacroType \<Rightarrow> text_state \<Rightarrow> int \<Rightarrow> bool" where
  "directive_fails fill fs base type c k \<longleftrightarrow> (\<forall>P. shows_text base P c \<longrightarrow>
     (\<exists>Q. process_directive fill fs type P = Some (k, Q) \<and> output_buffer Q = written c))"

lemma directive_failsI:
  assumes "\<And>P. shows_text base P c \<Longrightarrow> \<exists>Q. process_directive fill fs type P = Some (k, Q) \<and> output_buffer Q = output_buffer P"
  shows "directive_fails fill fs base type c k"
  using assms shows_fields unfolding directive_fails_def by metis

lemma fail_directive:
  assumes s: "shows_text base P c" and t: "texts c = (CHR ''#'' # w @ t) # ts"
    and w: "\<forall>c \<in> set w. IS_IDENT_CHAR c" and e: "word_ends t" and ty: "macro_hash_match (CHR ''#'' # w) = type"
    and d: "directive_fails fill fs base type (c\<lparr>texts := t # ts\<rparr>) k" and k: "k < 0"
  shows "\<exists>Q. process fill fs P = Some (k, Q) \<and> get_result Q = written c"
proof -
  obtain P1 where P1: "process_step fill fs P = process_directive fill fs type P1"
      "shows_text base P1 (c\<lparr>texts := t # ts\<rparr>)"
    using at_directive [OF s t w e ty] by blast
  obtain Q where Q: "process_directive fill fs type P1 = Some (k, Q)" "output_buffer Q = written (c\<lparr>texts := t # ts\<rparr>)"
    using d P1(2) unfolding directive_fails_def by blast
  have "inputStack P \<noteq> []" using shows_top(1) [OF s t] by (simp add: top_ok_def)
  then have "process fill fs P = Some (k, Q)" using P1(1) Q(1) k by (subst process.simps) simp
  then show ?thesis using Q(2) by (simp add: get_result_def)
qed

lemma findNext_char_none:
  assumes "top_ok P" and "c \<notin> set (rest P)"
  shows "findNext_char c P = PCursorMax"
proof -
  have "takeWhile (\<lambda>x. \<not> x = c) (rest P) = rest P" using assms(2) by (auto simp: takeWhile_eq_all_conv)
  then have n: "length (rest P) = length (takeWhile (\<lambda>x. \<not> x = c) (rest P))" by (simp only:)
  show ?thesis using find_loop_rest(1) [OF assms(1) findNext_char_def n] by simp
qed

lemma fail_open_block:
  assumes a: "\<forall>x \<in> set a. blank x" and n: "name_list n" "n = [] \<or> \<not> blank (hd n)"
    and b: "sv_find ''#enddef'' (LF # b) = None"
  shows "directive_fails fill fs base M_Define_M (c\<lparr>texts := (a @ n @ LF # b) # ts\<rparr>) (-3)"
    (is "directive_fails _ _ _ _ ?c _")
proof (rule directive_failsI)
  fix P
  assume s: "shows_text base P ?c"
  have t: "texts ?c = (a @ n @ LF # b) # ts" by simp
  note top = shows_top [OF s t]
  have "n @ LF # b = [] \<or> \<not> blank (hd (n @ LF # b))" using n(2) by (cases n) (simp_all add: blank_def)
  note s1 = ol_blanks [OF top(1,2) a this]
  let ?P2 = "move (length a + length n) P"
  have s2: "names_loop (move (length a) P) = ?P2" using names_loop_text [OF n(1) s1(2,3)] by (simp add: move_move)
  have "top_ok ?P2" "rest ?P2 = LF # b" using move_over [OF s1(2,3) refl] by (simp_all add: move_move)
  then have "findNext_seq ''#enddef'' ?P2 = PCursorMax" using findNext_seq_text [of ?P2 "''#enddef''"] b by simp
  then have "handle_define_m P = (-3, ?P2)" unfolding handle_define_m_def Let_def s1(1) s2 by simp
  then show "\<exists>Q. process_directive fill fs M_Define_M P = Some (-3, Q) \<and> output_buffer Q = output_buffer P"
    by (simp add: process_directive_def)
qed

lemma fail_no_path:
  assumes ty: "type = M_Include \<or> type = M_Import" and a: "\<forall>x \<in> set a. blank x"
    and t: "t = [] \<or> \<not> blank (hd t) \<and> hd t \<noteq> CHR 0x22 \<and> hd t \<noteq> CHR ''<''"
  shows "directive_fails fill fs base type (c\<lparr>texts := (a @ t) # ts\<rparr>) (-1)" (is "directive_fails _ _ _ _ ?c _")
proof (rule directive_failsI)
  fix P
  assume s: "shows_text base P ?c"
  have c: "texts ?c = (a @ t) # ts" by simp
  note top = shows_top [OF s c]
  have "t = [] \<or> \<not> blank (hd t)" using t by blast
  note s1 = ol_blanks [OF top(1,2) a this]
  let ?P1 = "move (length a) P"
  have "handle_include fill fs P = (-1, ?P1)"
  proof (cases t)
    case Nil
    then have "at_end ?P1" using not_end_iff [OF s1(2)] s1(3) by (simp add: at_end_def not_less)
    then show ?thesis by (simp add: handle_include_def s1(1))
  next
    case (Cons x y)
    have "currChar ?P1 = x" using currChar_rest [OF s1(2)] s1(3) Cons by simp
    then show ?thesis using t Cons by (simp add: handle_include_def s1(1) Let_def)
  qed
  then show "\<exists>Q. process_directive fill fs type P = Some (-1, Q) \<and> output_buffer Q = output_buffer P"
    using ty by (auto simp: process_directive_def handle_import_def)
qed

lemma fail_no_file:
  assumes ty: "type = M_Include \<or> type = M_Import" and a: "\<forall>x \<in> set a. blank x" and q: "quoted p q" and u: "LF \<notin> set u"
    and p: "c_str p = p" "p \<noteq> EMPTY_SV" "p \<notin> fst ` set (files c)" "fs (full_path base p) = None"
  shows "directive_fails fill fs base type (c\<lparr>texts := (a @ q @ u @ LF # t) # ts\<rparr>) (-2)" (is "directive_fails _ _ _ _ ?c _")
proof (rule directive_failsI)
  fix P
  assume s: "shows_text base P ?c"
  have c: "texts ?c = (a @ q @ u @ LF # t) # ts" by simp
  note top = shows_top [OF s c]
  have "represents (file_mgr P) (files c)" "src_path (file_mgr P) = base" using s by (simp_all add: shows_text_def)
  then have "loadFile fill fs (Some p) (file_mgr P) = (NOT_FOUND, file_mgr P)"
    using find_new [of "file_mgr P" "files c" p] p by (simp add: loadFile_def Let_def)
  from handle_include_quoted [OF top(1,2) a q u this]
  show "\<exists>Q. process_directive fill fs type P = Some (-2, Q) \<and> output_buffer Q = output_buffer P"
    using ty by (auto simp: process_directive_def handle_import_def Let_def content_def NOT_FOUND_def)
qed

lemma fail_no_type:
  assumes a: "\<forall>x \<in> set a. blank x" and t: "t = [] \<or> \<not> blank (hd t) \<and> hd t \<noteq> CHR ''(''"
  shows "directive_fails fill fs base M_Param (c\<lparr>texts := (a @ t) # ts\<rparr>) (-400)" (is "directive_fails _ _ _ _ ?c _")
proof (rule directive_failsI)
  fix P
  assume s: "shows_text base P ?c"
  have c: "texts ?c = (a @ t) # ts" by simp
  note top = shows_top [OF s c]
  have "t = [] \<or> \<not> blank (hd t)" using t by blast
  note s1 = ol_blanks [OF top(1,2) a this]
  let ?P1 = "move (length a) P"
  have "at_end ?P1 \<or> currChar ?P1 \<noteq> CHR ''(''"
  proof (cases t)
    case Nil
    then show ?thesis using not_end_iff [OF s1(2)] s1(3) by (simp add: at_end_def not_less)
  next
    case (Cons x y)
    then show ?thesis using currChar_rest [OF s1(2)] s1(3) t by simp
  qed
  then have "handle_param P = (-400, ?P1)" by (simp add: handle_param_def s1(1))
  then show "\<exists>Q. process_directive fill fs M_Param P = Some (-400, Q) \<and> output_buffer Q = output_buffer P"
    by (simp add: process_directive_def)
qed

lemma fail_open_condition:
  assumes "LF \<notin> set e"
  shows "directive_fails fill fs base M_If (c\<lparr>texts := e # ts\<rparr>) (-422)" (is "directive_fails _ _ _ _ ?c _")
proof (rule directive_failsI)
  fix P
  assume s: "shows_text base P ?c"
  have c: "texts ?c = e # ts" by simp
  note top = shows_top [OF s c]
  let ?P0 = "P\<lparr>currActive := M_If\<rparr>" and ?b = "takeWhile blank e" and ?y = "dropWhile blank e"
  have r: "rest ?P0 = ?b @ ?y" using top(2) by simp
  have b: "\<forall>c \<in> set ?b. blank c" by (auto dest: set_takeWhileD)
  have "?y = [] \<or> \<not> blank (hd ?y)" using hd_dropWhile by blast
  note o = ol_blanks [OF _ r b this]
  have o: "ol ?P0 = move (length ?b) ?P0" "top_ok (move (length ?b) ?P0)" "rest (move (length ?b) ?P0) = ?y"
    using o top(1) by simp_all
  have "LF \<notin> set ?y" using assms by (metis dropWhile_eq_drop in_set_dropD)
  then have "findNext_char LF (move (length ?b) ?P0) = PCursorMax" using findNext_char_none [OF o(2)] o(3) by (simp only:)
  then have "handle_if P = Some (-422, move (length ?b) ?P0)" unfolding handle_if_def Let_def o(1) by simp
  then show "\<exists>Q. process_directive fill fs M_If P = Some (-422, Q) \<and> output_buffer Q = output_buffer P"
    by (simp add: process_directive_def)
qed

lemma error_refined:
  assumes "text_error fs base c k" and s: "shows_text base P c"
  shows "\<exists>Q. process fill fs P = Some (k, Q) \<and> get_result Q = written c"
  using assms(1)
proof cases
  case (unknown w t ts)
  have "directive_fails fill fs base M_Unknown (c\<lparr>texts := t # ts\<rparr>) (-404)"
    by (rule directive_failsI) (simp add: process_directive_def handle_unknown_def)
  from fail_directive [OF s unknown(2-5) this] unknown(1) show ?thesis by simp
next
  case (stray_enddef t ts)
  have t: "texts c = (CHR ''#'' # ''enddef'' @ t) # ts" using stray_enddef(2) by simp
  have w: "\<forall>c \<in> set ''enddef''. IS_IDENT_CHAR c"
    by (simp_all add: IS_IDENT_CHAR_conv ident_6bit_nonzero ident_byte_def)
  have "directive_fails fill fs base M_Enddef (c\<lparr>texts := t # ts\<rparr>) (-1)"
    by (rule directive_failsI) (simp add: process_directive_def)
  from fail_directive [OF s t w stray_enddef(3) _ this] stray_enddef(1) show ?thesis by simp
next
  case (no_branch w t ts)
  have w: "\<forall>c \<in> set w. IS_IDENT_CHAR c" using no_branch(3) directive_letters by auto
  have ty: "macro_hash_match (CHR ''#'' # w) \<in> {M_Else, M_Elif, M_Endif}" using no_branch(3) by auto
  have "directive_fails fill fs base (macro_hash_match (CHR ''#'' # w)) (c\<lparr>texts := t # ts\<rparr>) (-400)"
  proof (rule directive_failsI)
    fix P
    assume "shows_text base P (c\<lparr>texts := t # ts\<rparr>)"
    then have "branchFlags P = []" using no_branch(5) by (simp add: shows_text_def)
    then show "\<exists>Q. process_directive fill fs (macro_hash_match (CHR ''#'' # w)) P = Some (-400, Q) \<and>
        output_buffer Q = output_buffer P"
      using ty by (auto simp: process_directive_def handle_else_def handle_elif_def handle_endif_def)
  qed
  from fail_directive [OF s no_branch(2) w no_branch(4) refl this] no_branch(1) show ?thesis by simp
next
  case (open_block a n b ts)
  have t: "texts c = (CHR ''#'' # ''define_m'' @ (a @ n @ LF # b)) # ts" using open_block(2) by simp
  have "word_ends ((a @ n) @ LF # b)" by (rule word_ends_append [OF open_block(4)]) simp
  then have e: "word_ends (a @ n @ LF # b)" by simp
  from fail_directive [OF s t more_letters(1) e _ fail_open_block [OF open_block(3,5-7)]] open_block(1)
  show ?thesis by simp
next
  case (no_path w a t ts)
  have w: "\<forall>c \<in> set w. IS_IDENT_CHAR c" using no_path(3) ident_letters(2) more_letters(3) by auto
  have ty: "macro_hash_match (CHR ''#'' # w) = M_Include \<or> macro_hash_match (CHR ''#'' # w) = M_Import"
    using no_path(3) by auto
  from fail_directive [OF s no_path(2) w no_path(5) refl fail_no_path [OF ty no_path(4,6)]] no_path(1)
  show ?thesis by simp
next
  case (no_file w a q u t ts p)
  have e: "word_ends (a @ q @ u @ LF # t)"
    using no_file(4) quoted_word_ends [OF no_file(5)] by (intro blanks_end_word) simp_all
  have w: "\<forall>c \<in> set w. IS_IDENT_CHAR c" using no_file(3) ident_letters(2) more_letters(3) by auto
  have ty: "macro_hash_match (CHR ''#'' # w) = M_Include \<or> macro_hash_match (CHR ''#'' # w) = M_Import"
    using no_file(3) by auto
  from fail_directive [OF s no_file(2) w e refl fail_no_file [where fs = fs and base = base, OF ty no_file(4-10)]] no_file(1)
  show ?thesis by simp
next
  case (no_type a t ts)
  have t: "texts c = (CHR ''#'' # ''param'' @ (a @ t)) # ts" using no_type(2) by simp
  from fail_directive [OF s t more_letters(2) no_type(4) _ fail_no_type [OF no_type(3,5)]] no_type(1)
  show ?thesis by simp
next
  case (open_condition e ts)
  have t: "texts c = (CHR ''#'' # ''if'' @ e) # ts" using open_condition(2) by simp
  from fail_directive [OF s t directive_letters(1) open_condition(3) _ fail_open_condition [OF open_condition(4)]] open_condition(1)
  show ?thesis by simp
qed

text \<open>
  C20: A directive that is not accepted ends preprocessing with the code of its error: an unknown word
  (-404), an \<open>#enddef\<close> without a block (-1), \<open>#else\<close>, \<open>#elif\<close> or \<open>#endif\<close> without a conditional (-400),
  a block that is not closed (-3), \<open>#include\<close> without a path (-1) or of a file that cannot be read (-2),
  \<open>#param\<close> without a type (-400), a condition without a line end (-422). Everything before it was
  processed, in whatever files and branches it stood, and is the output.
\<close>

theorem directive_errors:
  assumes "fs (full_path base (c_str p)) = Some bytes" and "length (c_str p) + 1 + length bytes < 2 ^ 32"
    and "(text_step fs base)\<^sup>*\<^sup>* (start_text (c_str p) (normalize bytes)) c" and "text_error fs base c k"
  shows "\<exists>Q. process fill fs (init_preprocessor fill fs base (Some p) lvl) = Some (k, Q) \<and> get_result Q = written c"
proof -
  let ?P = "init_preprocessor fill fs base (Some p) lvl"
  have "shows_text base ?P (start_text (c_str p) (normalize bytes))" by (rule start_shows [where fs = fs, OF assms(1,2)])
  then obtain Q where "process fill fs ?P = process fill fs Q" "shows_text base Q c"
    using steps_refined [OF assms(3)] by blast
  with error_refined [OF assms(4), of Q fill] show ?thesis by auto
qed

section \<open>A run through nested directives\<close>

text \<open>
  The file \<open>m\<close> defines two names, tests one and includes the file \<open>b\<close>, which declares a parameter
  under a guard: the value of the parameter is that of the macro, which is forgotten.
\<close>

definition outer_source :: string where
  "outer_source = ''#define N&K 2'' @ LF # ''#if N == 2'' @ LF # ''#include '' @ CHR 0x22 # ''b'' @ CHR 0x22 # LF #
     ''#else'' @ LF # ''x'' @ LF # ''#endif'' @ LF # ''N K''"

definition inner_source :: string where
  "inner_source = ''#ifndef Q'' @ LF # ''#param (u8) K = 1'' @ LF # ''#endif'' @ [LF]"

definition nested_files :: "string \<Rightarrow> string option" where
  "nested_files = [''m'' \<mapsto> outer_source, ''b'' \<mapsto> inner_source]"

definition two_names :: "string \<Rightarrow> string option" where
  "two_names = define_names ''N&K'' ''2'' Map.empty"

abbreviation state_of ::
  "(string \<Rightarrow> string option) \<Rightarrow> (string \<times> string) list \<Rightarrow> u8 list \<Rightarrow> string list \<Rightarrow> string \<Rightarrow> text_state" where
  "state_of M L F T W \<equiv> \<lparr>macros = M, files = L, flags = F, texts = T, written = W\<rparr>"

lemma step_to:
  "text_step fs base c c' \<Longrightarrow> c' = d \<Longrightarrow> (text_step fs base)\<^sup>*\<^sup>* d e \<Longrightarrow> (text_step fs base)\<^sup>*\<^sup>* c e"
  by (metis converse_rtranclp_into_rtranclp)

lemma inner_run:
  "(text_step nested_files None)\<^sup>*\<^sup>* (state_of two_names L F (inner_source # T) W)
     (state_of (two_names(''K'' := None)) L F T (W @ param_text ''u8'' ''K'' ''2''))"
proof -
  let ?M = "two_names(''K'' := None)" and ?W = "W @ param_text ''u8'' ''K'' ''2''" and ?b = "branch_flags True"
  let ?t = "''#endif'' @ [LF]"
  have f: "list_all IS_IDENT_CHAR ''Q'' \<and> two_names ''Q'' = None \<and> list_all IS_IDENT_CHAR ''K'' \<and> balanced 0 ''u8'' \<and>
      trim_sv ''u8'' = ''u8'' \<and> param_final two_names ''K'' '' 1'' = ''2'' \<and> blank CHR '' '' \<and> LF \<notin> set '' 1''"
    by code_simp
  have "if_line two_names (''#ifndef '' @ ''Q'' @ []) True"
    using f by (intro if_line.absent) (auto simp: list_all_iff)
  then have 1: "text_step nested_files None (state_of two_names L F (inner_source # T) W)
      (state_of two_names L (?b # F) ((''#param (u8) K = 1'' @ LF # ?t) # T) W)"
    using text_step.if_true [of "state_of two_names L F (inner_source # T) W" "''#ifndef Q''"] by (simp add: inner_source_def)
  have 2: "text_step nested_files None (state_of two_names L (?b # F) ((''#param (u8) K = 1'' @ LF # ?t) # T) W)
      (state_of ?M L (?b # F) (?t # T) ?W)"
    using text_step.param_line [of "state_of two_names L (?b # F) ((''#param (u8) K = 1'' @ LF # ?t) # T) W"
        "'' ''" "''u8''" "'' ''" "''K''" "'' ''" "'' 1''" ?t T] f by (auto simp: list_all_iff)
  have 3: "text_step nested_files None (state_of ?M L (?b # F) (?t # T) ?W) (state_of ?M L F ([] # T) ?W)"
    using text_step.end_if [of "state_of ?M L (?b # F) (?t # T) ?W" "[]" "[]" T] by simp
  have 4: "text_step nested_files None (state_of ?M L F ([] # T) ?W) (state_of ?M L F T ?W)"
    using text_step.file_end [of "state_of ?M L F ([] # T) ?W"] by simp
  show ?thesis by (rule step_to [OF 1 refl step_to [OF 2 refl step_to [OF 3 refl step_to [OF 4 refl rtranclp.rtrancl_refl]]]])
qed

lemma outer_run:
  "(text_step nested_files None)\<^sup>*\<^sup>* (start_text ''m'' outer_source)
     (state_of (two_names(''K'' := None)) [(''m'', outer_source), (''b'', inner_source)] [branch_flags True AND NOT ACTIVE] []
       (param_text ''u8'' ''K'' ''2'' @ ''2 K''))"
proof -
  let ?L = "[(''m'', outer_source)]" and ?M = "two_names(''K'' := None)" and ?b = "branch_flags True"
  let ?L2 = "?L @ [(''b'', inner_source)]" and ?W = "param_text ''u8'' ''K'' ''2''"
  let ?t3 = "''#else'' @ LF # ''x'' @ LF # ''#endif'' @ LF # ''N K''"
  let ?t2 = "''#include '' @ CHR 0x22 # ''b'' @ CHR 0x22 # LF # ?t3"
  let ?t1 = "''#if N == 2'' @ LF # ?t2"
  have f: "list_all name_char ''N&K'' \<and> names_end '' 2'' \<and> value_lines ''2'' \<and> blank CHR '' '' \<and> \<not> blank CHR ''2''"
    by code_simp
  have 1: "text_step nested_files None (start_text ''m'' outer_source) (state_of two_names ?L [] [?t1] [])"
    using text_step.define_line [of "start_text ''m'' outer_source" "'' ''" "''N&K''" "'' ''" "''2''" "[]" ?t1 "[]"] f
    by (auto simp: start_text_def outer_source_def list_all_iff two_names_def)
  have g: "trim_sv '' N == 2'' = ''N == 2'' \<and> ''N == 2'' \<notin> {''0'', ''false'', ''1'', ''true''} \<and>
      sv_find ''=='' ''N == 2'' = Some 2 \<and> operand two_names (trim_sv (take 2 ''N == 2'')) = ''2'' \<and>
      operand two_names (trim_sv (drop (2 + 2) ''N == 2'')) = ''2'' \<and> word_ends '' N == 2'' \<and>
      list_all (\<lambda>c. c \<noteq> LF) '' N == 2'' \<and> list_ex (\<lambda>c. \<not> blank c) '' N == 2''"
    by code_simp
  then have "condition two_names '' N == 2'' True"
    by (intro condition.equal [of _ "''N == 2''" 2]) (simp_all add: bool_words_def)
  then have "if_line two_names (''#if'' @ '' N == 2'') True"
    using g by (intro if_line.cond) (simp_all only: list_all_iff list_ex_iff, auto)
  then have 2: "text_step nested_files None (state_of two_names ?L [] [?t1] []) (state_of two_names ?L [?b] [?t2] [])"
    using text_step.if_true [of "state_of two_names ?L [] [?t1] []" "''#if N == 2''" ?t2 "[]"] by simp
  have h: "c_str ''b'' = ''b'' \<and> ''b'' \<noteq> EMPTY_SV \<and> inner_source \<noteq> [] \<and> normalize inner_source = inner_source \<and>
      nested_files ''b'' = Some inner_source"
    by code_simp
  have "length (entries ?L) + length ''b'' + 1 + length inner_source < 2 ^ 32"
    by (simp add: outer_source_def inner_source_def)
  then have "loads nested_files None ?L ''b'' inner_source ?L2"
    using h by (simp add: loads_def full_path_def)
  then have 3: "text_step nested_files None (state_of two_names ?L [?b] [?t2] [])
      (state_of two_names ?L2 [?b] [inner_source, ?t3] [])"
    using text_step.include_file [of "state_of two_names ?L [?b] [?t2] []" "''include''" "'' ''" "CHR 0x22 # ''b'' @ [CHR 0x22]"
        "[]" ?t3 "[]" "''b''" nested_files None inner_source ?L2] f by (simp add: quoted_def)
  have skip: "skippable Done 0 (''x'' @ [LF])"
  proof -
    have "quiet CHR ''x'' \<and> quiet LF" by code_simp
    then show ?thesis by (auto intro!: skippable.intros)
  qed
  have "skipped (?b AND NOT ACTIVE) ((''x'' @ [LF]) @ ''#endif'' @ [] @ LF # ''N K'') ''N K''"
    using skip ever_taken(3) by (intro skipped.to_endif [where d = 0]) simp_all
  then have 4: "text_step nested_files None (state_of ?M ?L2 [?b] [?t3] ?W) (state_of ?M ?L2 [?b AND NOT ACTIVE] [''N K''] ?W)"
    using text_step.else_taken [of "state_of ?M ?L2 [?b] [?t3] ?W" "[]" "''x'' @ LF # ''#endif'' @ LF # ''N K''" "[]" ?b "[]" "''N K''"]
      ever_taken(1) by simp
  have e: "expand ?M ''N K'' = ''2 K''" by code_simp
  have "no_directive ''N K''" by (rule no_directive_plain) simp
  then have 5: "text_step nested_files None (state_of ?M ?L2 [?b AND NOT ACTIVE] [''N K''] ?W)
      (state_of ?M ?L2 [?b AND NOT ACTIVE] [] (?W @ ''2 K''))"
    using text_step.last_text [of "state_of ?M ?L2 [?b AND NOT ACTIVE] [''N K''] ?W" "''N K''" "[]"] e by simp
  note r = inner_run [of ?L2 "[?b]" "[?t3]" "[]"]
  have "(text_step nested_files None)\<^sup>*\<^sup>* (state_of two_names ?L2 [?b] [inner_source, ?t3] [])
      (state_of ?M ?L2 [?b AND NOT ACTIVE] [] (?W @ ''2 K''))"
    using r step_to [OF 4 refl step_to [OF 5 refl rtranclp.rtrancl_refl]] by (simp add: rtranclp_trans)
  then show ?thesis using step_to [OF 1 refl step_to [OF 2 refl step_to [OF 3 refl]]] by simp
qed

theorem process_refines_machine_witness:
  "\<exists>Q. process CHR ''?'' nested_files (init_preprocessor CHR ''?'' nested_files None (Some ''m'') Log_Off) = Some (0, Q) \<and>
    get_result Q = ''constexpr (u8) K = static_cast<u8>(2);'' @ LF # ''2 K''"
proof -
  have h: "c_str ''m'' = ''m'' \<and> nested_files ''m'' = Some outer_source \<and> normalize outer_source = outer_source"
    by code_simp
  moreover have "length ''m'' + 1 + length outer_source < 2 ^ 32" by (simp add: outer_source_def)
  ultimately show ?thesis
    using process_refines_machine [of nested_files None "''m''" outer_source
      "state_of (two_names(''K'' := None)) [(''m'', outer_source), (''b'', inner_source)] [branch_flags True AND NOT ACTIVE] []
        (param_text ''u8'' ''K'' ''2'' @ ''2 K'')" "CHR ''?''" Log_Off] outer_run
    by (auto simp: full_path_def param_text_def)
qed

text \<open>An unknown directive behind an \<open>#include\<close> of plain text.\<close>

definition bad_source :: string where
  "bad_source = ''#include <t>'' @ LF # ''#undef N''"

definition bad_files :: "string \<Rightarrow> string option" where
  "bad_files = [''m'' \<mapsto> bad_source, ''t'' \<mapsto> ''one'']"

lemma bad_run:
  "(text_step bad_files None)\<^sup>*\<^sup>* (start_text ''m'' bad_source)
     (state_of Map.empty [(''m'', bad_source), (''t'', ''one'')] [] [''#undef N''] ''one'')"
proof -
  let ?L = "[(''m'', bad_source)]" let ?L2 = "?L @ [(''t'', ''one'')]"
  have h: "c_str ''t'' = ''t'' \<and> ''t'' \<noteq> EMPTY_SV \<and> normalize ''one'' = ''one'' \<and> bad_files ''t'' = Some ''one'' \<and> blank CHR '' ''"
    by code_simp
  have "length (entries ?L) + length ''t'' + 1 + length ''one'' < 2 ^ 32" by (simp add: bad_source_def)
  then have "loads bad_files None ?L ''t'' ''one'' ?L2" using h by (simp add: loads_def full_path_def)
  then have 1: "text_step bad_files None (start_text ''m'' bad_source) (state_of Map.empty ?L2 [] [''one'', ''#undef N''] [])"
    using text_step.include_file [of "start_text ''m'' bad_source" "''include''" "'' ''" "''<t>''" "[]" "''#undef N''" "[]" "''t''"
        bad_files None "''one''" ?L2] h
    by (simp add: quoted_def start_text_def bad_source_def)
  have "no_directive ''one''" by (rule no_directive_plain) simp
  then have 2: "text_step bad_files None (state_of Map.empty ?L2 [] [''one'', ''#undef N''] []) (state_of Map.empty ?L2 [] [''#undef N''] ''one'')"
    using text_step.last_text [of "state_of Map.empty ?L2 [] [''one'', ''#undef N''] []"] by (simp add: expand_empty)
  show ?thesis using step_to [OF 1 refl step_to [OF 2 refl rtranclp.rtrancl_refl]] by simp
qed

theorem directive_errors_witness:
  "\<exists>Q. process CHR ''?'' bad_files (init_preprocessor CHR ''?'' bad_files None (Some ''m'') Log_Off) = Some (-404, Q) \<and>
    get_result Q = ''one''"
proof -
  let ?c = "state_of Map.empty [(''m'', bad_source), (''t'', ''one'')] [] [''#undef N''] ''one''"
  have h: "c_str ''m'' = ''m'' \<and> bad_files ''m'' = Some bad_source \<and> normalize bad_source = bad_source \<and>
      list_all IS_IDENT_CHAR ''undef'' \<and> word_ends '' N'' \<and> macro_hash_match ''#undef'' = M_Unknown"
    by code_simp
  then have "text_error bad_files None ?c (-404)"
    by (intro text_error.unknown [of _ "''undef''" "'' N''" "[]"]) (auto simp: list_all_iff)
  moreover have "length ''m'' + 1 + length bad_source < 2 ^ 32" by (simp add: bad_source_def)
  ultimately show ?thesis
    using directive_errors [of bad_files None "''m''" bad_source ?c "-404" "CHR ''?''" Log_Off] bad_run h
    by (simp add: full_path_def)
qed

section \<open>Directives in front of plain text\<close>

lemma run_last:
  assumes s: "shows_text base P c" and st: "text_step fs base c c'" and t: "texts c' = [t]" "no_directive t"
  shows "\<exists>Q. process fill fs P = Some (0, Q) \<and> get_result Q = written c' @ expand (macros c') t"
proof -
  have "text_step fs base c' (c'\<lparr>texts := [], written := written c' @ expand (macros c') t\<rparr>)"
    by (rule text_step.last_text [OF t])
  then have "(text_step fs base)\<^sup>*\<^sup>* c (c'\<lparr>texts := [], written := written c' @ expand (macros c') t\<rparr>)"
    using st by (meson converse_rtranclp_into_rtranclp rtranclp.rtrancl_refl)
  from run_refined [OF this s] show ?thesis by auto
qed

text \<open>
  C23: \<open>#param (T) NAME = DEFAULT\<close> puts out a declaration of the constant, with the type cast to its
  value: the value of the macro \<open>NAME\<close>, if there is one, 1 if that macro is empty, and else the default,
  each without the blanks around it. The macro is forgotten: in the text that follows, \<open>NAME\<close> stands for
  the constant, and every other macro is expanded.
\<close>

theorem param_declares_constant:
  assumes "shows_text base P c"
    and "texts c = [''#param'' @ a @ CHR ''('' # T @ CHR '')'' # a1 @ w @ a2 @ CHR ''='' # x @ LF # t]"
    and "\<forall>y \<in> set (a @ a1 @ a2). blank y" and "balanced 0 T" and "count_list T CHR ''('' < 65535"
    and "trim_sv T \<noteq> []" and "w \<noteq> []" and "\<forall>y \<in> set w. IS_IDENT_CHAR y" and "LF \<notin> set x" and "no_directive t"
  shows "\<exists>Q. process fill fs P = Some (0, Q) \<and>
    get_result Q = get_result P @
      (''constexpr ('' @ trim_sv T @ '') '' @ w @ '' = static_cast<'' @ trim_sv T @ ''>('' @
        (case macro_text P w of None \<Rightarrow> trim_sv x | Some v \<Rightarrow> if v = [] then ''1'' else trim_sv v) @ '');'' @ [LF]) @
      expand ((macro_text P)(w := None)) t"
proof -
  have "macro_text P = macros c" "get_result P = written c" using assms(1) by (simp_all add: shows_text_def get_result_def)
  then show ?thesis
    using run_last [OF assms(1) text_step.param_line [OF assms(2-9)], of t fill] assms(10)
    by (simp add: param_text_def param_final_def)
qed

text \<open>An included file without directives is put out in place of the directive.\<close>

lemma included_in_place:
  assumes s: "shows_text base P c" and t: "texts c = [CHR ''#'' # w @ a @ q @ u @ LF # t]" "w \<in> {''include'', ''import''}"
    and a: "\<forall>x \<in> set a. blank x" "quoted p q" "LF \<notin> set u" and l: "loads fs base (files c) p x L"
    and n: "no_directive x" "no_directive t"
  shows "\<exists>Q. process fill fs P = Some (0, Q) \<and>
    get_result Q = get_result P @ expand (macro_text P) x @ expand (macro_text P) t"
proof -
  let ?c1 = "c\<lparr>files := L, texts := [x, t]\<rparr>" let ?c2 = "?c1\<lparr>texts := [t], written := written ?c1 @ expand (macros ?c1) x\<rparr>"
  obtain P1 where P1: "process fill fs P = process fill fs P1" "shows_text base P1 ?c1"
    using step_refined [OF text_step.include_file [OF t a l] s] by blast
  have "text_step fs base ?c1 ?c2" by (rule text_step.last_text) (simp_all add: n(1))
  from run_last [OF P1(2) this _ n(2), of fill] show ?thesis
    using s P1(1) by (simp add: shows_text_def get_result_def)
qed

definition param_source :: string where
  "param_source = ''#param (u8) N = 2'' @ LF # ''N''"

theorem param_declares_constant_witness:
  "\<exists>Q. process CHR ''?'' (\<lambda>_. None)
      (init_preprocessor CHR ''?'' (\<lambda>_. Some param_source) None (Some ''a'') Log_Off) = Some (0, Q) \<and>
    get_result Q = ''constexpr (u8) N = static_cast<u8>(2);'' @ LF # ''N''"
proof -
  let ?P = "init_preprocessor CHR ''?'' (\<lambda>_. Some param_source) None (Some ''a'') Log_Off"
  have h: "c_str ''a'' = ''a'' \<and> normalize param_source = param_source \<and> blank CHR '' '' \<and> balanced 0 ''u8'' \<and>
      trim_sv ''u8'' = ''u8'' \<and> list_all IS_IDENT_CHAR ''N'' \<and> LF \<notin> set '' 2'' \<and> trim_sv '' 2'' = ''2''"
    by code_simp
  have s: "shows_text None ?P (start_text ''a'' param_source)"
    using start_shows [of "\<lambda>_. Some param_source" None "''a''" param_source "CHR ''?''" Log_Off] h
    by (simp add: param_source_def)
  have "macro_text ?P = Map.empty" using s by (simp add: shows_text_def start_text_def)
  moreover have "get_result ?P = []" using s by (simp add: shows_text_def start_text_def get_result_def)
  moreover have "no_directive ''N''" by (rule no_directive_plain) simp
  ultimately show ?thesis
    using param_declares_constant [OF s, of "'' ''" "''u8''" "'' ''" "''N''" "'' ''" "'' 2''" "''N''" "CHR ''?''" "\<lambda>_. None"] h
    by (auto simp: start_text_def param_source_def list_all_iff expand_empty)
qed

section \<open>Concrete runs\<close>

text \<open>
  An \<open>#else\<close> that is reached by skipping does not set the flags of its conditional. When a conditional
  in its branch leaves flags behind, its \<open>#endif\<close> drops those, and the next \<open>#else\<close> around it finds the
  flags of a conditional without a taken branch: both sides of \<open>#if 1\<close> are put out.
\<close>

lemma else_not_marked_taken:
  "run_preprocessor (''#if 1'' @ LF # ''#if 0'' @ LF # ''#else'' @ LF # ''#if 1'' @ LF # ''a'' @ LF # ''#else'' @ LF #
      ''b'' @ LF # ''#endif'' @ LF # ''#endif'' @ LF # ''#else'' @ LF # ''c'' @ LF # ''#endif'' @ [LF])
     = Some (0, ''a'' @ LF # ''c'' @ [LF])"
  by code_simp

text \<open>
  The mark that continues a definition on the next line stays in the value of the macro and is put out
  with it.
\<close>

definition continued_source :: string where
  "continued_source = ''#define A x __/__'' @ LF # ''y'' @ LF # ''A''"

lemma continuation_mark_kept:
  "\<exists>Q. process CHR ''?'' (\<lambda>_. None)
      (init_preprocessor CHR ''?'' (\<lambda>_. Some continued_source) None (Some ''a'') Log_Off) = Some (0, Q) \<and>
    get_result Q = ''x __/__'' @ LF # ''y''"
proof -
  let ?v = "''x __/__'' @ LF # ''y''" and ?c = "start_text ''a'' continued_source"
  have h: "c_str ''a'' = ''a'' \<and> normalize continued_source = continued_source \<and> value_lines (''x __/__'' @ LF # ''y'') \<and>
      names_end ('' '' @ ''x'') \<and> name_char CHR ''A'' \<and> blank CHR '' '' \<and> \<not> blank CHR ''x'' \<and> \<not> blank CHR ''y'' \<and>
      expand (define_names ''A'' (''x __/__'' @ LF # ''y'') Map.empty) ''A'' = ''x __/__'' @ LF # ''y''"
    by code_simp
  have e: "names_end ('' '' @ ?v)" using h by (simp add: names_end_def)
  have s: "shows_text None (init_preprocessor CHR ''?'' (\<lambda>_. Some continued_source) None (Some ''a'') Log_Off) ?c"
    using start_shows [of "\<lambda>_. Some continued_source" None "''a''" continued_source "CHR ''?''" Log_Off] h
    by (simp add: continued_source_def)
  have st: "text_step (\<lambda>_. None) None ?c (?c\<lparr>macros := define_names ''A'' ?v (macros ?c), texts := [''A'']\<rparr>)"
    using e h by (intro text_step.define_line [of _ "'' ''" "''A''" "'' ''" ?v "[]" "''A''" "[]"])
      (auto simp: start_text_def continued_source_def)
  have "no_directive ''A''" by (rule no_directive_plain) simp
  from run_last [OF s st _ this, of "CHR ''?''"] show ?thesis using h by (simp add: start_text_def)
qed

text \<open>
  Skipping takes a quote of the other kind inside a literal for the start of a literal: the character
  literal of a double quote hides the \<open>#endif\<close>, and everything behind it is dropped with the branch.
\<close>

lemma quote_hides_endif:
  "run_preprocessor (''#if 0'' @ LF # CHR 0x27 # CHR 0x22 # CHR 0x27 # LF # ''#endif'' @ LF # ''x'') = Some (-422, [])"
  by code_simp

end
