(* ===== verification/Driver.thy ===== *)
theory Driver
  imports Preproc_Runs
begin

text \<open>
  \<open>Logic_compiler.cpp\<close>: the program preprocesses one example file and prints how long that took and
  how long the output is. The two numbers of the timer are parameters, and the operands of \<open><<\<close> are
  collected in order. The log of the preprocessor is not modelled. Short of exhausted memory nothing in
  the preprocessor throws, so that the handler of exceptions is not reached.
\<close>

section \<open>The program\<close>

datatype 'r printed = Out_text string | Out_number 'r | Out_size u64 | Out_endl

definition EXAMPLE_PATH :: string where
  "EXAMPLE_PATH = ''C:/Users/stefa/DEV/C/Logic_compiler/Logic_compiler/example/''"

definition targetFile :: string where
  "targetFile = ''example_preproc_02.lgc''"

definition banner_line :: string where
  "banner_line = ''========================================'' @ [LF]"

definition report :: "'r \<Rightarrow> 'r \<Rightarrow> string \<Rightarrow> 'r printed list" where
  "report ms us result =
     [Out_text banner_line, Out_text ('' Pure Preprocessing Time (Log Off):'' @ [LF]),
      Out_text ''   '', Out_number ms, Out_text '' ms ('', Out_number us, Out_text ('' us)'' @ [LF]),
      Out_text '' Output Size: '', Out_size (of_nat (length result)), Out_text ('' bytes'' @ [LF]),
      Out_text ''========================================'', Out_endl]"

text \<open>The exit status and the report; \<open>None\<close> when preprocessing does not return.\<close>

definition main ::
  "char \<Rightarrow> (string \<Rightarrow> string option) \<Rightarrow> 'r \<Rightarrow> 'r \<Rightarrow> (int \<times> 'r printed list) option" where
  "main fill fs ms us =
     (let preprocessor = init_preprocessor fill fs (Some EXAMPLE_PATH) (Some targetFile) Log_Trace
      in (case process fill fs preprocessor of
            None \<Rightarrow> None
          | Some (code, preprocessor) \<Rightarrow>
              (let result = get_result preprocessor in Some (0, report ms us result))))"

section \<open>What it reports\<close>

lemma target_path: "c_str targetFile = targetFile" "full_path (Some EXAMPLE_PATH) targetFile = EXAMPLE_PATH @ targetFile"
  by code_simp+

text \<open>
  C28: The program runs the machine on text on the example file, prints the length of what the machine
  has written and ends with status 0: when the machine comes to its end, but also when a directive
  stops it with an error, in whatever file or branch. The code that \<open>process\<close> returns is dropped:
  neither the exit status nor the report tells an aborted run from a complete one.
\<close>

theorem main_drops_errors:
  assumes "fs (EXAMPLE_PATH @ targetFile) = Some bytes" and "length targetFile + 1 + length bytes < 2 ^ 32"
    and "(text_step fs (Some EXAMPLE_PATH))\<^sup>*\<^sup>* (start_text targetFile (normalize bytes)) c"
    and "texts c = [] \<or> text_error fs (Some EXAMPLE_PATH) c k"
  shows "main fill fs ms us = Some (0, report ms us (written c))"
proof -
  let ?P = "init_preprocessor fill fs (Some EXAMPLE_PATH) (Some targetFile) Log_Trace"
  have f: "fs (full_path (Some EXAMPLE_PATH) (c_str targetFile)) = Some bytes" using assms(1) target_path by simp
  have len: "length (c_str targetFile) + 1 + length bytes < 2 ^ 32" using assms(2) target_path(1) by simp
  have s: "shows_text (Some EXAMPLE_PATH) ?P (start_text targetFile (normalize bytes))"
    using start_shows [where fs = fs, OF f len] target_path(1) by simp
  obtain Q where Q: "process fill fs ?P = process fill fs Q" "shows_text (Some EXAMPLE_PATH) Q c"
    using steps_refined [OF assms(3) s] by blast
  have "\<exists>code R. process fill fs Q = Some (code, R) \<and> get_result R = written c"
    using assms(4)
  proof
    assume "texts c = []"
    from run_refined [where fs = fs and fill = fill, OF rtranclp.rtrancl_refl Q(2) this] show ?thesis by auto
  next
    assume "text_error fs (Some EXAMPLE_PATH) c k"
    from error_refined [OF this Q(2)] show ?thesis by blast
  qed
  then show ?thesis using Q(1) by (auto simp: main_def)
qed

definition stopped_source :: string where
  "stopped_source = ''ab #undef ab''"

theorem main_drops_errors_witness:
  "main CHR ''?'' (\<lambda>_. Some stopped_source) (0 :: nat) 7 = Some (0, report 0 7 ''ab '')"
proof -
  let ?c = "start_text targetFile stopped_source"
  let ?d = "?c\<lparr>texts := [CHR ''#'' # ''undef ab''], written := ''ab ''\<rparr>"
  have h: "normalize stopped_source = stopped_source \<and> list_all quiet ''ab '' \<and> list_all IS_IDENT_CHAR ''undef'' \<and>
      word_ends '' ab'' \<and> macro_hash_match ''#undef'' = M_Unknown"
    by code_simp
  have "closed ''ab ''" by (rule closed_quiet) (use h in simp)
  then have "text_step (\<lambda>_. Some stopped_source) (Some EXAMPLE_PATH) ?c ?d"
    using text_step.plain_text [of ?c "''ab ''" "''undef ab''" "[]"]
    by (simp add: start_text_def stopped_source_def expand_empty)
  then have r: "(text_step (\<lambda>_. Some stopped_source) (Some EXAMPLE_PATH))\<^sup>*\<^sup>* ?c ?d" by simp
  have "text_error (\<lambda>_. Some stopped_source) (Some EXAMPLE_PATH) ?d (-404)"
    using h by (intro text_error.unknown [of _ "''undef''" "'' ab''" "[]"]) (auto simp: list_all_iff)
  moreover have "length targetFile + 1 + length stopped_source < 2 ^ 32"
    by (simp add: targetFile_def stopped_source_def)
  ultimately show ?thesis
    using main_drops_errors [of "\<lambda>_. Some stopped_source" stopped_source ?d "-404" "CHR ''?''" "0 :: nat" 7] r h by simp
qed

end
