(* ===== verification/Type_Flags.thy ===== *)
theory Type_Flags
  imports Prelude
begin

text \<open>
  \<open>typer/typeflags.h\<close>: the codes of the type flags, the table of their names and payload
  widths, the number of words a flag takes and \<open>getData\<close>, which reads the payload of a flag
  out of an array of words. The results: the table is complete and its entries fit one or two
  words; \<open>getData\<close> returns the payload that was laid out, and where the assertion of the
  two-word branch does not protect the read.
\<close>

section \<open>Flag codes and the table\<close>

text \<open>\<open>TypeFlagCode::count\<close> is called \<open>tf_count\<close>.\<close>

datatype TypeFlagCode =
    stop | sent | exec_time
  | mem_alloc | mem_space | mem_alloc_cap | mem_alloc_size | mem_space_cap | mem_space_size
  | mem_page_align | mem_page_fill | mem_access_in | mem_access_out | mem_copiable | mem_movable
  | mem_revivable
  | has_methods_c | has_methods_r | has_methods_st | has_methods_stc
  | has_members_c | has_members_r | has_members_st | has_members_stc
  | tf_count

text \<open>\<open>static_cast<uint16_t>\<close> of a code: its position in the declaration.\<close>

definition all_flag_codes :: "TypeFlagCode list" where
  "all_flag_codes =
    [stop, sent, exec_time, mem_alloc, mem_space, mem_alloc_cap, mem_alloc_size, mem_space_cap,
     mem_space_size, mem_page_align, mem_page_fill, mem_access_in, mem_access_out, mem_copiable,
     mem_movable, mem_revivable, has_methods_c, has_methods_r, has_methods_st, has_methods_stc,
     has_members_c, has_members_r, has_members_st, has_members_stc, tf_count]"

primrec tf_code :: "TypeFlagCode \<Rightarrow> nat" where
  "tf_code stop = 0"
| "tf_code sent = 1"
| "tf_code exec_time = 2"
| "tf_code mem_alloc = 3"
| "tf_code mem_space = 4"
| "tf_code mem_alloc_cap = 5"
| "tf_code mem_alloc_size = 6"
| "tf_code mem_space_cap = 7"
| "tf_code mem_space_size = 8"
| "tf_code mem_page_align = 9"
| "tf_code mem_page_fill = 10"
| "tf_code mem_access_in = 11"
| "tf_code mem_access_out = 12"
| "tf_code mem_copiable = 13"
| "tf_code mem_movable = 14"
| "tf_code mem_revivable = 15"
| "tf_code has_methods_c = 16"
| "tf_code has_methods_r = 17"
| "tf_code has_methods_st = 18"
| "tf_code has_methods_stc = 19"
| "tf_code has_members_c = 20"
| "tf_code has_members_r = 21"
| "tf_code has_members_st = 22"
| "tf_code has_members_stc = 23"
| "tf_code tf_count = 24"

lemma all_flag_codes_index: "all_flag_codes ! tf_code c = c"
  by (cases c) (simp_all add: all_flag_codes_def)

record TypeFlagInfo =
  tf_name :: string
  info_code :: TypeFlagCode
  bitLen :: u8

definition empty_flag_info :: TypeFlagInfo where
  "empty_flag_info = \<lparr>tf_name = '''', info_code = sent, bitLen = 0\<rparr>"

text \<open>The macro \<open>el\<close> assigns one entry of the zero-initialised array.\<close>

definition el :: "TypeFlagCode \<Rightarrow> string \<Rightarrow> u8 \<Rightarrow> TypeFlagInfo list \<Rightarrow> TypeFlagInfo list" where
  "el c n b ret = ret[tf_code c := \<lparr>tf_name = n, info_code = c, bitLen = b\<rparr>]"

definition TYPE_FLAG_INFO :: "TypeFlagInfo list" where
  "TYPE_FLAG_INFO =
    (let ret = replicate (tf_code tf_count) empty_flag_info;
         ret = el stop ''stop'' 0 ret;
         ret = el sent ''sent'' 0 ret;
         ret = el exec_time ''exec_time'' 2 ret;
         ret = el mem_alloc ''mem_alloc'' 1 ret;
         ret = el mem_space ''mem_space'' 2 ret;
         ret = el mem_alloc_cap ''mem_alloc_cap'' 48 ret;
         ret = el mem_alloc_size ''mem_alloc_size'' 48 ret;
         ret = el mem_space_cap ''mem_space_cap'' 48 ret;
         ret = el mem_space_size ''mem_space_size'' 48 ret;
         ret = el mem_page_align ''mem_page_align'' 2 ret;
         ret = el mem_page_fill ''mem_page_fill'' 2 ret;
         ret = el mem_access_in ''mem_access_in'' 4 ret;
         ret = el mem_access_out ''mem_access_out'' 4 ret;
         ret = el mem_copiable ''mem_copiable'' 1 ret;
         ret = el mem_movable ''mem_movable'' 1 ret;
         ret = el mem_revivable ''mem_revivable'' 1 ret;
         ret = el has_methods_c ''has_methods_c'' 1 ret;
         ret = el has_methods_r ''has_methods_r'' 1 ret;
         ret = el has_methods_st ''has_methods_st'' 1 ret;
         ret = el has_methods_stc ''has_methods_stc'' 1 ret;
         ret = el has_members_c ''has_members_c'' 1 ret;
         ret = el has_members_r ''has_members_r'' 1 ret;
         ret = el has_members_st ''has_members_st'' 1 ret;
         ret = el has_members_stc ''has_members_stc'' 1 ret
     in ret)"

lemma length_TYPE_FLAG_INFO: "length TYPE_FLAG_INFO = tf_code tf_count"
  by (simp add: TYPE_FLAG_INFO_def Let_def el_def)

text \<open>The condition of the \<open>static_assert\<close>: no entry is left without a name.\<close>

definition flag_table_complete :: bool where
  "flag_table_complete = list_all (\<lambda>i. tf_name i \<noteq> '''') TYPE_FLAG_INFO"

lemma TYPE_FLAG_INFO_eq:
  "TYPE_FLAG_INFO = map (\<lambda>(c, n, b). \<lparr>tf_name = n, info_code = c, bitLen = b\<rparr>)
    [(stop, ''stop'', 0), (sent, ''sent'', 0), (exec_time, ''exec_time'', 2),
     (mem_alloc, ''mem_alloc'', 1), (mem_space, ''mem_space'', 2),
     (mem_alloc_cap, ''mem_alloc_cap'', 48), (mem_alloc_size, ''mem_alloc_size'', 48),
     (mem_space_cap, ''mem_space_cap'', 48), (mem_space_size, ''mem_space_size'', 48),
     (mem_page_align, ''mem_page_align'', 2), (mem_page_fill, ''mem_page_fill'', 2),
     (mem_access_in, ''mem_access_in'', 4), (mem_access_out, ''mem_access_out'', 4),
     (mem_copiable, ''mem_copiable'', 1), (mem_movable, ''mem_movable'', 1),
     (mem_revivable, ''mem_revivable'', 1),
     (has_methods_c, ''has_methods_c'', 1), (has_methods_r, ''has_methods_r'', 1),
     (has_methods_st, ''has_methods_st'', 1), (has_methods_stc, ''has_methods_stc'', 1),
     (has_members_c, ''has_members_c'', 1), (has_members_r, ''has_members_r'', 1),
     (has_members_st, ''has_members_st'', 1), (has_members_stc, ''has_members_stc'', 1)]"
  by (simp add: TYPE_FLAG_INFO_def Let_def el_def numeral_eq_Suc)

text \<open>\<open>TypeFlagDeclImpl<code>::info\<close> for the codes that have an entry.\<close>

definition flag_info :: "TypeFlagCode \<Rightarrow> TypeFlagInfo" where
  "flag_info c = TYPE_FLAG_INFO ! tf_code c"

lemma flag_info_code: "c \<noteq> tf_count \<Longrightarrow> info_code (flag_info c) = c"
  by (cases c) (simp_all add: flag_info_def TYPE_FLAG_INFO_eq)

lemma flag_table_complete_holds: "flag_table_complete"
  by (simp add: flag_table_complete_def TYPE_FLAG_INFO_eq)

section \<open>Reading a payload\<close>

definition flagBitLen :: "TypeFlagCode \<Rightarrow> u16" where
  "flagBitLen c = ucast (bitLen (flag_info c))"

text \<open>
  The number of words of a flag with its 16-bit code. The sum is computed in \<open>int\<close> (the
  operands are promoted), so it does not wrap at 16 bits.
\<close>

definition word_len :: "u16 \<Rightarrow> u16" where
  "word_len b = of_nat ((unat b + 16 + 31) div 32)"

definition wordLen :: "TypeFlagCode \<Rightarrow> u16" where
  "wordLen c = word_len (flagBitLen c)"

text \<open>
  The three return types of \<open>getData\<close>. A read is one of: a payload, a failed assertion
  (\<open>DBAssert\<close> is \<open>assert\<close> in the debug configuration the repository builds), or an access past
  the end of the span.
\<close>

datatype flag_payload = Small u16 | Large u64 | Owned "u32 list"

datatype flag_read = Payload flag_payload | Assertion_failed | Past_end

definition span_at :: "u32 list \<Rightarrow> u32 \<Rightarrow> u32 option" where
  "span_at buffer i = (if unat i < length buffer then Some (buffer ! unat i) else None)"

definition getData_len :: "u16 \<Rightarrow> u32 list \<Rightarrow> u32 \<Rightarrow> flag_read" where
  "getData_len b buffer index =
    (if b \<le> 16 then
       (case span_at buffer index of
          None \<Rightarrow> Past_end
        | Some w \<Rightarrow> Payload (Small (ucast (w AND 0xFFFF))))
     else if b \<le> 48 then
       (if \<not> length buffer > 1 then Assertion_failed
        else (case (span_at buffer index, span_at buffer (index + 1)) of
          (Some hi, Some lo) \<Rightarrow>
             Payload (Large (push_bit 32 (ucast (hi AND 0xFFFF)) OR ucast lo))
        | _ \<Rightarrow> Past_end))
     else
       (let n = word_len b in
        if \<not> unat (ucast n + index :: u32) \<le> length buffer then Assertion_failed
        else if unat n + unat index > length buffer then Past_end
        else Payload (Owned (take (unat n) (drop (unat index) buffer)))))"

definition getData :: "TypeFlagCode \<Rightarrow> u32 list \<Rightarrow> u32 \<Rightarrow> flag_read" where
  "getData c buffer index = getData_len (flagBitLen c) buffer index"

section \<open>The layout of a flag\<close>

text \<open>
  The words \<open>getData\<close> reads back: the code in the upper half of the first word and the payload
  in its lower half, 48-bit payloads with their low 32 bits in a second word.
\<close>

definition flag_words :: "TypeFlagCode \<Rightarrow> u64 \<Rightarrow> u32 list" where
  "flag_words c v =
    (if flagBitLen c \<le> 16 then [push_bit 16 (of_nat (tf_code c)) OR (ucast v AND 0xFFFF)]
     else [push_bit 16 (of_nat (tf_code c)) OR ucast (drop_bit 32 v AND 0xFFFF), ucast v])"

definition flag_value :: "TypeFlagCode \<Rightarrow> u64 \<Rightarrow> flag_payload" where
  "flag_value c v = (if flagBitLen c \<le> 16 then Small (ucast v) else Large v)"

lemma bitLen_cases:
  assumes "c \<noteq> tf_count"
  shows "flagBitLen c \<le> 16 \<or> flagBitLen c = 48"
  using assms by (cases c) (simp_all add: flagBitLen_def flag_info_def TYPE_FLAG_INFO_eq)

lemma wordLen_cases:
  assumes "c \<noteq> tf_count"
  shows "wordLen c = (if flagBitLen c \<le> 16 then 1 else 2)"
  using assms
  by (cases c) (simp_all add: wordLen_def word_len_def flagBitLen_def flag_info_def TYPE_FLAG_INFO_eq)

lemma mask16: "w AND 0xFFFF = take_bit 16 (w :: 'a::len word)"
  by (simp add: take_bit_eq_mask mask_eq_exp_minus_1)

lemma low_half:
  "ucast ((push_bit 16 k OR (ucast v AND 0xFFFF)) AND 0xFFFF :: u32) = (ucast (v :: u64) :: u16)"
  unfolding mask16 by (rule bit_word_eqI) (auto simp: bit_simps)

lemma unat_lt_not_bit:
  fixes v :: "'a::len word"
  assumes "unat v < 2 ^ m" and "m \<le> n"
  shows "\<not> bit v n"
proof
  assume "bit v n"
  then have "bit (take_bit m (unat v)) n"
    using assms(1) by (simp add: take_bit_nat_eq_self bit_unsigned_iff bit_imp_le_length)
  with assms(2) show False by (simp add: bit_take_bit_iff)
qed

lemma two_words:
  assumes "unat v < 2 ^ 48"
  shows "push_bit 32 (ucast ((push_bit 16 k OR ucast (drop_bit 32 v AND 0xFFFF) :: u32) AND 0xFFFF))
    OR ucast (ucast v :: u32) = (v :: u64)"
  unfolding mask16
proof (rule bit_word_eqI)
  fix n
  assume "n < LENGTH(64)"
  have "\<not> bit v n" if "48 \<le> n" using unat_lt_not_bit [OF assms that] .
  with \<open>n < LENGTH(64)\<close>
  show "bit (push_bit 32 (ucast (take_bit 16 (push_bit 16 k OR ucast (take_bit 16 (drop_bit 32 v)) :: u32)))
      OR ucast (ucast v :: u32) :: u64) n = bit v n"
    by (cases "n < 32"; cases "n < 48") (auto simp: bit_simps)
qed

lemma span_at_append:
  "length pre + k < 2 ^ 32 \<Longrightarrow> k < length ws \<Longrightarrow>
    span_at (pre @ ws @ post) (of_nat (length pre) + of_nat k) = Some (ws ! k)"
  by (simp add: span_at_def unat_of_nat take_bit_nat_eq_self nth_append flip: of_nat_add)

lemma span_at_append0:
  "length pre < 2 ^ 32 \<Longrightarrow> span_at (pre @ w # post) (of_nat (length pre)) = Some w"
  using span_at_append [of pre 0 "[w]" post] by simp

lemma span_at_append1:
  "length pre + 1 < 2 ^ 32 \<Longrightarrow> span_at (pre @ w # w' # post) (of_nat (length pre) + 1) = Some w'"
  using span_at_append [of pre 1 "[w, w']" post] by simp

text \<open>C39: A flag laid out at any position of an array of words (code in the upper half of the
first word, payload in the lower half, the low 32 bits of a 48-bit payload in a second word)
takes \<open>wordLen\<close> words and is read back by \<open>getData\<close>: the lower 16 bits of the payload for the
flags of at most 16 bits, the whole payload for the 48-bit flags, whose assertion holds.\<close>

theorem getData_flag_words:
  assumes "c \<noteq> tf_count" and "length pre + 1 < 2 ^ 32" and "unat v < 2 ^ 48"
  shows "length (flag_words c v) = unat (wordLen c) \<and>
    getData c (pre @ flag_words c v @ post) (of_nat (length pre)) = Payload (flag_value c v)"
proof (cases "flagBitLen c \<le> 16")
  case True
  then show ?thesis
    using assms(2) wordLen_cases [OF assms(1)]
    by (simp add: flag_words_def flag_value_def getData_def getData_len_def span_at_append0 low_half)
next
  case False
  with bitLen_cases [OF assms(1)] have "flagBitLen c = 48" by simp
  then show ?thesis
    using assms(2) wordLen_cases [OF assms(1)]
    by (simp add: flag_words_def flag_value_def getData_def getData_len_def span_at_append0
        span_at_append1 two_words [OF assms(3)])
qed

theorem getData_flag_words_witness:
  "getData mem_space_cap ([7] @ flag_words mem_space_cap 0x123456789ABC @ []) 1
    = Payload (flag_value mem_space_cap 0x123456789ABC)"
  using getData_flag_words [of mem_space_cap "[7]" "0x123456789ABC" "[]"] by simp

text \<open>
  The assertion of the two-word branch compares the size of the whole array with 1, not with
  the position: a 48-bit flag whose second word is missing at the end of an array of at least
  two words passes it and reads past the end.
\<close>

lemma getData_assertion_gap:
  assumes "flagBitLen c = 48" and "pre \<noteq> []" and "length pre + 1 < 2 ^ 32"
  shows "getData c (pre @ [w]) (of_nat (length pre)) = Past_end"
proof -
  have n: "unat (of_nat (length pre) + 1 :: u32) = length pre + 1"
    using unat_of_nat_lt [of "length pre + 1", where 'a = 32, unfolded of_nat_add of_nat_1]
    assms(3) by (auto simp del: of_nat_add of_nat_Suc)
  have end_of: "span_at (pre @ [w]) (of_nat (length pre) + 1) = None"
    unfolding span_at_def n by simp
  have "length (pre @ [w]) > 1" using assms(2) by (cases pre) simp_all
  with end_of assms(1,3) show ?thesis
    by (simp add: getData_def getData_len_def span_at_append0)
qed

text \<open>No flag of the table reaches the third branch of \<open>getData\<close>.\<close>

lemma getData_len_not_owned:
  "b \<le> 48 \<Longrightarrow> getData_len b buffer index \<noteq> Payload (Owned ws)"
  unfolding getData_len_def by (simp split: option.split)

lemma getData_never_owned:
  assumes "c \<noteq> tf_count"
  shows "getData c buffer index \<noteq> Payload (Owned ws)"
proof -
  have "flagBitLen c \<le> 48"
    using bitLen_cases [OF assms] by (elim disjE) (auto intro: order_trans)
  then show ?thesis unfolding getData_def by (rule getData_len_not_owned)
qed

end
