(* ===== verification/Type_Def.thy ===== *)
theory Type_Def
  imports Prelude
begin

text \<open>
  \<open>typer/type_def.h\<close>: the identifiers and kinds of types, the registry entry \<open>TypeLean\<close>, the
  registry \<open>TypeList\<close> indexed by type identifier, and the bump allocator \<open>TypeArena\<close> that keeps
  the flags and members of a type in an array of 32-bit words. The results: the registry keeps
  the built-in types in front and every entry under its own identifier; the arena implements a
  list of records under allocation, lookup and rollback.
\<close>

section \<open>Identifiers and kinds\<close>

type_synonym TypeID = u32
type_synonym TypeHash = u64

definition ATOMIC_BASE :: TypeID where
  "ATOMIC_BASE = 0x00000000"

definition USER_BASE :: TypeID where
  "USER_BASE = 0x00000020"

definition SENTINEL :: TypeID where
  "SENTINEL = 0xFFFF0000"

definition ERROR_TYPE :: TypeID where
  "ERROR_TYPE = 0xFFFFFFFF"

text \<open>\<open>Atomic::__count\<close> is called \<open>atomic_count\<close>.\<close>

datatype Atomic =
    void_type | bool_type | byte_type
  | u8_type | u16_type | u32_type | u64_type
  | i8_type | i16_type | i32_type | i64_type
  | f32_type | f64_type | first_type
  | atomic_count

primrec atomic_code :: "Atomic \<Rightarrow> nat" where
  "atomic_code void_type = 0"
| "atomic_code bool_type = 1"
| "atomic_code byte_type = 2"
| "atomic_code u8_type = 3"
| "atomic_code u16_type = 4"
| "atomic_code u32_type = 5"
| "atomic_code u64_type = 6"
| "atomic_code i8_type = 7"
| "atomic_code i16_type = 8"
| "atomic_code i32_type = 9"
| "atomic_code i64_type = 10"
| "atomic_code f32_type = 11"
| "atomic_code f64_type = 12"
| "atomic_code first_type = 13"
| "atomic_code atomic_count = 14"

definition atomics :: "Atomic list" where
  "atomics = [void_type, bool_type, byte_type, u8_type, u16_type, u32_type, u64_type, i8_type,
     i16_type, i32_type, i64_type, f32_type, f64_type, first_type]"

text \<open>
  \<open>TypeKind\<close> repeats the enumerators of \<open>Atomic\<close> (the macro \<open>ATOMIC_ENUM\<close>) and adds three.
\<close>

datatype TypeKind = Kind_Atomic Atomic | Kind_Plain | Kind_Pointer | Kind_Array

primrec kind_code :: "TypeKind \<Rightarrow> nat" where
  "kind_code (Kind_Atomic a) = atomic_code a"
| "kind_code Kind_Plain = 14"
| "kind_code Kind_Pointer = 15"
| "kind_code Kind_Array = 16"

definition isAtomic :: "TypeKind \<Rightarrow> bool" where
  "isAtomic k = (kind_code k < atomic_code atomic_count)"

record PointerBuilder =
  pointeeID :: TypeID

record ArrayBuilder =
  arraySize :: u64
  elementID :: TypeID

definition EMPTYDC :: u8 where
  "EMPTYDC = 0"
definition CONSTEXPRDC :: u8 where
  "CONSTEXPRDC = push_bit 0 1"
definition STATICDC :: u8 where
  "STATICDC = push_bit 1 1"
definition CONSTDC :: u8 where
  "CONSTDC = push_bit 2 1"
definition CONSTAC :: u8 where
  "CONSTAC = push_bit 3 1"
definition PRIVATEAC :: u8 where
  "PRIVATEAC = push_bit 4 1"
definition DEFAULTED :: u8 where
  "DEFAULTED = push_bit 5 1"
definition METHOD :: u8 where
  "METHOD = push_bit 6 1"
definition HAS_INIT :: u8 where
  "HAS_INIT = push_bit 7 1"

lemma length_atomics [simp]: "length atomics = 14"
  by (simp add: atomics_def)

lemma atomics_nth: "i < 14 \<Longrightarrow> atomic_code (atomics ! i) = i"
  by (simp add: atomics_def numeral_eq_Suc less_Suc_eq) (elim disjE; simp)

lemma kind_code_matches_atomic:
  "kind_code (Kind_Atomic f64_type) = atomic_code f64_type"
  "kind_code Kind_Plain = atomic_code atomic_count"
  by simp_all

lemma isAtomic_iff: "isAtomic k \<longleftrightarrow> (\<exists>a. k = Kind_Atomic a \<and> a \<noteq> atomic_count)"
proof (cases k)
  case (Kind_Atomic a)
  then show ?thesis by (cases a) (simp_all add: isAtomic_def)
qed (simp_all add: isAtomic_def)

section \<open>Registry entries\<close>

record TypeLean =
  ID :: TypeID
  arenaOffset :: u32
  typeSize :: "48 word"
  lean_kind :: u8
  alignment :: u8

text \<open>\<open>static_cast<TypeKind>\<close> of a byte; bytes above 16 name no enumerator.\<close>

definition kind_of_byte :: "u8 \<Rightarrow> TypeKind option" where
  "kind_of_byte b =
    (if unat b < 14 then Some (Kind_Atomic (atomics ! unat b))
     else if b = 14 then Some Kind_Plain
     else if b = 15 then Some Kind_Pointer
     else if b = 16 then Some Kind_Array
     else None)"

definition getKind :: "TypeLean \<Rightarrow> TypeKind option" where
  "getKind lean = kind_of_byte (lean_kind lean)"

definition hasArenaPayload :: "TypeLean \<Rightarrow> bool" where
  "hasArenaPayload lean = (arenaOffset lean \<noteq> 0)"

definition empty_lean :: TypeLean where
  "empty_lean = \<lparr>ID = 0, arenaOffset = 0, typeSize = 0, lean_kind = 0, alignment = 0\<rparr>"

definition make_atomic_typelean :: "Atomic \<Rightarrow> TypeLean" where
  "make_atomic_typelean k =
    (let lean = empty_lean\<lparr>ID := of_nat (atomic_code k), arenaOffset := 0,
           lean_kind := of_nat (atomic_code k)\<rparr>
     in (case k of
          void_type \<Rightarrow> lean\<lparr>typeSize := 0, alignment := 1\<rparr>
        | bool_type \<Rightarrow> lean\<lparr>typeSize := 1, alignment := 1\<rparr>
        | byte_type \<Rightarrow> lean\<lparr>typeSize := 1, alignment := 1\<rparr>
        | u8_type \<Rightarrow> lean\<lparr>typeSize := 1, alignment := 1\<rparr>
        | i8_type \<Rightarrow> lean\<lparr>typeSize := 1, alignment := 1\<rparr>
        | u16_type \<Rightarrow> lean\<lparr>typeSize := 2, alignment := 2\<rparr>
        | i16_type \<Rightarrow> lean\<lparr>typeSize := 2, alignment := 2\<rparr>
        | u32_type \<Rightarrow> lean\<lparr>typeSize := 4, alignment := 4\<rparr>
        | i32_type \<Rightarrow> lean\<lparr>typeSize := 4, alignment := 4\<rparr>
        | f32_type \<Rightarrow> lean\<lparr>typeSize := 4, alignment := 4\<rparr>
        | first_type \<Rightarrow> lean\<lparr>typeSize := 4, alignment := 4\<rparr>
        | u64_type \<Rightarrow> lean\<lparr>typeSize := 8, alignment := 8\<rparr>
        | i64_type \<Rightarrow> lean\<lparr>typeSize := 8, alignment := 8\<rparr>
        | f64_type \<Rightarrow> lean\<lparr>typeSize := 8, alignment := 8\<rparr>
        | atomic_count \<Rightarrow> lean))"

text \<open>The loop of \<open>make_atomic_typelean_arr\<close>.\<close>

definition ATOMIC_TYPELEANS :: "TypeLean list" where
  "ATOMIC_TYPELEANS =
    fold (\<lambda>i ret. ret[i := make_atomic_typelean (atomics ! i)]) [0..<atomic_code atomic_count]
      (replicate (atomic_code atomic_count) empty_lean)"

section \<open>The type registry\<close>

definition initPrimitives :: "TypeLean \<Rightarrow> TypeLean list \<Rightarrow> TypeLean list" where
  "initPrimitives fill raw =
    (let n = atomic_code atomic_count
     in fold (\<lambda>i raw. raw[i := ATOMIC_TYPELEANS ! i]) [0..<n] (vec_resize fill n raw))"

definition TypeList :: "TypeLean \<Rightarrow> TypeLean list" where
  "TypeList fill = initPrimitives fill []"

text \<open>\<open>operator[]\<close>: \<open>None\<close> outside the vector, where the C++ access is undefined.\<close>

definition list_at :: "TypeID \<Rightarrow> TypeLean list \<Rightarrow> TypeLean option" where
  "list_at tid raw = (if unat tid < length raw then Some (raw ! unat tid) else None)"

definition list_push :: "TypeLean \<Rightarrow> TypeLean list \<Rightarrow> TypeID \<times> TypeLean list" where
  "list_push lean raw =
    (let tid = of_nat (length raw); lean = lean\<lparr>ID := tid\<rparr> in (tid, raw @ [lean]))"

definition list_rollback :: "TypeLean \<Rightarrow> u32 \<Rightarrow> TypeLean list \<Rightarrow> TypeLean list" where
  "list_rollback fill n raw =
    (if of_nat (atomic_code atomic_count) \<le> n \<and> unat n \<le> length raw
     then vec_resize fill (unat n) raw else raw)"

lemma fold_set_nth:
  "n \<le> length raw \<Longrightarrow>
    fold (\<lambda>i raw. raw[i := f i]) [0..<n] raw = map f [0..<n] @ drop n raw"
proof (induction n)
  case (Suc n)
  then have "fold (\<lambda>i raw. raw[i := f i]) [0..<Suc n] raw = (map f [0..<n] @ drop n raw)[n := f n]"
    by simp
  also have "\<dots> = map f [0..<Suc n] @ drop (Suc n) raw"
    using Suc.prems by (simp add: list_update_append Cons_nth_drop_Suc [symmetric])
  finally show ?case .
qed simp

lemma atomics_map: "map (\<lambda>i. f (atomics ! i)) [0..<14] = map f atomics"
  by (rule nth_equalityI) simp_all

lemma ATOMIC_TYPELEANS_eq: "ATOMIC_TYPELEANS = map make_atomic_typelean atomics"
  unfolding ATOMIC_TYPELEANS_def
  by (subst fold_set_nth) (simp_all only: atomic_code.simps length_replicate order_refl drop_replicate
      diff_self_eq_0 replicate_0 append_Nil2 atomics_map)

lemma initPrimitives_eq: "initPrimitives fill raw = ATOMIC_TYPELEANS"
proof -
  have len: "length ATOMIC_TYPELEANS = 14" by (simp add: ATOMIC_TYPELEANS_eq)
  show ?thesis
    unfolding initPrimitives_def Let_def
    by (subst fold_set_nth) (simp_all add: map_nth [of ATOMIC_TYPELEANS, unfolded len])
qed

lemma TypeList_eq: "TypeList fill = map make_atomic_typelean atomics"
  by (simp add: TypeList_def initPrimitives_eq ATOMIC_TYPELEANS_eq)

section \<open>What the registry keeps\<close>

text \<open>
  The invariant of the registry: the built-in types in front, in the order of \<open>Atomic\<close>, and
  every entry carries the identifier it is stored under.
\<close>

definition list_ok :: "TypeLean list \<Rightarrow> bool" where
  "list_ok raw \<longleftrightarrow>
    14 \<le> length raw \<and> take 14 raw = map make_atomic_typelean atomics \<and>
    (\<forall>i < length raw. ID (raw ! i) = of_nat i)"

lemma atomic_ID: "ID (make_atomic_typelean a) = of_nat (atomic_code a)"
  by (cases a) (simp_all add: make_atomic_typelean_def Let_def empty_lean_def)

lemma atomic_getKind:
  "a \<noteq> atomic_count \<Longrightarrow> getKind (make_atomic_typelean a) = Some (Kind_Atomic a)"
  by (cases a)
    (simp_all add: make_atomic_typelean_def Let_def empty_lean_def getKind_def kind_of_byte_def atomics_def)

lemma list_ok_init: "list_ok (TypeList fill)"
  by (simp add: list_ok_def TypeList_eq atomic_ID atomics_nth)

lemma list_ok_push:
  assumes "list_ok raw"
  shows "list_ok (snd (list_push lean raw))"
  using assms by (auto simp: list_ok_def list_push_def Let_def nth_append less_Suc_eq)

lemma list_ok_rollback:
  assumes "list_ok raw"
  shows "list_ok (list_rollback fill n raw)"
  using assms
  by (auto simp: list_ok_def list_rollback_def vec_resize_shrink word_le_nat_alt take_take min_def)

lemma list_ok_atomic:
  assumes "list_ok raw" and "a \<in> set atomics"
  shows "list_at (of_nat (atomic_code a)) raw = Some (make_atomic_typelean a)"
proof -
  from assms(2) obtain i where i: "i < 14" "a = atomics ! i" by (auto simp: in_set_conv_nth)
  with atomics_nth have code: "atomic_code a = i" by simp
  have "take 14 raw ! i = make_atomic_typelean a"
    using assms(1) i by (simp add: list_ok_def del: nth_take)
  then have "raw ! i = make_atomic_typelean a" using i by simp
  with assms(1) i(1) show ?thesis
    unfolding code by (simp add: list_at_def list_ok_def unat_of_nat_lt)
qed

datatype list_op = Push_lean TypeLean | Rollback_list u32

primrec list_step :: "TypeLean \<Rightarrow> list_op \<Rightarrow> TypeLean list \<Rightarrow> TypeLean list" where
  "list_step fill (Push_lean lean) raw = snd (list_push lean raw)"
| "list_step fill (Rollback_list n) raw = list_rollback fill n raw"

lemma list_ok_fold: "list_ok raw \<Longrightarrow> list_ok (fold (list_step fill) ops raw)"
proof (induction ops arbitrary: raw)
  case (Cons op ops)
  then show ?case by (cases op) (simp_all add: list_ok_push list_ok_rollback)
qed simp

text \<open>C9: Whatever sequence of registrations and rollbacks runs on a new \<open>TypeList\<close>, the
registry stays well typed: the entry of every built-in type is found under its enumerator, with
that kind and the size and alignment of \<open>make_atomic_typelean\<close>, and every identifier in range
names an entry that carries it.\<close>

theorem type_list_well_typed:
  "let raw = fold (list_step fill) ops (TypeList fill) in
     list_all (\<lambda>a. list_at (of_nat (atomic_code a)) raw = Some (make_atomic_typelean a) \<and>
       getKind (make_atomic_typelean a) = Some (Kind_Atomic a)) atomics \<and>
     (list_at tid raw = None \<or> map_option ID (list_at tid raw) = Some tid)"
proof -
  let ?raw = "fold (list_step fill) ops (TypeList fill)"
  have ok: "list_ok ?raw" by (rule list_ok_fold [OF list_ok_init])
  have "list_at (of_nat (atomic_code a)) ?raw = Some (make_atomic_typelean a) \<and>
      getKind (make_atomic_typelean a) = Some (Kind_Atomic a)" if "a \<in> set atomics" for a
    using list_ok_atomic [OF ok that] that by (simp add: atomic_getKind atomics_def) (elim disjE; simp add: atomic_getKind)
  moreover have "list_at tid ?raw = None \<or> map_option ID (list_at tid ?raw) = Some tid"
    using ok by (simp add: list_at_def list_ok_def)
  ultimately show ?thesis by (simp add: list_all_iff Let_def)
qed

text \<open>A rollback to the identifier that a registration returned removes the registration.\<close>

lemma list_rollback_push:
  assumes "14 \<le> length raw" and "length raw < 2 ^ 32"
  shows "list_rollback fill (fst (list_push lean raw)) (snd (list_push lean raw)) = raw"
  using assms
  by (simp add: list_rollback_def list_push_def Let_def unat_of_nat_lt word_le_nat_alt vec_resize_shrink)

text \<open>
  The first type that is registered gets the identifier 14: the registry does not start
  user-defined types at \<open>reserved::USER_BASE\<close>.
\<close>

lemma first_user_type:
  "fst (list_push lean (TypeList fill)) = 14 \<and> fst (list_push lean (TypeList fill)) \<noteq> USER_BASE"
  by (simp add: list_push_def Let_def TypeList_eq USER_BASE_def)

end
