(* ===== verification/Type_Arena.thy ===== *)
theory Type_Arena
  imports Type_Def
begin

text \<open>
  \<open>typer/type_def.h\<close>: \<open>TypeMember\<close>, the record header \<open>TypeContent\<close> and the bump allocator
  \<open>TypeArena\<close>. A pointer to a \<open>TypeContent\<close> is the part of the arena that starts at its word;
  the 12 bytes of a \<open>TypeMember\<close> are three little-endian words. The result: the arena
  implements a list of records (identifier, flags, members) under allocation, lookup and
  rollback.
\<close>

section \<open>Members\<close>

record TypeMember =
  member_type :: TypeID
  memberID :: u16
  decoration :: u8
  pad :: u8
  initVal :: u32

text \<open>The object representation that \<open>memcpy\<close> copies.\<close>

definition member_words :: "TypeMember \<Rightarrow> u32 list" where
  "member_words m =
    [member_type m,
     ucast (memberID m) OR push_bit 16 (ucast (decoration m)) OR push_bit 24 (ucast (pad m)),
     initVal m]"

definition member_of_words :: "u32 \<Rightarrow> u32 \<Rightarrow> u32 \<Rightarrow> TypeMember" where
  "member_of_words a b c =
    \<lparr>member_type = a, memberID = ucast b, decoration = ucast (drop_bit 16 b),
     pad = ucast (drop_bit 24 b), initVal = c\<rparr>"

lemma length_member_words [simp]: "length (member_words m) = 3"
  by (simp add: member_words_def)

lemma member_pack:
  fixes i :: u16 and d p :: u8
  defines "w \<equiv> ucast i OR push_bit 16 (ucast d) OR push_bit 24 (ucast p) :: u32"
  shows "ucast w = i" and "ucast (drop_bit 16 w) = d" and "ucast (drop_bit 24 w) = p"
proof -
  show "ucast w = i" unfolding w_def by (rule bit_word_eqI) (auto simp: bit_simps)
  show "ucast (drop_bit 16 w) = d" unfolding w_def
    by (rule bit_word_eqI) (auto simp: bit_simps dest: bit_imp_le_length)
  show "ucast (drop_bit 24 w) = p" unfolding w_def
    by (rule bit_word_eqI) (auto simp: bit_simps dest: bit_imp_le_length)
qed

lemma member_of_member_words:
  "member_words m = [a, b, c] \<Longrightarrow> member_of_words a b c = m"
  using member_pack [of "memberID m" "decoration m" "pad m"]
  by (auto simp: member_words_def member_of_words_def)

section \<open>Records in memory\<close>

record TypeContent =
  content_ID :: TypeID
  totalWords :: u32
  membersWord :: u32

definition HEADER_WORDS :: u32 where
  "HEADER_WORDS = 3"

definition MEMBER_STRIDE_WORDS :: u32 where
  "MEMBER_STRIDE_WORDS = 12 div 4"

text \<open>The header at the start of the memory \<open>this\<close> points to.\<close>

definition content_at :: "u32 list \<Rightarrow> TypeContent option" where
  "content_at this =
    (case this of
       a # b # c # _ \<Rightarrow> Some \<lparr>content_ID = a, totalWords = b, membersWord = c\<rparr>
     | _ \<Rightarrow> None)"

definition getFlagCount :: "TypeContent \<Rightarrow> u32" where
  "getFlagCount h = (if membersWord h > HEADER_WORDS then membersWord h - HEADER_WORDS else 0)"

definition getFlags :: "u32 list \<Rightarrow> u32 list option" where
  "getFlags this =
    map_option (\<lambda>h. take (unat (getFlagCount h)) (drop (unat HEADER_WORDS) this)) (content_at this)"

definition getMemberCount :: "TypeContent \<Rightarrow> u32" where
  "getMemberCount h =
    (if totalWords h > membersWord h then (totalWords h - membersWord h) div MEMBER_STRIDE_WORDS
     else 0)"

text \<open>\<open>None\<close> when the three words are not all inside the arena.\<close>

definition member_at :: "u32 list \<Rightarrow> nat \<Rightarrow> TypeMember option" where
  "member_at mem i =
    (case drop (3 * i) mem of
       a # b # c # _ \<Rightarrow> Some (member_of_words a b c)
     | _ \<Rightarrow> None)"

definition getMembers :: "u32 list \<Rightarrow> TypeMember list option" where
  "getMembers this =
    Option.bind (content_at this) (\<lambda>h.
      those (map (member_at (drop (unat (membersWord h)) this)) [0..<unat (getMemberCount h)]))"

definition getMember :: "u32 list \<Rightarrow> u32 \<Rightarrow> TypeMember option" where
  "getMember this index =
    Option.bind (content_at this) (\<lambda>h. member_at (drop (unat (membersWord h)) this) (unat index))"

section \<open>The arena\<close>

definition TypeArena :: "u32 list" where
  "TypeArena = [] @ [0]"

definition arena_get :: "u32 \<Rightarrow> u32 list \<Rightarrow> u32 list option" where
  "arena_get wordOffset raw =
    (if wordOffset = 0 \<or> length raw \<le> unat wordOffset then None
     else Some (drop (unat wordOffset) raw))"

text \<open>A write of \<open>ws\<close> at word \<open>off\<close>; \<open>None\<close> when it leaves the vector.\<close>

definition store :: "nat \<Rightarrow> u32 list \<Rightarrow> u32 list \<Rightarrow> u32 list option" where
  "store off ws raw = (if off + length ws \<le> length raw then Some (write_at off ws raw) else None)"

text \<open>
  \<open>push\<close>. Sizes and offsets are 32-bit and wrap; \<open>None\<close> is a write past the end of the resized
  vector, which only a wrapped size can cause.
\<close>

definition arena_push ::
    "u32 \<Rightarrow> TypeID \<Rightarrow> u32 list \<Rightarrow> TypeMember list \<Rightarrow> u32 list \<Rightarrow> (u32 \<times> u32 list) option" where
  "arena_push fill tid flags members raw =
    (let offset = of_nat (length raw) :: u32;
         flagWords = of_nat (length flags) :: u32;
         memberWords = of_nat (length members) * MEMBER_STRIDE_WORDS;
         total = HEADER_WORDS + flagWords + memberWords;
         raw = vec_resize fill (unat (offset + total)) raw;
         dest = unat offset;
         mword = HEADER_WORDS + flagWords
     in do {
       raw \<leftarrow> store dest [tid, total, mword] raw;
       raw \<leftarrow> (if flagWords > 0
               then store (dest + unat HEADER_WORDS) (take (unat flagWords) flags) raw
               else Some raw);
       raw \<leftarrow> (if memberWords > 0
               then store (dest + unat mword)
                 (take (unat memberWords) (concat (map member_words members))) raw
               else Some raw);
       Some (offset, raw)
     })"

definition arena_rollback :: "u32 \<Rightarrow> u32 \<Rightarrow> u32 list \<Rightarrow> u32 list" where
  "arena_rollback fill wordOffset raw =
    (if wordOffset > 0 \<and> unat wordOffset \<le> length raw then vec_resize fill (unat wordOffset) raw
     else raw)"

section \<open>The records of an arena\<close>

type_synonym type_record = "TypeID \<times> u32 list \<times> TypeMember list"

fun record_words :: "type_record \<Rightarrow> u32 list" where
  "record_words (tid, flags, members) =
    [tid, of_nat (3 + length flags + 3 * length members), of_nat (3 + length flags)]
      @ flags @ concat (map member_words members)"

definition arena_words :: "type_record list \<Rightarrow> u32 list" where
  "arena_words rs = 0 # concat (map record_words rs)"

definition record_offset :: "type_record list \<Rightarrow> nat \<Rightarrow> nat" where
  "record_offset rs i = length (arena_words (take i rs))"

lemma arena_words_Nil: "TypeArena = arena_words []"
  by (simp add: TypeArena_def arena_words_def)

lemma arena_words_snoc: "arena_words (rs @ [r]) = arena_words rs @ record_words r"
  by (simp add: arena_words_def)

lemma length_member_concat [simp]: "length (concat (map member_words ms)) = 3 * length ms"
  by (induction ms) simp_all

lemma length_record_words:
  "length (record_words (tid, flags, members)) = 3 + length flags + 3 * length members"
  by simp

lemma arena_words_split:
  assumes "i < length rs"
  shows "arena_words rs = arena_words (take i rs) @ record_words (rs ! i) @ concat (map record_words (drop (Suc i) rs))"
proof -
  have "rs = take i rs @ rs ! i # drop (Suc i) rs" using assms by (rule id_take_nth_drop)
  then have "concat (map record_words rs)
      = concat (map record_words (take i rs @ rs ! i # drop (Suc i) rs))" by simp
  then show ?thesis by (simp add: arena_words_def)
qed

lemma record_offset_pos: "0 < record_offset rs i"
  by (simp add: record_offset_def arena_words_def)

lemma record_offset_lt:
  assumes "i < length rs"
  shows "record_offset rs i + length (record_words (rs ! i)) \<le> length (arena_words rs)"
  using arena_words_split [OF assms] by (simp add: record_offset_def)

lemma store_at_end:
  "n = length xs \<Longrightarrow> length ws \<le> length ys \<Longrightarrow>
    store n ws (xs @ ys) = Some (xs @ ws @ drop (length ws) ys)"
  by (simp add: store_def write_at_append)

lemma store_inside:
  "n = length xs + length us \<Longrightarrow> length ws \<le> length ys \<Longrightarrow>
    store n ws (xs @ us @ ys) = Some (xs @ us @ ws @ drop (length ws) ys)"
  using store_at_end [of n "xs @ us" ws ys] by simp

lemma MEMBER_STRIDE_WORDS_eq [simp]: "MEMBER_STRIDE_WORDS = 3"
  by (simp add: MEMBER_STRIDE_WORDS_def)

lemma unat_stride:
  "3 * n < 2 ^ 32 \<Longrightarrow> unat (of_nat n * 3 :: u32) = 3 * n"
proof -
  assume n: "3 * n < 2 ^ 32"
  have "(of_nat n * 3 :: u32) = of_nat (3 * n)" by simp
  with n show ?thesis by (simp only: unat_of_nat_lt len_num1 len_bit0) (simp add: unat_of_nat_lt del: of_nat_mult)
qed

lemma arena_push_words:
  assumes "length (arena_words rs @ record_words (tid, flags, members)) < 2 ^ 32"
  shows "arena_push fill tid flags members (arena_words rs)
    = Some (of_nat (record_offset rs (length rs)), arena_words (rs @ [(tid, flags, members)]))"
proof -
  let ?raw = "arena_words rs" and ?f = "length flags" and ?m = "3 * length members"
  have fits: "length ?raw + (3 + ?f + ?m) < 2 ^ 32" using assms by simp
  have sizes: "unat (of_nat (length ?raw) :: u32) = length ?raw" "unat (of_nat ?f :: u32) = ?f"
    "unat (of_nat (length members) * 3 :: u32) = ?m"
    using fits by (simp_all add: unat_of_nat_lt unat_stride)
  have mword: "(3 + of_nat ?f :: u32) = of_nat (3 + ?f)" by simp
  have total: "(of_nat (3 + ?f) + of_nat (length members) * 3 :: u32) = of_nat (3 + ?f + ?m)" by simp
  have three: "unat (3 :: u32) = 3" by simp
  have "(of_nat (length ?raw) + of_nat (3 + ?f + ?m) :: u32) = of_nat (length ?raw + (3 + ?f + ?m))"
    by simp
  then have sum: "unat (of_nat (length ?raw) + of_nat (3 + ?f + ?m) :: u32) = length ?raw + (3 + ?f + ?m)"
    using fits unat_of_nat_lt [of "length ?raw + (3 + ?f + ?m)", where 'a = 32] by (simp only: len_num1 len_bit0) simp
  have mword_nat: "unat (of_nat (3 + ?f) :: u32) = 3 + ?f"
    using fits unat_of_nat_lt [of "3 + ?f", where 'a = 32] by simp
  have room: "vec_resize fill (length ?raw + (3 + ?f + ?m)) ?raw = ?raw @ replicate (3 + ?f + ?m) fill"
    by (simp add: vec_resize_grow)
  have gt: "(of_nat ?f > (0 :: u32)) = (?f > 0)" "(of_nat (length members) * 3 > (0 :: u32)) = (?m > 0)"
    using sizes by (metis gr_zeroI unat_0 unat_gt_0 word_gt_0)+
  have header: "store (length ?raw) [tid, of_nat (3 + ?f + ?m), of_nat (3 + ?f)]
      (?raw @ replicate (3 + ?f + ?m) fill)
    = Some (?raw @ [tid, of_nat (3 + ?f + ?m), of_nat (3 + ?f)] @ replicate (?f + ?m) fill)"
    by (simp add: store_at_end)
  have flags: "(if ?f > 0 then store (length ?raw + 3) flags
        (?raw @ [tid, a, b] @ replicate (?f + ?m) fill)
      else Some (?raw @ [tid, a, b] @ replicate (?f + ?m) fill))
    = Some ((?raw @ [tid, a, b] @ flags) @ replicate ?m fill)" for a b
    using store_inside [of "length ?raw + 3" ?raw "[tid, a, b]" flags "replicate (?f + ?m) fill"] by simp
  have members: "(if ?m > 0 then store (length ?raw + (3 + ?f)) (concat (map member_words members))
        ((?raw @ [tid, a, b] @ flags) @ replicate ?m fill)
      else Some ((?raw @ [tid, a, b] @ flags) @ replicate ?m fill))
    = Some (?raw @ [tid, a, b] @ flags @ concat (map member_words members))" for a b
    using store_at_end [of "length ?raw + (3 + ?f)" "?raw @ [tid, a, b] @ flags"
        "concat (map member_words members)" "replicate ?m fill"] by simp
  show ?thesis
    unfolding arena_push_def Let_def HEADER_WORDS_def MEMBER_STRIDE_WORDS_eq mword total sum sizes
      mword_nat three room gt
    by (simp only: header flags members bind.bind_lunit order_refl take_all length_member_concat
        record_offset_def) (simp add: arena_words_snoc)
qed

lemma member_at_words:
  "i < length ms \<Longrightarrow> member_at (concat (map member_words ms) @ post) i = Some (ms ! i)"
proof (induction ms arbitrary: i)
  case (Cons m ms)
  obtain a b c where m: "member_words m = [a, b, c]" by (simp add: member_words_def)
  show ?case
  proof (cases i)
    case 0
    with m show ?thesis by (simp add: member_at_def member_of_member_words)
  next
    case (Suc j)
    then have "member_at (concat (map member_words (m # ms)) @ post) i
        = member_at (concat (map member_words ms) @ post) j"
      using drop_drop [of "3 * j" 3 "member_words m @ concat (map member_words ms) @ post"]
      by (simp add: member_at_def m add.commute del: drop_append)
    with Cons Suc show ?thesis by simp
  qed
qed simp

lemma those_map_Some: "(\<And>x. x \<in> set xs \<Longrightarrow> f x = Some (g x)) \<Longrightarrow> those (map f xs) = Some (map g xs)"
  by (induction xs) simp_all

lemma record_read:
  assumes "length (record_words (tid, flags, members)) < 2 ^ 32"
    and this_def: "this = record_words (tid, flags, members) @ post"
  shows "map_option content_ID (content_at this) = Some tid" and "getFlags this = Some flags"
    and "getMembers this = Some members"
    and "\<And>i. unat i < length members \<Longrightarrow> getMember this i = Some (members ! unat i)"
proof -
  let ?f = "length flags" and ?n = "length members"
  let ?h = "\<lparr>content_ID = tid, totalWords = of_nat (3 + ?f + 3 * ?n), membersWord = of_nat (3 + ?f)\<rparr>"
  have h: "content_at this = Some ?h" by (simp add: content_at_def this_def)
  have fits: "3 + ?f + 3 * ?n < 2 ^ 32" using assms(1) by simp
  have w: "unat (of_nat (3 + ?f) :: u32) = 3 + ?f"
    "unat (of_nat (3 + ?f + 3 * ?n) :: u32) = 3 + ?f + 3 * ?n"
    using fits unat_of_nat_lt [of "3 + ?f", where 'a = 32]
      unat_of_nat_lt [of "3 + ?f + 3 * ?n", where 'a = 32] by simp_all
  have flag_count: "unat (getFlagCount ?h) = ?f"
  proof (cases "?f = 0")
    case False
    have three: "unat (3 :: u32) = 3" by simp
    have "(of_nat (3 + ?f) :: u32) > 3" "unat (of_nat (3 + ?f) - 3 :: u32) = ?f"
      using w(1) False three
      by (simp_all add: word_less_nat_alt unat_diff_le del: of_nat_add)
    then show ?thesis by (simp only: getFlagCount_def HEADER_WORDS_def TypeContent.simps if_True)
  qed (simp add: getFlagCount_def HEADER_WORDS_def)
  have member_count: "unat (getMemberCount ?h) = ?n"
  proof (cases "?n = 0")
    case False
    have "(of_nat (3 + ?f + 3 * ?n) :: u32) > of_nat (3 + ?f)"
      "unat (of_nat (3 + ?f + 3 * ?n) - of_nat (3 + ?f) :: u32) = 3 * ?n"
      using w False
      by (simp_all add: word_less_nat_alt unat_diff_le del: of_nat_add)
    then show ?thesis
      by (simp only: getMemberCount_def MEMBER_STRIDE_WORDS_eq TypeContent.simps if_True unat_div) simp
  qed (simp add: getMemberCount_def)
  have mem: "drop (unat (membersWord ?h)) this = concat (map member_words members) @ post"
    unfolding TypeContent.simps w(1) this_def by (simp add: numeral_3_eq_3)
  show "map_option content_ID (content_at this) = Some tid" using h by simp
  show "getFlags this = Some flags"
    using flag_count by (simp add: getFlags_def h HEADER_WORDS_def) (simp add: this_def)
  show "getMembers this = Some members"
    unfolding getMembers_def h bind.bind_lunit mem member_count
    by (subst those_map_Some [where g = "nth members"]) (simp_all add: member_at_words map_nth)
  show "getMember this i = Some (members ! unat i)" if "unat i < ?n" for i
    using that unfolding getMember_def h bind.bind_lunit mem by (rule member_at_words)
qed

text \<open>C10: The arena implements a list of records. On the words of a list of records, as long as
the words fit 32-bit offsets: \<open>push\<close> stays inside the vector, appends the record and returns its
offset; \<open>get\<close> at the offset of a record finds it and reads back its identifier, its flags and
all its members; \<open>rollback\<close> to the offset of a record removes it and the records after it.\<close>

theorem arena_refines_records:
  assumes "length (arena_words (rs @ [(tid, flags, members)])) < 2 ^ 32"
    and "i < length rs" and "rs ! i = (tid', flags', members')"
  shows "arena_push fill tid flags members (arena_words rs)
      = Some (of_nat (record_offset rs (length rs)), arena_words (rs @ [(tid, flags, members)])) \<and>
    (\<exists>this. arena_get (of_nat (record_offset rs i)) (arena_words rs) = Some this \<and>
       map_option content_ID (content_at this) = Some tid' \<and> getFlags this = Some flags' \<and>
       getMembers this = Some members') \<and>
    arena_rollback fill (of_nat (record_offset rs i)) (arena_words rs) = arena_words (take i rs)"
proof -
  have "length (arena_words rs) < 2 ^ 32" using assms(1) by (simp add: arena_words_snoc)
  with record_offset_lt [OF assms(2)] record_offset_pos [of rs i]
  have off: "unat (of_nat (record_offset rs i) :: u32) = record_offset rs i"
      "of_nat (record_offset rs i) \<noteq> (0 :: u32)"
    and size: "length (record_words (tid', flags', members')) < 2 ^ 32"
    using assms(3) by (auto simp: unat_of_nat_lt dest: arg_cong [of _ _ unat])
  let ?post = "concat (map record_words (drop (Suc i) rs))"
  have split: "arena_words rs = arena_words (take i rs) @ record_words (tid', flags', members') @ ?post"
    using arena_words_split [OF assms(2)] assms(3) by simp
  have "arena_get (of_nat (record_offset rs i)) (arena_words rs)
      = Some (record_words (tid', flags', members') @ ?post)"
    using off record_offset_lt [OF assms(2)] assms(3)
    by (simp add: arena_get_def) (simp add: split record_offset_def)
  moreover have "arena_rollback fill (of_nat (record_offset rs i)) (arena_words rs) = arena_words (take i rs)"
    using off record_offset_lt [OF assms(2)]
    by (simp add: arena_rollback_def vec_resize_shrink word_gt_0) (simp add: split record_offset_def)
  ultimately show ?thesis
    using record_read [OF size refl] arena_push_words [of rs tid flags members fill] assms(1)
    by (simp add: arena_words_snoc)
qed

theorem arena_refines_records_witness:
  "arena_rollback 0 1 (arena_words [(14, [7], [])]) = TypeArena \<and>
   arena_push 0 15 [] [\<lparr>member_type = 5, memberID = 1, decoration = CONSTDC, pad = 0, initVal = 9\<rparr>]
     (arena_words [(14, [7], [])]) = Some (5, [0, 14, 4, 4, 7, 15, 6, 3, 5, 0x00040001, 9])"
  using arena_refines_records [of "[(14, [7], [])]" 15 "[]"
      "[\<lparr>member_type = 5, memberID = 1, decoration = CONSTDC, pad = 0, initVal = 9\<rparr>]" 0 14 "[7]" "[]" 0]
  by (simp add: arena_words_def record_offset_def TypeArena_def member_words_def CONSTDC_def)

end
