(* ===== verification/Type_Store.thy ===== *)
theory Type_Store
  imports Type_Arena "HOL-Library.Sublist"
begin

text \<open>
  The contract that \<open>TypeList\<close> and \<open>TypeArena\<close> share, as a locale: entries are pushed at the end,
  a push returns the key its entry is found under for as long as it is there, and a rollback to a
  key takes the store back to where it was when the key was given out. The two classes of
  \<open>typer/type_def.h\<close> are its interpretations.
\<close>

section \<open>The contract\<close>

text \<open>A scope: pushes in a row, with the keys they return.\<close>

primrec push_all :: "('r \<Rightarrow> 's \<Rightarrow> ('k \<times> 's) option) \<Rightarrow> 'r list \<Rightarrow> 's \<Rightarrow> ('k list \<times> 's) option" where
  "push_all push [] s = Some ([], s)"
| "push_all push (r # rs) s =
     Option.bind (push r s) (\<lambda>(k, s). map_option (apfst (Cons k)) (push_all push rs s))"

text \<open>
  \<open>cost\<close> is the room an entry takes; identifiers and offsets have 32 bits. \<open>entry\<close> is what is
  found under a key.
\<close>

locale scoped_store =
  fixes valid :: "'a list \<Rightarrow> bool"
    and cost :: "'r \<Rightarrow> nat"
    and push :: "'r \<Rightarrow> 'a list \<Rightarrow> ('k \<times> 'a list) option"
    and get :: "'k \<Rightarrow> 'a list \<Rightarrow> 'v option"
    and rollback :: "'k \<Rightarrow> 'a list \<Rightarrow> 'a list"
    and entry :: "'k \<Rightarrow> 'r \<Rightarrow> 'v"
  assumes push_valid: "\<lbrakk>valid s; length s + cost r < 2 ^ 32\<rbrakk> \<Longrightarrow>
      \<exists>k t. push r s = Some (k, t) \<and> valid t \<and> prefix s t \<and> length t = length s + cost r"
    and push_get: "\<lbrakk>valid s; push r s = Some (k, t); length s + cost r < 2 ^ 32; prefix t u; valid u;
      length u < 2 ^ 32\<rbrakk> \<Longrightarrow> get k u = Some (entry k r)"
    and push_rollback: "\<lbrakk>valid s; push r s = Some (k, t); length s + cost r < 2 ^ 32; prefix t u; valid u;
      length u < 2 ^ 32\<rbrakk> \<Longrightarrow> rollback k u = s"
begin

lemma push_all_valid:
  assumes "valid s" and "length s + sum_list (map cost rs) < 2 ^ 32"
  shows "\<exists>ks t. push_all push rs s = Some (ks, t) \<and> valid t \<and> prefix s t \<and>
    length t = length s + sum_list (map cost rs)"
  using assms
proof (induction rs arbitrary: s)
  case (Cons r rs)
  then have "length s + cost r < 2 ^ 32" by simp
  with Cons.prems(1) obtain k u where u: "push r s = Some (k, u)" "valid u" "prefix s u"
      "length u = length s + cost r"
    using push_valid by blast
  with Cons.prems(2) obtain ks t where "push_all push rs u = Some (ks, t)" "valid t" "prefix u t"
      "length t = length u + sum_list (map cost rs)"
    using Cons.IH [of u] by (auto simp: add.assoc)
  with u show ?case by (auto intro: prefix_order.trans)
qed simp

text \<open>Everything pushed is found under its key in every later state.\<close>

lemma push_all_get:
  assumes "valid s" and "length s + sum_list (map cost rs) < 2 ^ 32"
    and "push_all push rs s = Some (ks, t)" and "prefix t u" and "valid u" and "length u < 2 ^ 32"
  shows "list_all2 (\<lambda>k r. get k u = Some (entry k r)) ks rs"
  using assms
proof (induction rs arbitrary: s ks)
  case (Cons r rs)
  have fits: "length s + cost r < 2 ^ 32" using Cons.prems(2) by simp
  obtain k s1 where s1: "push r s = Some (k, s1)" "valid s1" "length s1 = length s + cost r"
    using push_valid [OF Cons.prems(1) fits] by blast
  with Cons.prems(3) obtain ks' where ks': "push_all push rs s1 = Some (ks', t)" "ks = k # ks'" by auto
  have room: "length s1 + sum_list (map cost rs) < 2 ^ 32" using Cons.prems(2) s1(3) by simp
  have "prefix s1 t" using push_all_valid [OF s1(2) room] ks'(1) by auto
  then have "prefix s1 u" using Cons.prems(4) by (rule prefix_order.trans)
  then have "get k u = Some (entry k r)" by (rule push_get [OF Cons.prems(1) s1(1) fits _ Cons.prems(5,6)])
  with Cons.IH [OF s1(2) room ks'(1)] Cons.prems ks'(2) show ?case by simp
qed simp

text \<open>Leaving a scope: a rollback to its first key drops all of it.\<close>

lemma scope_restored:
  assumes "valid s" and "rs \<noteq> []" and "length s + sum_list (map cost rs) < 2 ^ 32"
  shows "\<exists>ks t. push_all push rs s = Some (ks, t) \<and>
    list_all2 (\<lambda>k r. get k t = Some (entry k r)) ks rs \<and> rollback (hd ks) t = s"
proof -
  obtain ks t where t: "push_all push rs s = Some (ks, t)" "valid t"
      "length t = length s + sum_list (map cost rs)"
    using push_all_valid [OF assms(1,3)] by blast
  have all: "list_all2 (\<lambda>k r. get k t = Some (entry k r)) ks rs"
    using push_all_get [OF assms(1,3) t(1) _ t(2)] t(3) assms(3) by simp
  obtain r rs' where rs: "rs = r # rs'" using assms(2) by (cases rs) auto
  have fits: "length s + cost r < 2 ^ 32" using assms(3) rs by simp
  obtain k s1 where s1: "push r s = Some (k, s1)" "valid s1" "length s1 = length s + cost r"
    using push_valid [OF assms(1) fits] by blast
  with t(1) rs obtain ks' where ks': "push_all push rs' s1 = Some (ks', t)" "ks = k # ks'" by auto
  have room: "length s1 + sum_list (map cost rs') < 2 ^ 32" using assms(3) rs s1(3) by simp
  have "prefix s1 t" using push_all_valid [OF s1(2) room] ks'(1) by auto
  then have "rollback k t = s"
    using push_rollback [OF assms(1) s1(1) fits _ t(2)] t(3) assms(3) by simp
  with t(1) all ks'(2) show ?thesis by auto
qed

end

section \<open>The registry\<close>

interpretation type_list: scoped_store "\<lambda>raw. 14 \<le> length raw" "\<lambda>_. 1"
    "\<lambda>lean raw. Some (list_push lean raw)" list_at "list_rollback fill" "\<lambda>tid lean. lean\<lparr>ID := tid\<rparr>" for fill
proof
  fix s u t :: "TypeLean list" and r k
  assume "14 \<le> length s" and "Some (list_push r s) = Some (k, t)" and "length s + 1 < 2 ^ 32"
    and "prefix t u" and "length u < 2 ^ 32"
  then have u: "unat k = length s" "14 \<le> length s" "k = of_nat (length s)"
      "\<exists>v. u = s @ r\<lparr>ID := k\<rparr> # v"
    by (auto simp: list_push_def Let_def unat_of_nat_lt prefix_def)
  then show "list_at k u = Some (r\<lparr>ID := k\<rparr>)"
    by (auto simp: list_at_def)
  show "list_rollback fill k u = s"
    using u by (auto simp: list_rollback_def word_le_nat_alt vec_resize_shrink)
qed (auto simp: list_push_def Let_def)

text \<open>A scope of registrations: every type is found under its identifier with that identifier in
it, and the rollback to the first identifier restores the registry.\<close>

lemma list_scope_restored:
  assumes "14 \<le> length raw" and "leans \<noteq> []" and "length raw + length leans < 2 ^ 32"
  shows "\<exists>ids raw'. push_all (\<lambda>lean raw. Some (list_push lean raw)) leans raw = Some (ids, raw') \<and>
    list_all2 (\<lambda>tid lean. list_at tid raw' = Some (lean\<lparr>ID := tid\<rparr>)) ids leans \<and>
    list_rollback fill (hd ids) raw' = raw"
  using type_list.scope_restored [OF assms(1,2)] assms(3) by (simp add: sum_list_triv)

section \<open>The arena\<close>

text \<open>What a compiler reads at an offset: the identifier, the flags and the members.\<close>

definition record_at :: "u32 \<Rightarrow> u32 list \<Rightarrow> type_record option" where
  "record_at off raw =
     Option.bind (arena_get off raw) (\<lambda>this.
       Option.bind (content_at this) (\<lambda>h.
         Option.bind (getFlags this) (\<lambda>flags.
           map_option (\<lambda>members. (content_ID h, flags, members)) (getMembers this))))"

definition push_record :: "u32 \<Rightarrow> type_record \<Rightarrow> u32 list \<Rightarrow> (u32 \<times> u32 list) option" where
  "push_record fill r raw = (case r of (tid, flags, members) \<Rightarrow> arena_push fill tid flags members raw)"

lemma push_record_words:
  assumes "length (arena_words rs) + length (record_words r) < 2 ^ 32"
  shows "push_record fill r (arena_words rs) = Some (of_nat (length (arena_words rs)), arena_words (rs @ [r]))"
  using assms arena_push_words [of rs _ _ _ fill]
  by (cases r) (simp add: push_record_def record_offset_def)

lemma prefix_records:
  assumes "prefix (arena_words (rs @ [r])) u"
  shows "\<exists>post. u = arena_words rs @ record_words r @ post"
  using assms by (auto simp: prefix_def arena_words_snoc)

lemma record_at_words:
  assumes "length (arena_words rs) + length (record_words r) < 2 ^ 32"
  shows "record_at (of_nat (length (arena_words rs))) (arena_words rs @ record_words r @ post) = Some r"
proof -
  obtain tid flags members where r: "r = (tid, flags, members)" by (cases r)
  have len: "unat (of_nat (length (arena_words rs)) :: u32) = length (arena_words rs)"
    using assms by (intro unat_of_nat_lt) simp
  have pos: "0 < length (arena_words rs)" "0 < length (record_words r)" by (simp_all add: arena_words_def r)
  have "of_nat (length (arena_words rs)) \<noteq> (0 :: u32)" using len pos(1) by (metis less_irrefl unat_0)
  then have get: "arena_get (of_nat (length (arena_words rs))) (arena_words rs @ record_words r @ post)
      = Some (record_words r @ post)"
    using len pos by (simp add: arena_get_def not_le)
  have "length (record_words (tid, flags, members)) < 2 ^ 32" using assms r by simp
  from record_read(1-3) [OF this refl, where post = post] show ?thesis
    unfolding record_at_def get unfolding r by (auto simp del: record_words.simps)
qed

interpretation type_arena: scoped_store "\<lambda>raw. \<exists>rs. raw = arena_words rs" "\<lambda>r. length (record_words r)"
    "push_record fill" record_at "arena_rollback fill" "\<lambda>_ r. r" for fill
proof
  fix s :: "u32 list" and r
  assume "\<exists>rs. s = arena_words rs" and room: "length s + length (record_words r) < 2 ^ 32"
  then obtain rs where s: "s = arena_words rs" by auto
  have "push_record fill r s = Some (of_nat (length s), arena_words (rs @ [r]))"
    using push_record_words room s by simp
  moreover have "arena_words (rs @ [r]) = s @ record_words r" by (simp add: arena_words_snoc s)
  ultimately show "\<exists>k t. push_record fill r s = Some (k, t) \<and> (\<exists>rs. t = arena_words rs) \<and> prefix s t \<and>
      length t = length s + length (record_words r)"
    by (intro exI [of _ "of_nat (length s)"] exI [of _ "arena_words (rs @ [r])"])
      (auto simp del: record_words.simps intro!: exI [of _ "rs @ [r]"])
next
  fix s t u :: "u32 list" and r k
  assume "\<exists>rs. s = arena_words rs" and push: "push_record fill r s = Some (k, t)"
    and room: "length s + length (record_words r) < 2 ^ 32" and u: "prefix t u" "length u < 2 ^ 32"
  then obtain rs where s: "s = arena_words rs" by auto
  have k: "k = of_nat (length s)" "t = arena_words (rs @ [r])"
    using push push_record_words [of rs r fill] room s by auto
  obtain post where post: "u = s @ record_words r @ post" using prefix_records u(1) k(2) s by blast
  show "record_at k u = Some r" using record_at_words [of rs r post] room by (simp add: k(1) post s)
  have len: "unat k = length s" using room k(1) by (simp add: unat_of_nat_lt)
  moreover have "0 < k" using len s by (simp add: word_gt_0_no arena_words_def word_less_nat_alt)
  ultimately show "arena_rollback fill k u = s"
    by (simp add: arena_rollback_def post vec_resize_shrink)
qed

text \<open>C11: Scopes of the type arena. Whatever records are pushed onto an arena one after the other,
as long as all of it fits 32-bit offsets: every push succeeds, each record is read back at its
offset, with its identifier, flags and members, also after the later pushes have moved the end of
the arena, and \<open>rollback\<close> to the first offset gives back the arena word for word.\<close>

theorem arena_scope_restored:
  assumes "new \<noteq> []"
    and "length (arena_words old) + sum_list (map (\<lambda>r. length (record_words r)) new) < 2 ^ 32"
  shows "\<exists>offsets raw. push_all (push_record fill) new (arena_words old) = Some (offsets, raw) \<and>
    list_all2 (\<lambda>off r. record_at off raw = Some r) offsets new \<and>
    arena_rollback fill (hd offsets) raw = arena_words old"
  by (rule type_arena.scope_restored [OF _ assms]) blast

theorem arena_scope_restored_witness:
  "\<exists>offsets raw. push_all (push_record 0) [(14, [7], []), (15, [], [])] TypeArena = Some (offsets, raw) \<and>
    list_all2 (\<lambda>off r. record_at off raw = Some r) offsets [(14, [7], []), (15, [], [])] \<and>
    arena_rollback 0 (hd offsets) raw = TypeArena"
  using arena_scope_restored [of "[(14, [7], []), (15, [], [])]" "[]" 0]
  by (simp add: arena_words_Nil [symmetric]) (simp add: TypeArena_def)

end
