(* ===== verification/Compiler.thy ===== *)
theory Compiler
  imports Lexer AST_Def
begin

text \<open>
  \<open>compiler/compiler.h\<close> and \<open>compiler/compiler.cpp\<close>: the scopes, the compile-time evaluator
  and the code generator. LLVM is not part of the sources the development reads: it is the
  parameter \<open>L\<close>, a record of the operations the compiler calls, over abstract types of LLVM
  states, values, types, functions and basic blocks. An operation that LLVM may refuse with an
  assertion (a null operand, a null value of type void) answers \<open>None\<close>. What the theorems rely
  on of LLVM are hypotheses on this record.

  A handler is a function from the compiler's state to an outcome: \<open>None\<close> when it never returns,
  \<open>Inl\<close> an exception or a crash, \<open>Inr\<close> a value and the new state. An \<open>llvm::Value*\<close> is an
  option: \<open>None\<close> is \<open>nullptr\<close>. The handlers take \<open>codegen\<close> as an argument; the knot is tied by
  a \<open>partial_function\<close> at the end.
\<close>

section \<open>What the compiler uses of LLVM\<close>

text \<open>
  The operations of the instruction builder and of the constant folder, one constructor for
  each of the methods and opcodes the code names.
\<close>

datatype binop =
    Op_Add | Op_FAdd | Op_Sub | Op_FSub | Op_Mul | Op_FMul | Op_SDiv | Op_FDiv
  | Op_ICmpEQ | Op_FCmpOEQ | Op_ICmpNE | Op_FCmpONE | Op_ICmpSLT | Op_FCmpOLT
  | Op_ICmpSLE | Op_FCmpOLE | Op_ICmpSGT | Op_FCmpOGT | Op_ICmpSGE | Op_FCmpOGE

datatype unop = Op_Neg | Op_FNeg | Op_Not

record ('s, 'v, 't, 'f, 'b) llvm =
  int32Ty :: 't
  floatTy :: 't
  int1Ty :: 't
  int8Ty :: 't
  voidTy :: 't
  isFloatTy :: "'t \<Rightarrow> bool"
  isVoidTy :: "'t \<Rightarrow> bool"
  getType :: "'v \<Rightarrow> 't"
  getInt32 :: "u32 \<Rightarrow> 'v"
  getTrue :: 'v
  getFalse :: 'v
  constantFP :: "u32 \<Rightarrow> 'v"
  getNullValue :: "'t \<Rightarrow> 'v option"
  isConstant :: "'v \<Rightarrow> bool"
  isAlloca :: "'v \<Rightarrow> bool"
  foldBinary :: "binop \<Rightarrow> 'v \<Rightarrow> 'v \<Rightarrow> 's \<Rightarrow> 'v option option"
  createBinary :: "binop \<Rightarrow> 'v \<Rightarrow> 'v \<Rightarrow> string \<Rightarrow> 's \<Rightarrow> ('v \<times> 's) option"
  createUnary :: "unop \<Rightarrow> 'v option \<Rightarrow> string \<Rightarrow> 's \<Rightarrow> ('v \<times> 's) option"
  createAlloca :: "'f \<Rightarrow> 't \<Rightarrow> string \<Rightarrow> 's \<Rightarrow> ('v \<times> 's) option"
  createStore :: "'v \<Rightarrow> 'v \<Rightarrow> 's \<Rightarrow> (unit \<times> 's) option"
  createLoad :: "'t \<Rightarrow> 'v \<Rightarrow> string \<Rightarrow> 's \<Rightarrow> ('v \<times> 's) option"
  createGlobal :: "'t \<Rightarrow> bool \<Rightarrow> 'v option \<Rightarrow> string \<Rightarrow> 's \<Rightarrow> ('v \<times> 's) option"
  createFunction :: "'t \<Rightarrow> 't list \<Rightarrow> string \<Rightarrow> 's \<Rightarrow> ('f \<times> 's) option"
  createBlock :: "string \<Rightarrow> 'f option \<Rightarrow> 's \<Rightarrow> ('b \<times> 's) option"
  insertBlock :: "'f \<Rightarrow> 'b \<Rightarrow> 's \<Rightarrow> (unit \<times> 's) option"
  setInsertPoint :: "'b \<Rightarrow> 's \<Rightarrow> (unit \<times> 's) option"
  getInsertBlock :: "'s \<Rightarrow> 'b option"
  getParent :: "'b \<Rightarrow> 's \<Rightarrow> 'f option"
  hasTerminator :: "'b \<Rightarrow> 's \<Rightarrow> bool"
  createRet :: "'v option \<Rightarrow> 's \<Rightarrow> ('v \<times> 's) option"
  createRetVoid :: "'s \<Rightarrow> ('v \<times> 's) option"
  createCondBr :: "'v option \<Rightarrow> 'b \<Rightarrow> 'b \<Rightarrow> 's \<Rightarrow> (unit \<times> 's) option"
  createBr :: "'b \<Rightarrow> 's \<Rightarrow> (unit \<times> 's) option"
  getFunction :: "string \<Rightarrow> 's \<Rightarrow> 'f option"
  getReturnType :: "'f \<Rightarrow> 't"
  createCall :: "'f \<Rightarrow> 'v option list \<Rightarrow> string \<Rightarrow> 's \<Rightarrow> ('v \<times> 's) option"
  functionValue :: "'f \<Rightarrow> 'v"
  verifyFunction :: "'f \<Rightarrow> 's \<Rightarrow> (unit \<times> 's) option"
  stof :: "string \<Rightarrow> u32 option"

text \<open>
  The last entry is \<open>std::stof\<close>, the decimal to binary32 conversion of the C library; \<open>None\<close>
  is a thrown \<open>std::invalid_argument\<close> or \<open>std::out_of_range\<close>.
\<close>

section \<open>Scopes and the state\<close>

record 't ParamInfo =
  param_name :: string
  param_type :: 't
  param_isCompileTime :: bool

record ('t, 'f) FunctionInfo =
  llvmFunc :: 'f
  declNodeId :: NodeId
  allParams :: "'t ParamInfo list"
  runtimeParams :: "'t ParamInfo list"

record ('v, 't) Symbol =
  sym_value :: "'v option"
  sym_type :: 't
  sym_isConst :: bool
  sym_isCompileTime :: bool

record ('v, 't, 'f) Scope =
  symbols :: "string \<rightharpoonup> ('v, 't) Symbol"
  customTypes :: "string \<rightharpoonup> 't"
  scope_functions :: "string \<rightharpoonup> ('t, 'f) FunctionInfo"

definition empty_scope :: "('v, 't, 'f) Scope" where
  "empty_scope = \<lparr>symbols = Map.empty, customTypes = Map.empty, scope_functions = Map.empty\<rparr>"

text \<open>
  The chain of scopes from \<open>currentScope\<close> along \<open>parent\<close>. The lookups of \<open>Scope\<close> walk it.
  (\<open>scopePool\<close> keeps the scopes that were left alive, but no pointer leads to them.)
\<close>

primrec lookupVar :: "('v, 't, 'f) Scope list \<Rightarrow> string \<Rightarrow> ('v, 't) Symbol option" where
  "lookupVar [] name = None"
| "lookupVar (sc # parents) name =
    (case symbols sc name of Some x \<Rightarrow> Some x | None \<Rightarrow> lookupVar parents name)"

primrec lookupFunc :: "('v, 't, 'f) Scope list \<Rightarrow> string \<Rightarrow> ('t, 'f) FunctionInfo option" where
  "lookupFunc [] name = None"
| "lookupFunc (sc # parents) name =
    (case scope_functions sc name of Some f \<Rightarrow> Some f | None \<Rightarrow> lookupFunc parents name)"

primrec lookupType :: "('v, 't, 'f) Scope list \<Rightarrow> string \<Rightarrow> 't option" where
  "lookupType [] name = None"
| "lookupType (sc # parents) name =
    (case customTypes sc name of Some ty \<Rightarrow> Some ty | None \<Rightarrow> lookupType parents name)"

record ('s, 'v, 't, 'f) Compiler =
  ctree :: "Node list"
  csource :: string
  llvm_state :: 's
  scopes :: "('v, 't, 'f) Scope list"

text \<open>
  How a handler can end other than with a value: an exception that \<open>compile\<close> catches, or
  undefined behaviour and failed LLVM assertions (\<open>Crash\<close>).
\<close>

datatype cg_stop = Runtime_error string | Invalid_argument | Out_of_range | Crash

type_synonym ('s, 'v, 't, 'f, 'a) cg =
  "('s, 'v, 't, 'f) Compiler \<Rightarrow> (cg_stop + 'a \<times> ('s, 'v, 't, 'f) Compiler) option"

definition cret :: "'a \<Rightarrow> ('s, 'v, 't, 'f, 'a) cg" where
  "cret a s = Some (Inr (a, s))"

definition stop_with :: "cg_stop \<Rightarrow> ('s, 'v, 't, 'f, 'a) cg" where
  "stop_with e s = Some (Inl e)"

definition cbnd ::
    "('s, 'v, 't, 'f, 'a) cg \<Rightarrow> ('a \<Rightarrow> ('s, 'v, 't, 'f, 'c) cg) \<Rightarrow> ('s, 'v, 't, 'f, 'c) cg" where
  "cbnd m f s =
     (case m s of None \<Rightarrow> None | Some (Inl e) \<Rightarrow> Some (Inl e) | Some (Inr (a, s')) \<Rightarrow> f a s')"

definition cseq ::
    "('s, 'v, 't, 'f, 'a) cg \<Rightarrow> ('s, 'v, 't, 'f, 'c) cg \<Rightarrow> ('s, 'v, 't, 'f, 'c) cg" where
  "cseq m k = cbnd m (\<lambda>_. k)"

text \<open>A look at the state, and a call of LLVM.\<close>

definition look :: "(('s, 'v, 't, 'f) Compiler \<Rightarrow> 'a) \<Rightarrow> ('s, 'v, 't, 'f, 'a) cg" where
  "look g s = Some (Inr (g s, s))"

definition llvm_look :: "('s \<Rightarrow> 'a) \<Rightarrow> ('s, 'v, 't, 'f, 'a) cg" where
  "llvm_look g = look (\<lambda>s. g (llvm_state s))"

definition llvm_call :: "('s \<Rightarrow> ('a \<times> 's) option) \<Rightarrow> ('s, 'v, 't, 'f, 'a) cg" where
  "llvm_call g s =
     (case g (llvm_state s) of
        None \<Rightarrow> Some (Inl Crash)
      | Some (a, ls) \<Rightarrow> Some (Inr (a, s\<lparr>llvm_state := ls\<rparr>)))"

text \<open>The object behind a pointer or an option that the code does not check.\<close>

definition deref :: "'a option \<Rightarrow> ('s, 'v, 't, 'f, 'a) cg" where
  "deref x = (case x of None \<Rightarrow> stop_with Crash | Some a \<Rightarrow> cret a)"

definition pushScope :: "('s, 'v, 't, 'f, unit) cg" where
  "pushScope s = cret () (s\<lparr>scopes := empty_scope # scopes s\<rparr>)"

definition popScope :: "('s, 'v, 't, 'f, unit) cg" where
  "popScope s =
     cret () (case scopes s of _ # p # ps \<Rightarrow> s\<lparr>scopes := p # ps\<rparr> | _ \<Rightarrow> s)"

text \<open>Assignments to the maps of \<open>currentScope\<close>.\<close>

definition update_scope ::
    "(('v, 't, 'f) Scope \<Rightarrow> ('v, 't, 'f) Scope) \<Rightarrow> ('s, 'v, 't, 'f, unit) cg" where
  "update_scope g s =
     (case scopes s of
        [] \<Rightarrow> Some (Inl Crash)
      | sc # ps \<Rightarrow> cret () (s\<lparr>scopes := g sc # ps\<rparr>))"

definition declare_symbol :: "string \<Rightarrow> ('v, 't) Symbol \<Rightarrow> ('s, 'v, 't, 'f, unit) cg" where
  "declare_symbol name x =
     update_scope (\<lambda>sc. sc\<lparr>symbols := (symbols sc)(name \<mapsto> x)\<rparr>)"

definition declare_type :: "string \<Rightarrow> 't \<Rightarrow> ('s, 'v, 't, 'f, unit) cg" where
  "declare_type name ty =
     update_scope (\<lambda>sc. sc\<lparr>customTypes := (customTypes sc)(name \<mapsto> ty)\<rparr>)"

definition declare_function :: "string \<Rightarrow> ('t, 'f) FunctionInfo \<Rightarrow> ('s, 'v, 't, 'f, unit) cg" where
  "declare_function name info =
     update_scope (\<lambda>sc. sc\<lparr>scope_functions := (scope_functions sc)(name \<mapsto> info)\<rparr>)"

text \<open>The constructor: one root scope.\<close>

definition init_compiler :: "Node list \<Rightarrow> string \<Rightarrow> 's \<Rightarrow> ('s, 'v, 't, 'f) Compiler" where
  "init_compiler nodes src ls =
     \<lparr>ctree = nodes, csource = src, llvm_state = ls, scopes = [empty_scope]\<rparr>"

section \<open>Nodes, numbers and types\<close>

text \<open>\<open>tree.get(id)\<close>: undefined outside the vector.\<close>

definition node_at :: "NodeId \<Rightarrow> ('s, 'v, 't, 'f, Node) cg" where
  "node_at i s = (if valid_id (ctree s) i then cret (get (ctree s) i) s else Some (Inl Crash))"

text \<open>The sum of offset and length is computed in 32 bits.\<close>

definition getNodeSnippet :: "NodeId \<Rightarrow> ('s, 'v, 't, 'f, string) cg" where
  "getNodeSnippet i =
     (if i = kNullNode then cret ''''
      else cbnd (node_at i) (\<lambda>node s.
        if sourceLength node = 0
            \<or> length (csource s) < unat (sourceOffset node + ucast (sourceLength node)) then cret '''' s
        else if length (csource s) < unat (sourceOffset node) then Some (Inl Out_of_range)
        else cret (substr (csource s) (unat (sourceOffset node)) (unat (sourceLength node))) s))"

text \<open>\<open>std::stoi\<close>: blanks, an optional sign, decimal digits; what follows is ignored.\<close>

definition c_space :: "char \<Rightarrow> bool" where
  "c_space c \<longleftrightarrow> of_char c = (32 :: nat) \<or> (9 \<le> (of_char c :: nat) \<and> of_char c \<le> (13 :: nat))"

definition c_digit :: "char \<Rightarrow> bool" where
  "c_digit c \<longleftrightarrow> 48 \<le> (of_char c :: nat) \<and> of_char c \<le> (57 :: nat)"

definition stoi :: "string \<Rightarrow> cg_stop + int" where
  "stoi str =
     (let cs = dropWhile c_space str;
          (neg, cs) = (case cs of
              c # cs' \<Rightarrow> if c = CHR ''-'' then (True, cs') else if c = CHR ''+'' then (False, cs') else (False, cs)
            | [] \<Rightarrow> (False, cs));
          ds = takeWhile c_digit cs;
          n = int (nat_of_string ds);
          n = (if neg then - n else n)
      in if ds = [] then Inl Invalid_argument
         else if n < - (2 ^ 31) \<or> 2 ^ 31 \<le> n then Inl Out_of_range
         else Inr n)"

definition throwing :: "cg_stop + 'a \<Rightarrow> ('s, 'v, 't, 'f, 'a) cg" where
  "throwing r = (case r of Inl e \<Rightarrow> stop_with e | Inr a \<Rightarrow> cret a)"

definition resolveType :: "('s, 'v, 't, 'f, 'b) llvm \<Rightarrow> NodeId \<Rightarrow> ('s, 'v, 't, 'f, 't) cg" where
  "resolveType L typeNodeId =
     (if typeNodeId = kNullNode then cret (voidTy L)
      else cbnd (getNodeSnippet typeNodeId) (\<lambda>typeName.
        if typeName = ''int'' then cret (int32Ty L)
        else if typeName = ''float'' then cret (floatTy L)
        else if typeName = ''bool'' then cret (int1Ty L)
        else if typeName = ''byte'' then cret (int8Ty L)
        else if typeName = ''void'' then cret (voidTy L)
        else if typeName = ''auto'' then cret (int32Ty L)
        else cbnd (look (\<lambda>s. lookupType (scopes s) typeName)) (\<lambda>customTy.
          case customTy of
            Some ty \<Rightarrow> cret ty
          | None \<Rightarrow> stop_with (Runtime_error
              (''LLVM CodeGen Error: Unknown type '' @ CHR 0x27 # typeName @ [CHR 0x27])))))"

section \<open>Compile-time evaluation\<close>

text \<open>\<open>data.op == type\<close> for the token member of the union.\<close>

definition has_op :: "Node \<Rightarrow> TokenType \<Rightarrow> bool" where
  "has_op node type \<longleftrightarrow> data_op node = tt_byte type"

definition ctfe_opcode :: "bool \<Rightarrow> Node \<Rightarrow> binop option" where
  "ctfe_opcode isFloat node =
     (if has_op node Plus then Some (if isFloat then Op_FAdd else Op_Add)
      else if has_op node Minus then Some (if isFloat then Op_FSub else Op_Sub)
      else if has_op node Star then Some (if isFloat then Op_FMul else Op_Mul)
      else if has_op node Slash then Some (if isFloat then Op_FDiv else Op_SDiv)
      else None)"

definition not_constexpr :: "('s, 'v, 't, 'f, 'v option) cg" where
  "not_constexpr = stop_with (Runtime_error
     ''CTFE Error: Expression is not valid in a constexpr context.'')"

text \<open>The constants both evaluators make of a literal.\<close>

definition literal_value ::
    "('s, 'v, 't, 'f, 'b) llvm \<Rightarrow> Node \<Rightarrow> string \<Rightarrow> ('s, 'v, 't, 'f, 'v option) cg
      \<Rightarrow> ('s, 'v, 't, 'f, 'v option) cg" where
  "literal_value L node snippet other =
     (if has_op node LInt then
        cbnd (throwing (stoi snippet)) (\<lambda>n. cret (Some (getInt32 L (of_int n))))
      else if has_op node LFloat then
        (case stof L snippet of
           None \<Rightarrow> stop_with Invalid_argument
         | Some bits \<Rightarrow> cret (Some (constantFP L bits)))
      else if has_op node kTrue then cret (Some (getTrue L))
      else if has_op node kFalse then cret (Some (getFalse L))
      else other)"

definition ctfe_identifier ::
    "('s, 'v, 't, 'f, 'b) llvm \<Rightarrow> string \<Rightarrow> ('s, 'v, 't, 'f, 'v option) cg" where
  "ctfe_identifier L name =
     cbnd (look (\<lambda>s. lookupVar (scopes s) name)) (\<lambda>found.
       case found of
         Some x \<Rightarrow>
           if sym_isCompileTime x then
             cbnd (deref (sym_value x)) (\<lambda>v. cret (if isConstant L v then Some v else None))
           else stop_with (Runtime_error
             (''CTFE Error: Symbol '' @ CHR 0x27 # name @ CHR 0x27 # '' is not a compile-time constant!''))
       | None \<Rightarrow> stop_with (Runtime_error
           (''CTFE Error: Symbol '' @ CHR 0x27 # name @ CHR 0x27 # '' is not a compile-time constant!'')))"

definition ctfe_binary ::
    "('s, 'v, 't, 'f, 'b) llvm \<Rightarrow> Node \<Rightarrow> 'v option \<Rightarrow> 'v option \<Rightarrow> ('s, 'v, 't, 'f, 'v option) cg" where
  "ctfe_binary L node lhs rhs =
     (case (lhs, rhs) of
        (Some l, Some r) \<Rightarrow>
          (case ctfe_opcode (isFloatTy L (getType L l)) node of
             None \<Rightarrow> stop_with (Runtime_error ''CTFE Error: Unsupported constexpr binary operator.'')
           | Some opcode \<Rightarrow>
               cbnd (llvm_look (foldBinary L opcode l r)) (\<lambda>folded.
               cbnd (deref folded) (\<lambda>res.
                 case res of
                   None \<Rightarrow> stop_with (Runtime_error ''CTFE Error: Constant folding failed.'')
                 | Some v \<Rightarrow> cret (Some v))))
      | _ \<Rightarrow> stop_with (Runtime_error
          ''CTFE Error: Expression cannot be evaluated at compile time.''))"

definition evaluateConstantExpr_body ::
    "('s, 'v, 't, 'f, 'b) llvm \<Rightarrow> (NodeId \<Rightarrow> ('s, 'v, 't, 'f, 'v option) cg)
      \<Rightarrow> NodeId \<Rightarrow> ('s, 'v, 't, 'f, 'v option) cg" where
  "evaluateConstantExpr_body L ev exprId =
     (if exprId = kNullNode then cret None
      else cbnd (node_at exprId) (\<lambda>node.
        if is_kind node LiteralExpr then
          cbnd (getNodeSnippet exprId) (\<lambda>snippet. literal_value L node snippet not_constexpr)
        else if is_kind node IdentifierExpr then
          cbnd (getNodeSnippet exprId) (\<lambda>name. ctfe_identifier L name)
        else if is_kind node BinaryExpr then
          cbnd (ev (word1 node)) (\<lambda>lhs.
          cbnd (ev (word2 node)) (\<lambda>rhs. ctfe_binary L node lhs rhs))
        else not_constexpr))"

section \<open>Monotone handlers\<close>

text \<open>
  \<open>m\<close> is below \<open>m'\<close> when it agrees with it wherever it returns; the handlers are monotone in
  the functions they call, which is what \<open>partial_function\<close> needs.
\<close>

definition cbelow :: "('s, 'v, 't, 'f, 'a) cg \<Rightarrow> ('s, 'v, 't, 'f, 'a) cg \<Rightarrow> bool" where
  "cbelow m m' \<longleftrightarrow> (\<forall>s. m s = None \<or> m s = m' s)"

named_theorems cbelow_intros

lemma cbelow_refl [cbelow_intros]: "cbelow m m"
  by (simp add: cbelow_def)

lemma cbelow_cbnd [cbelow_intros]:
  assumes "cbelow m m'" and "\<And>a. cbelow (f a) (f' a)"
  shows "cbelow (cbnd m f) (cbnd m' f')"
  unfolding cbelow_def
proof
  fix s
  have "m s = None \<or> m s = m' s" using assms(1) by (auto simp: cbelow_def)
  then show "cbnd m f s = None \<or> cbnd m f s = cbnd m' f' s"
    using assms(2) by (elim disjE) (auto simp: cbnd_def cbelow_def split: option.split sum.split)
qed

lemma cbelow_cseq [cbelow_intros]: "cbelow m m' \<Longrightarrow> cbelow k k' \<Longrightarrow> cbelow (cseq m k) (cseq m' k')"
  unfolding cseq_def by (intro cbelow_intros)

lemma cbelow_if [cbelow_intros]:
  "cbelow m m' \<Longrightarrow> cbelow k k' \<Longrightarrow> cbelow (if b then m else k) (if b then m' else k')"
  by simp

lemma cbelow_option [cbelow_intros]:
  "cbelow m m' \<Longrightarrow> (\<And>a. cbelow (f a) (f' a)) \<Longrightarrow>
    cbelow (case x of None \<Rightarrow> m | Some a \<Rightarrow> f a) (case x of None \<Rightarrow> m' | Some a \<Rightarrow> f' a)"
  by (simp split: option.split)

lemma cbelow_evaluateConstantExpr_body:
  "(\<And>i. cbelow (ev i) (ev' i)) \<Longrightarrow>
    cbelow (evaluateConstantExpr_body L ev i) (evaluateConstantExpr_body L ev' i)"
  unfolding evaluateConstantExpr_body_def by (intro cbelow_intros)

text \<open>A handler as one function of LLVM, the node and the state, and the order on them.\<close>

definition call_of :: "('l \<times> 'i \<times> 'x \<Rightarrow> 'y) \<Rightarrow> 'l \<Rightarrow> 'i \<Rightarrow> 'x \<Rightarrow> 'y" where
  "call_of f L i s = f (L, i, s)"

lemma cbelow_call_of:
  assumes "fun_ord option_ord f f'"
  shows "cbelow (call_of f L j) (call_of f' L j)"
  using assms by (auto simp: cbelow_def call_of_def fun_ord_def flat_ord_def)

lemma cbelow_option_ord: "cbelow m m' \<Longrightarrow> option_ord (m s) (m' s)"
  by (auto simp: cbelow_def flat_ord_def)

lemma evaluateConstantExpr_mono [partial_function_mono]:
  "monotone (fun_ord option_ord) option_ord
    (\<lambda>f. evaluateConstantExpr_body L (call_of f L) i s)"
  by (intro monotoneI cbelow_option_ord cbelow_evaluateConstantExpr_body cbelow_call_of)

partial_function (option) eval_const ::
    "('s, 'v, 't, 'f, 'b) llvm \<times> NodeId \<times> ('s, 'v, 't, 'f) Compiler
      \<Rightarrow> (cg_stop + 'v option \<times> ('s, 'v, 't, 'f) Compiler) option" where
  "eval_const x =
     evaluateConstantExpr_body (fst x) (call_of eval_const (fst x)) (fst (snd x)) (snd (snd x))"

definition evaluateConstantExpr ::
    "('s, 'v, 't, 'f, 'b) llvm \<Rightarrow> NodeId \<Rightarrow> ('s, 'v, 't, 'f, 'v option) cg" where
  "evaluateConstantExpr L = call_of eval_const L"

lemma evaluateConstantExpr_eq:
  "evaluateConstantExpr L i = evaluateConstantExpr_body L (evaluateConstantExpr L) i"
  by (rule ext, simp only: evaluateConstantExpr_def, subst call_of_def, subst eval_const.simps, simp)

declare eval_const.simps [code]

section \<open>Code generation\<close>

text \<open>The nodes after the translation unit, one after the other; the value of the last.\<close>

primrec visit_all ::
    "(NodeId \<Rightarrow> ('s, 'v, 't, 'f, 'v option) cg) \<Rightarrow> nat list \<Rightarrow> 'v option
      \<Rightarrow> ('s, 'v, 't, 'f, 'v option) cg" where
  "visit_all cg [] lastVal = cret lastVal"
| "visit_all cg (i # is) lastVal = cbnd (cg (of_nat i)) (visit_all cg is)"

definition codegenTranslationUnit ::
    "(NodeId \<Rightarrow> ('s, 'v, 't, 'f, 'v option) cg) \<Rightarrow> NodeId \<Rightarrow> ('s, 'v, 't, 'f, 'v option) cg" where
  "codegenTranslationUnit cg i =
     cseq pushScope
     (cbnd (look (\<lambda>s. length (ctree s))) (\<lambda>n.
      cbnd (visit_all cg [unat (i + 1)..<n] None) (\<lambda>lastVal.
      cseq popScope (cret lastVal))))"

text \<open>The function the builder inserts into.\<close>

definition current_function :: "('s, 'v, 't, 'f, 'b) llvm \<Rightarrow> 's \<Rightarrow> 'f option" where
  "current_function L ls = Option.bind (getInsertBlock L ls) (\<lambda>bb. getParent L bb ls)"

definition declare_local ::
    "('s, 'v, 't, 'f, 'b) llvm \<Rightarrow> 'f \<Rightarrow> string \<Rightarrow> 't \<Rightarrow> bool \<Rightarrow> 'v option
      \<Rightarrow> ('s, 'v, 't, 'f, 'v option) cg" where
  "declare_local L fn varName varType c initVal =
     cbnd (llvm_call (createAlloca L fn varType varName)) (\<lambda>alloca.
     cseq (case initVal of None \<Rightarrow> cret () | Some v \<Rightarrow> llvm_call (createStore L v alloca))
     (cseq (declare_symbol varName \<lparr>sym_value = Some alloca, sym_type = varType,
        sym_isConst = c, sym_isCompileTime = False\<rparr>)
     (cret (Some alloca))))"

definition declare_global ::
    "('s, 'v, 't, 'f, 'b) llvm \<Rightarrow> string \<Rightarrow> 't \<Rightarrow> bool \<Rightarrow> 'v option
      \<Rightarrow> ('s, 'v, 't, 'f, 'v option) cg" where
  "declare_global L varName varType c initVal =
     cbnd (deref initVal) (\<lambda>v.
     cbnd (llvm_call (createGlobal L varType c (if isConstant L v then Some v else None) varName)) (\<lambda>globalVar.
     cseq (declare_symbol varName \<lparr>sym_value = Some globalVar, sym_type = varType,
        sym_isConst = c, sym_isCompileTime = False\<rparr>)
     (cret (Some globalVar))))"

definition codegenVarDecl ::
    "('s, 'v, 't, 'f, 'b) llvm \<Rightarrow> (NodeId \<Rightarrow> ('s, 'v, 't, 'f, 'v option) cg) \<Rightarrow> NodeId
      \<Rightarrow> ('s, 'v, 't, 'f, 'v option) cg" where
  "codegenVarDecl L cg i =
     cbnd (node_at i) (\<lambda>node.
     cbnd (getNodeSnippet (word1 node)) (\<lambda>varName.
     cbnd (resolveType L (word0 node)) (\<lambda>varType.
       if isConstexpr (qualifiers node) then
         cbnd (evaluateConstantExpr L (word2 node)) (\<lambda>constVal.
         cseq (declare_symbol varName \<lparr>sym_value = constVal, sym_type = varType,
           sym_isConst = True, sym_isCompileTime = True\<rparr>)
         (cret constVal))
       else
         cbnd (if word2 node \<noteq> kNullNode then cg (word2 node)
               else cbnd (deref (getNullValue L varType)) (\<lambda>v. cret (Some v))) (\<lambda>initVal.
         cbnd (llvm_look (current_function L)) (\<lambda>currentFn.
           case currentFn of
             None \<Rightarrow> declare_global L varName varType (isConst (qualifiers node)) initVal
           | Some fn \<Rightarrow> declare_local L fn varName varType (isConst (qualifiers node)) initVal)))))"

definition codegenTypeDecl ::
    "('s, 'v, 't, 'f, 'b) llvm \<Rightarrow> NodeId \<Rightarrow> ('s, 'v, 't, 'f, 'v option) cg" where
  "codegenTypeDecl L i =
     cbnd (node_at i) (\<lambda>node.
     cbnd (getNodeSnippet (word1 node)) (\<lambda>typeName.
     cbnd (resolveType L (word2 node)) (\<lambda>aliasedType.
     cseq (declare_type typeName aliasedType) (cret None))))"

definition finish_function ::
    "('s, 'v, 't, 'f, 'b) llvm \<Rightarrow> 't \<Rightarrow> ('s, 'v, 't, 'f, unit) cg" where
  "finish_function L retType =
     cbnd (llvm_look (getInsertBlock L)) (\<lambda>block.
     cbnd (deref block) (\<lambda>bb.
     cbnd (llvm_look (hasTerminator L bb)) (\<lambda>terminated.
       if \<not> terminated then
         if isVoidTy L retType then cseq (llvm_call (createRetVoid L)) (cret ())
         else cbnd (deref (getNullValue L retType)) (\<lambda>v.
           cseq (llvm_call (createRet L (Some v))) (cret ()))
       else cret ())))"

definition codegenFunctionDecl ::
    "('s, 'v, 't, 'f, 'b) llvm \<Rightarrow> (NodeId \<Rightarrow> ('s, 'v, 't, 'f, 'v option) cg) \<Rightarrow> NodeId
      \<Rightarrow> ('s, 'v, 't, 'f, 'v option) cg" where
  "codegenFunctionDecl L cg i =
     cbnd (node_at i) (\<lambda>node.
     cbnd (getNodeSnippet (word1 node)) (\<lambda>fnName.
     cbnd (resolveType L (word0 node)) (\<lambda>retType.
     cbnd (llvm_call (createFunction L retType [] fnName)) (\<lambda>fn.
     cseq (declare_function fnName \<lparr>llvmFunc = fn, declNodeId = i, allParams = [], runtimeParams = []\<rparr>)
     (cbnd (llvm_call (createBlock L ''entry'' (Some fn))) (\<lambda>entryBB.
     cseq (llvm_call (setInsertPoint L entryBB))
     (cseq pushScope
     (cseq (if word2 node \<noteq> kNullNode then cg (word2 node) else cret None)
     (cseq (finish_function L retType)
     (cseq popScope
     (cseq (llvm_call (verifyFunction L fn))
     (cret (Some (functionValue L fn))))))))))))))"

section \<open>Expressions\<close>

definition binary_op :: "bool \<Rightarrow> Node \<Rightarrow> (binop \<times> string) option" where
  "binary_op isFloat node =
     (if has_op node Plus then Some (if isFloat then Op_FAdd else Op_Add, ''addtmp'')
      else if has_op node Minus then Some (if isFloat then Op_FSub else Op_Sub, ''subtmp'')
      else if has_op node Star then Some (if isFloat then Op_FMul else Op_Mul, ''multmp'')
      else if has_op node Slash then Some (if isFloat then Op_FDiv else Op_SDiv, ''divtmp'')
      else if has_op node EEquals then Some (if isFloat then Op_FCmpOEQ else Op_ICmpEQ, ''eqtmp'')
      else if has_op node NEquals then Some (if isFloat then Op_FCmpONE else Op_ICmpNE, ''netmp'')
      else if has_op node Lesser then Some (if isFloat then Op_FCmpOLT else Op_ICmpSLT, ''lttmp'')
      else if has_op node LeEquals then Some (if isFloat then Op_FCmpOLE else Op_ICmpSLE, ''letmp'')
      else if has_op node Greater then Some (if isFloat then Op_FCmpOGT else Op_ICmpSGT, ''gttmp'')
      else if has_op node GrEquals then Some (if isFloat then Op_FCmpOGE else Op_ICmpSGE, ''getmp'')
      else None)"

definition emit_binary ::
    "('s, 'v, 't, 'f, 'b) llvm \<Rightarrow> Node \<Rightarrow> 'v \<Rightarrow> 'v \<Rightarrow> ('s, 'v, 't, 'f, 'v option) cg" where
  "emit_binary L node lhs rhs =
     (case binary_op (isFloatTy L (getType L lhs) \<or> isFloatTy L (getType L rhs)) node of
        Some (opcode, name) \<Rightarrow>
          cbnd (llvm_call (createBinary L opcode lhs rhs name)) (\<lambda>v. cret (Some v))
      | None \<Rightarrow>
          if has_op node Equals then
            if isAlloca L lhs then cseq (llvm_call (createStore L rhs lhs)) (cret (Some rhs))
            else stop_with (Runtime_error ''LLVM CodeGen Error: Invalid LHS assignment target'')
          else stop_with (Runtime_error ''LLVM CodeGen Error: Unsupported binary operator''))"

definition codegenBinaryExpr ::
    "('s, 'v, 't, 'f, 'b) llvm \<Rightarrow> (NodeId \<Rightarrow> ('s, 'v, 't, 'f, 'v option) cg) \<Rightarrow> NodeId
      \<Rightarrow> ('s, 'v, 't, 'f, 'v option) cg" where
  "codegenBinaryExpr L cg i =
     cbnd (node_at i) (\<lambda>node.
     cbnd (cg (word1 node)) (\<lambda>lhs.
     cbnd (cg (word2 node)) (\<lambda>rhs.
       case lhs of
         None \<Rightarrow> cret None
       | Some l \<Rightarrow> (case rhs of None \<Rightarrow> cret None | Some r \<Rightarrow> emit_binary L node l r))))"

definition codegenUnaryExpr ::
    "('s, 'v, 't, 'f, 'b) llvm \<Rightarrow> (NodeId \<Rightarrow> ('s, 'v, 't, 'f, 'v option) cg) \<Rightarrow> NodeId
      \<Rightarrow> ('s, 'v, 't, 'f, 'v option) cg" where
  "codegenUnaryExpr L cg i =
     cbnd (node_at i) (\<lambda>node.
       if has_op node kReturn then
         if word1 node \<noteq> kNullNode then
           cbnd (cg (word1 node)) (\<lambda>retVal.
           cbnd (llvm_call (createRet L retVal)) (\<lambda>v. cret (Some v)))
         else cbnd (llvm_call (createRetVoid L)) (\<lambda>v. cret (Some v))
       else
         cbnd (cg (word1 node)) (\<lambda>operand.
           if has_op node Minus then
             cbnd (deref operand) (\<lambda>x.
             cbnd (llvm_call (createUnary L (if isFloatTy L (getType L x) then Op_FNeg else Op_Neg)
               operand ''negtmp'')) (\<lambda>v. cret (Some v)))
           else if has_op node Excl then
             cbnd (llvm_call (createUnary L Op_Not operand ''nottmp'')) (\<lambda>v. cret (Some v))
           else cret None))"

definition codegenLiteralExpr ::
    "('s, 'v, 't, 'f, 'b) llvm \<Rightarrow> NodeId \<Rightarrow> ('s, 'v, 't, 'f, 'v option) cg" where
  "codegenLiteralExpr L i =
     cbnd (getNodeSnippet i) (\<lambda>litStr.
     cbnd (node_at i) (\<lambda>node. literal_value L node litStr (cret None)))"

definition codegenIdentifierExpr ::
    "('s, 'v, 't, 'f, 'b) llvm \<Rightarrow> NodeId \<Rightarrow> ('s, 'v, 't, 'f, 'v option) cg" where
  "codegenIdentifierExpr L i =
     cbnd (getNodeSnippet i) (\<lambda>varName.
     cbnd (look (\<lambda>s. lookupVar (scopes s) varName)) (\<lambda>found.
       case found of
         None \<Rightarrow> stop_with (Runtime_error
           (''LLVM CodeGen Error: Undefined symbol '' @ CHR 0x27 # varName @ [CHR 0x27]))
       | Some x \<Rightarrow>
           cbnd (deref (sym_value x)) (\<lambda>v.
             if isAlloca L v then
               cbnd (llvm_call (createLoad L (sym_type x) v varName)) (\<lambda>l. cret (Some l))
             else cret (Some v))))"

text \<open>The loop over \<open>allParams\<close>: every parameter gets the same argument list node.\<close>

primrec call_args ::
    "('s, 'v, 't, 'f, 'b) llvm \<Rightarrow> (NodeId \<Rightarrow> ('s, 'v, 't, 'f, 'v option) cg) \<Rightarrow> NodeId
      \<Rightarrow> 't ParamInfo list \<Rightarrow> 'v option list \<Rightarrow> ('s, 'v, 't, 'f, 'v option list) cg" where
  "call_args L cg argNodeId [] llvmArgs = cret llvmArgs"
| "call_args L cg argNodeId (param # params) llvmArgs =
     (if param_isCompileTime param then
        cbnd (evaluateConstantExpr L argNodeId) (\<lambda>constVal. call_args L cg argNodeId params llvmArgs)
      else
        cbnd (cg argNodeId) (\<lambda>runtimeVal. call_args L cg argNodeId params (llvmArgs @ [runtimeVal])))"

definition call_name :: "('s, 'v, 't, 'f, 'b) llvm \<Rightarrow> 'f \<Rightarrow> string" where
  "call_name L fn = (if isVoidTy L (getReturnType L fn) then [] else ''calltmp'')"

definition codegenCallExpr ::
    "('s, 'v, 't, 'f, 'b) llvm \<Rightarrow> (NodeId \<Rightarrow> ('s, 'v, 't, 'f, 'v option) cg) \<Rightarrow> NodeId
      \<Rightarrow> ('s, 'v, 't, 'f, 'v option) cg" where
  "codegenCallExpr L cg i =
     cbnd (node_at i) (\<lambda>node.
     cbnd (getNodeSnippet (word0 node)) (\<lambda>fnName.
     cbnd (look (\<lambda>s. lookupFunc (scopes s) fnName)) (\<lambda>fnInfo.
       case fnInfo of
         None \<Rightarrow>
           cbnd (llvm_look (getFunction L fnName)) (\<lambda>external.
             case external of
               None \<Rightarrow> stop_with (Runtime_error
                 (''LLVM CodeGen Error: Unknown function call target '' @ CHR 0x27 # fnName @ [CHR 0x27]))
             | Some externalFn \<Rightarrow>
                 cbnd (if word1 node \<noteq> kNullNode then cbnd (cg (word1 node)) (\<lambda>a. cret [a])
                       else cret []) (\<lambda>args.
                 cbnd (llvm_call (createCall L externalFn args (call_name L externalFn))) (\<lambda>v.
                 cret (Some v))))
       | Some info \<Rightarrow>
           cbnd (call_args L cg (word1 node) (allParams info) []) (\<lambda>llvmArgs.
           cbnd (llvm_call (createCall L (llvmFunc info) llvmArgs (call_name L (llvmFunc info)))) (\<lambda>v.
           cret (Some v))))))"

section \<open>Branches and loops\<close>

text \<open>\<open>builder->GetInsertBlock()->getParent()\<close>\<close>

definition insert_function :: "('s, 'v, 't, 'f, 'b) llvm \<Rightarrow> ('s, 'v, 't, 'f, 'f option) cg" where
  "insert_function L =
     cbnd (llvm_look (getInsertBlock L)) (\<lambda>block.
     cbnd (deref block) (\<lambda>bb. llvm_look (getParent L bb)))"

text \<open>\<open>if (!builder->GetInsertBlock()->getTerminator()) builder->CreateBr(bb)\<close>\<close>

definition branch_to :: "('s, 'v, 't, 'f, 'b) llvm \<Rightarrow> 'b \<Rightarrow> ('s, 'v, 't, 'f, unit) cg" where
  "branch_to L target =
     cbnd (llvm_look (getInsertBlock L)) (\<lambda>block.
     cbnd (deref block) (\<lambda>bb.
     cbnd (llvm_look (hasTerminator L bb)) (\<lambda>terminated.
       if \<not> terminated then llvm_call (createBr L target) else cret ())))"

definition codegenEvalExpr ::
    "('s, 'v, 't, 'f, 'b) llvm \<Rightarrow> (NodeId \<Rightarrow> ('s, 'v, 't, 'f, 'v option) cg) \<Rightarrow> NodeId
      \<Rightarrow> ('s, 'v, 't, 'f, 'v option) cg" where
  "codegenEvalExpr L cg i =
     cbnd (node_at i) (\<lambda>node.
     cbnd (cg (word0 node)) (\<lambda>condVal.
     cbnd (insert_function L) (\<lambda>fn.
     cbnd (llvm_call (createBlock L ''then'' fn)) (\<lambda>thenBB.
     cbnd (llvm_call (createBlock L ''else'' None)) (\<lambda>elseBB.
     cbnd (llvm_call (createBlock L ''ifcont'' None)) (\<lambda>mergeBB.
     cseq (llvm_call (createCondBr L condVal thenBB elseBB))
     (cseq (llvm_call (setInsertPoint L thenBB))
     (cseq (cg (word1 node))
     (cseq (branch_to L mergeBB)
     (cbnd (deref fn) (\<lambda>f.
     cseq (llvm_call (insertBlock L f elseBB))
     (cseq (llvm_call (setInsertPoint L elseBB))
     (cseq (if word2 node \<noteq> kNullNode then cg (word2 node) else cret None)
     (cseq (branch_to L mergeBB)
     (cseq (llvm_call (insertBlock L f mergeBB))
     (cseq (llvm_call (setInsertPoint L mergeBB))
     (cret None)))))))))))))))))"

text \<open>
  The token is read from the member \<open>data.unary\<close> of the union, where the parser has stored
  three node ids for a loop.
\<close>

definition codegenCompileTimeJump ::
    "('s, 'v, 't, 'f, 'b) llvm \<Rightarrow> (NodeId \<Rightarrow> ('s, 'v, 't, 'f, 'v option) cg) \<Rightarrow> NodeId
      \<Rightarrow> ('s, 'v, 't, 'f, 'v option) cg" where
  "codegenCompileTimeJump L cg i =
     cbnd (node_at i) (\<lambda>node.
       if has_op node kBreak \<or> has_op node kContinue then cret None
       else
         cbnd (insert_function L) (\<lambda>fn.
         cbnd (llvm_call (createBlock L ''loop.cond'' fn)) (\<lambda>loopCondBB.
         cbnd (llvm_call (createBlock L ''loop.body'' fn)) (\<lambda>loopBodyBB.
         cbnd (llvm_call (createBlock L ''loop.end'' fn)) (\<lambda>loopEndBB.
         cseq (llvm_call (createBr L loopCondBB))
         (cseq (llvm_call (setInsertPoint L loopCondBB))
         (cbnd (cg (word0 node)) (\<lambda>cond.
         cseq (llvm_call (createCondBr L cond loopBodyBB loopEndBB))
         (cseq (llvm_call (setInsertPoint L loopBodyBB))
         (cseq (cg (word1 node))
         (cseq (llvm_call (createBr L loopCondBB))
         (cbnd (deref fn) (\<lambda>f.
         cseq (llvm_call (insertBlock L f loopEndBB))
         (cseq (llvm_call (setInsertPoint L loopEndBB))
         (cret None)))))))))))))))"

section \<open>The dispatch\<close>

definition codegen_body ::
    "('s, 'v, 't, 'f, 'b) llvm \<Rightarrow> (NodeId \<Rightarrow> ('s, 'v, 't, 'f, 'v option) cg) \<Rightarrow> NodeId
      \<Rightarrow> ('s, 'v, 't, 'f, 'v option) cg" where
  "codegen_body L cg i =
     (if i = kNullNode then cret None
      else cbnd (node_at i) (\<lambda>node.
        if is_kind node TranslationUnit then codegenTranslationUnit cg i
        else if is_kind node VarDecl then codegenVarDecl L cg i
        else if is_kind node TypeDecl then codegenTypeDecl L i
        else if is_kind node FunctionDecl then codegenFunctionDecl L cg i
        else if is_kind node BinaryExpr then codegenBinaryExpr L cg i
        else if is_kind node UnaryExpr then codegenUnaryExpr L cg i
        else if is_kind node LiteralExpr then codegenLiteralExpr L i
        else if is_kind node IdentifierExpr then codegenIdentifierExpr L i
        else if is_kind node CallExpr then codegenCallExpr L cg i
        else if is_kind node EvalExpr then codegenEvalExpr L cg i
        else if is_kind node CompileTimeJump then codegenCompileTimeJump L cg i
        else cret None))"

lemma cbelow_visit_all [cbelow_intros]:
  "(\<And>j. cbelow (cg j) (cg' j)) \<Longrightarrow> cbelow (visit_all cg is v) (visit_all cg' is v)"
  by (induction "is" arbitrary: v) (simp_all add: cbelow_intros)

lemma cbelow_call_args [cbelow_intros]:
  "(\<And>j. cbelow (cg j) (cg' j)) \<Longrightarrow> cbelow (call_args L cg a ps vs) (call_args L cg' a ps vs)"
  by (induction ps arbitrary: vs) (simp_all add: cbelow_intros)

lemma cbelow_codegen_body:
  assumes [cbelow_intros]: "\<And>j. cbelow (cg j) (cg' j)"
  shows "cbelow (codegen_body L cg i) (codegen_body L cg' i)"
  unfolding codegen_body_def codegenTranslationUnit_def codegenVarDecl_def codegenFunctionDecl_def
    codegenBinaryExpr_def codegenUnaryExpr_def codegenCallExpr_def codegenEvalExpr_def
    codegenCompileTimeJump_def
  by (intro cbelow_intros)

lemma codegen_mono [partial_function_mono]:
  "monotone (fun_ord option_ord) option_ord (\<lambda>f. codegen_body L (call_of f L) i s)"
  by (intro monotoneI cbelow_option_ord cbelow_codegen_body cbelow_call_of)

partial_function (option) codegen_call ::
    "('s, 'v, 't, 'f, 'b) llvm \<times> NodeId \<times> ('s, 'v, 't, 'f) Compiler
      \<Rightarrow> (cg_stop + 'v option \<times> ('s, 'v, 't, 'f) Compiler) option" where
  "codegen_call x = codegen_body (fst x) (call_of codegen_call (fst x)) (fst (snd x)) (snd (snd x))"

definition codegen ::
    "('s, 'v, 't, 'f, 'b) llvm \<Rightarrow> NodeId \<Rightarrow> ('s, 'v, 't, 'f, 'v option) cg" where
  "codegen L = call_of codegen_call L"

lemma codegen_eq: "codegen L i = codegen_body L (codegen L) i"
  by (rule ext, simp only: codegen_def, subst call_of_def, subst codegen_call.simps, simp)

declare codegen_call.simps [code]

text \<open>
  \<open>compile\<close> catches every \<open>std::exception\<close> and answers \<open>false\<close>; a crash is not an exception.
\<close>

datatype compile_result = Returned bool | Crashed

definition compile ::
    "('s, 'v, 't, 'f, 'b) llvm \<Rightarrow> ('s, 'v, 't, 'f) Compiler \<Rightarrow> compile_result option" where
  "compile L s =
     (if ctree s = [] then Some (Returned True)
      else map_option (\<lambda>r. case r of
          Inl e \<Rightarrow> if e = Crash then Crashed else Returned False
        | Inr _ \<Rightarrow> Returned True) (codegen L 0 s))"

end
