(* ===== verification/Compiler_Inv.thy ===== *)
theory Compiler_Inv
  imports Compiler
begin

text \<open>
  Rules that carry an invariant of the compiler's state, and termination where it is asked for,
  through the handlers of \<open>Compiler\<close>. What the handlers do to the scopes is the interface
  \<open>scope_invariant\<close>: an invariant for each depth of nested scopes that the operations on scopes
  move between. Every handler, and with them \<open>codegen\<close>, keeps an invariant with these laws. Two
  are given: the names of the variables in scope are declared in the tree, and the scopes around
  the current one stay as they are.
\<close>

section \<open>Invariants of handlers\<close>

text \<open>
  From a state with \<open>I\<close> the handler returns, if \<open>t\<close> is set, and a value leaves a state with
  \<open>J\<close>; \<open>holds\<close> is the case of an invariant.
\<close>

definition goes ::
    "bool \<Rightarrow> (('s, 'v, 't, 'f) Compiler \<Rightarrow> bool) \<Rightarrow> ('s, 'v, 't, 'f, 'a) cg
      \<Rightarrow> (('s, 'v, 't, 'f) Compiler \<Rightarrow> bool) \<Rightarrow> bool" where
  "goes t I m J \<longleftrightarrow>
     (\<forall>s. I s \<longrightarrow> (case m s of None \<Rightarrow> \<not> t | Some (Inl _) \<Rightarrow> True | Some (Inr (a, s')) \<Rightarrow> J s'))"

abbreviation holds ::
    "bool \<Rightarrow> (('s, 'v, 't, 'f) Compiler \<Rightarrow> bool) \<Rightarrow> ('s, 'v, 't, 'f, 'a) cg \<Rightarrow> bool" where
  "holds t I m \<equiv> goes t I m I"

named_theorems holds_intros

lemma holds_cret [holds_intros]: "holds t I (cret a)"
  by (simp add: goes_def cret_def)

lemma holds_stop_with [holds_intros]: "holds t I (stop_with e)"
  by (simp add: goes_def stop_with_def)

lemma holds_look [holds_intros]: "holds t I (look g)"
  by (simp add: goes_def look_def)

lemma holds_llvm_look [holds_intros]: "holds t I (llvm_look g)"
  by (simp add: llvm_look_def holds_look)

lemma holds_deref [holds_intros]: "holds t I (deref x)"
  by (simp add: deref_def holds_intros split: option.split)

lemma holds_throwing [holds_intros]: "holds t I (throwing r)"
  by (simp add: throwing_def holds_intros split: sum.split)

lemma holds_if [holds_intros]:
  "(b \<Longrightarrow> holds t I m) \<Longrightarrow> (\<not> b \<Longrightarrow> holds t I k) \<Longrightarrow> holds t I (if b then m else k)"
  by simp

lemma holds_option [holds_intros]:
  "holds t I m \<Longrightarrow> (\<And>a. holds t I (f a)) \<Longrightarrow> holds t I (case x of None \<Rightarrow> m | Some a \<Rightarrow> f a)"
  by (simp split: option.split)

lemma holds_prod [holds_intros]:
  "(\<And>a b. holds t I (f a b)) \<Longrightarrow> holds t I (case x of (a, b) \<Rightarrow> f a b)"
  by (simp split: prod.split)

text \<open>What a handler returns, and its invariant along a sequence.\<close>

definition returns ::
    "('s, 'v, 't, 'f, 'a) cg \<Rightarrow> ('s, 'v, 't, 'f) Compiler \<Rightarrow> 'a \<Rightarrow> ('s, 'v, 't, 'f) Compiler \<Rightarrow> bool" where
  "returns m s a s' \<longleftrightarrow> m s = Some (Inr (a, s'))"

lemma returns_simps [simp]:
  "returns (cret a) s b s' \<longleftrightarrow> b = a \<and> s' = s"
  "returns (stop_with e) s b s' \<longleftrightarrow> False"
  "returns (look g) s c s' \<longleftrightarrow> c = g s \<and> s' = s"
  "returns (deref x) s d s' \<longleftrightarrow> x = Some d \<and> s' = s"
  by (auto simp: returns_def cret_def stop_with_def look_def deref_def split: option.split)

lemma returns_cbnd:
  "returns (cbnd m f) s a s' \<longleftrightarrow> (\<exists>b s1. returns m s b s1 \<and> returns (f b) s1 a s')"
  by (auto simp: returns_def cbnd_def split: option.split sum.split)

lemma returns_cseq:
  "returns (cseq m k) s a s' \<longleftrightarrow> (\<exists>b s1. returns m s b s1 \<and> returns k s1 a s')"
  by (simp add: cseq_def returns_cbnd)

lemma returns_if: "returns (if b then m else k) s a s' \<longleftrightarrow> (if b then returns m s a s' else returns k s a s')"
  by simp

lemma goes_returns: "goes t I m J \<Longrightarrow> I s \<Longrightarrow> returns m s a s' \<Longrightarrow> J s'"
  by (auto simp: goes_def returns_def)

lemma goes_any: "goes True I m J \<Longrightarrow> goes t I m J"
  by (auto simp: goes_def split: option.splits)

lemma goes_cbnd':
  assumes "goes t I m J" and "\<And>s a s'. I s \<Longrightarrow> returns m s a s' \<Longrightarrow> goes t J (f a) K"
  shows "goes t I (cbnd m f) K"
  unfolding goes_def
proof (intro allI impI)
  fix s assume s: "I s"
  show "case cbnd m f s of None \<Rightarrow> \<not> t | Some (Inl _) \<Rightarrow> True | Some (Inr (a, s')) \<Rightarrow> K s'"
  proof (cases "m s")
    case None
    then show ?thesis using assms(1) s by (simp add: goes_def cbnd_def) force
  next
    case (Some r)
    show ?thesis
    proof (cases r)
      case (Inr p)
      obtain a s' where p: "p = (a, s')" by (cases p)
      then have ret: "returns m s a s'" using Some Inr by (simp add: returns_def)
      then have "J s'" by (rule goes_returns [OF assms(1) s])
      with assms(2) [OF s ret] show ?thesis using Some Inr p by (simp add: goes_def cbnd_def)
    qed (simp add: Some cbnd_def)
  qed
qed

lemma goes_cbnd: "goes t I m J \<Longrightarrow> (\<And>a. goes t J (f a) K) \<Longrightarrow> goes t I (cbnd m f) K"
  by (rule goes_cbnd')

lemma goes_cseq: "goes t I m J \<Longrightarrow> goes t J k K \<Longrightarrow> goes t I (cseq m k) K"
  unfolding cseq_def by (rule goes_cbnd)

lemmas holds_cbnd [holds_intros] = goes_cbnd [of t I _ I _ I] for t I
lemmas holds_cseq [holds_intros] = goes_cseq [of t I _ I _ I] for t I

text \<open>
  The invariants used here speak of the tree, the source and the scopes: a call of LLVM keeps
  them.
\<close>

definition llvm_free :: "(('s, 'v, 't, 'f) Compiler \<Rightarrow> bool) \<Rightarrow> bool" where
  "llvm_free I \<longleftrightarrow> (\<forall>s ls. I s \<longrightarrow> I (s\<lparr>llvm_state := ls\<rparr>))"

lemma holds_llvm_call [holds_intros]: "llvm_free I \<Longrightarrow> holds t I (llvm_call g)"
  by (auto simp: goes_def llvm_call_def llvm_free_def split: option.split)

text \<open>The text of a node, as \<open>getNodeSnippet\<close> answers it.\<close>

definition node_text :: "Node list \<Rightarrow> string \<Rightarrow> NodeId \<Rightarrow> string" where
  "node_text nodes src i =
     (if i = kNullNode then []
      else let node = get nodes i in
        if sourceLength node = 0
            \<or> length src < unat (sourceOffset node + ucast (sourceLength node)) then []
        else substr src (unat (sourceOffset node)) (unat (sourceLength node)))"

lemma returns_node_at [simp]:
  "returns (node_at i) s n s' \<longleftrightarrow> valid_id (ctree s) i \<and> n = get (ctree s) i \<and> s' = s"
  by (auto simp: returns_def node_at_def cret_def)

lemma holds_node_at [holds_intros]: "holds t I (node_at i)"
  by (simp add: goes_def node_at_def cret_def)

lemma returns_getNodeSnippet:
  "returns (getNodeSnippet i) s x s' \<Longrightarrow> s' = s \<and> x = node_text (ctree s) (csource s) i"
  by (auto simp: returns_def getNodeSnippet_def node_text_def cbnd_def node_at_def cret_def Let_def
      split: if_splits)

lemma holds_getNodeSnippet [holds_intros]: "holds t I (getNodeSnippet i)"
  by (simp add: goes_def getNodeSnippet_def cbnd_def node_at_def cret_def)

text \<open>The nodes that the code of a node is generated from.\<close>

definition callees :: "Node list \<Rightarrow> NodeId \<Rightarrow> NodeId list" where
  "callees nodes i =
     (let n = get nodes i in
      if is_kind n TranslationUnit then map of_nat [unat (i + 1)..<length nodes]
      else if is_kind n VarDecl \<or> is_kind n FunctionDecl then [word2 n]
      else if is_kind n BinaryExpr then [word1 n, word2 n]
      else if is_kind n UnaryExpr \<or> is_kind n CallExpr then [word1 n]
      else if is_kind n EvalExpr then [word0 n, word1 n, word2 n]
      else if is_kind n CompileTimeJump \<and> \<not> (has_op n kBreak \<or> has_op n kContinue)
      then [word0 n, word1 n]
      else [])"

text \<open>The names of the variables a tree declares.\<close>

definition declared_names :: "Node list \<Rightarrow> string \<Rightarrow> string set" where
  "declared_names nodes src = {node_text nodes src (word1 n) | n. n \<in> set nodes \<and> is_kind n VarDecl}"

lemma is_kind_unique: "is_kind n j \<Longrightarrow> is_kind n k \<longleftrightarrow> j = k"
  by (auto simp: is_kind_def)

lemma holds_literal_value [holds_intros]:
  "holds t I other \<Longrightarrow> holds t I (literal_value L n x other)"
  unfolding literal_value_def by (intro holds_intros)

lemma holds_resolveType [holds_intros]: "holds t I (resolveType L i)"
  unfolding resolveType_def by (intro holds_intros)

lemma holds_visit_all:
  "(\<And>j. j \<in> set is \<Longrightarrow> holds t I (cg (of_nat j))) \<Longrightarrow> holds t I (visit_all cg is v)"
  by (induction "is" arbitrary: v) (simp_all add: holds_intros)

lemma holds_call_args:
  "holds t I (cg a) \<Longrightarrow> holds t I (evaluateConstantExpr L a) \<Longrightarrow> holds t I (call_args L cg a ps vs)"
  by (induction ps arbitrary: vs) (simp_all add: holds_intros)

lemma holds_parts [holds_intros]:
  assumes "llvm_free I"
  shows "holds t I (finish_function L ty)" and "holds t I (insert_function L)"
    and "holds t I (branch_to L bb)" and "holds t I (emit_binary L n l r)"
  unfolding finish_function_def insert_function_def branch_to_def emit_binary_def
  by (intro holds_intros assms)+

text \<open>Induction over the calls of \<open>codegen\<close> that return, and of the evaluator.\<close>

lemma codegen_returns_induct:
  assumes step: "\<And>cg i s a s'. (\<And>j s a s'. returns (cg j) s a s' \<Longrightarrow> P j s a s') \<Longrightarrow>
      returns (codegen_body L cg i) s a s' \<Longrightarrow> P i s a s'"
    and ret: "returns (codegen L i) s a s'"
  shows "P i s a s'"
proof -
  have call: "codegen_call (L, i, s) = Some (Inr (a, s'))"
    using ret by (simp add: returns_def codegen_def call_of_def)
  let ?Q = "\<lambda>x r. fst x = L \<longrightarrow> (\<forall>a s'. r = (Inr (a, s') :: cg_stop + _) \<longrightarrow> P (fst (snd x)) (snd (snd x)) a s')"
  have "?Q (L, i, s) (Inr (a, s'))"
  proof (rule codegen_call.raw_induct [where P = ?Q, OF _ call], intro impI allI)
    fix f x r a s'
    assume IH: "\<And>y r. f y = Some r \<Longrightarrow> ?Q y r"
      and eq: "codegen_body (fst x) (call_of f (fst x)) (fst (snd x)) (snd (snd x)) = Some r"
      and "fst x = L" "r = Inr (a, s')"
    then have "returns (codegen_body L (call_of f L) (fst (snd x))) (snd (snd x)) a s'"
      by (simp add: returns_def)
    moreover have "P j s a s'" if "returns (call_of f L j) s a s'" for j s a s'
      using IH [of "(L, j, s)" "Inr (a, s')"] that by (simp add: returns_def call_of_def)
    ultimately show "P (fst (snd x)) (snd (snd x)) a s'" by (rule step [rotated])
  qed
  then show ?thesis by simp
qed

lemma evaluate_returns_induct:
  assumes step: "\<And>ev i s a s'. (\<And>j s a s'. returns (ev j) s a s' \<Longrightarrow> P j s a s') \<Longrightarrow>
      returns (evaluateConstantExpr_body L ev i) s a s' \<Longrightarrow> P i s a s'"
    and ret: "returns (evaluateConstantExpr L i) s a s'"
  shows "P i s a s'"
proof -
  have call: "eval_const (L, i, s) = Some (Inr (a, s'))"
    using ret by (simp add: returns_def evaluateConstantExpr_def call_of_def)
  let ?Q = "\<lambda>x r. fst x = L \<longrightarrow> (\<forall>a s'. r = (Inr (a, s') :: cg_stop + _) \<longrightarrow> P (fst (snd x)) (snd (snd x)) a s')"
  have "?Q (L, i, s) (Inr (a, s'))"
  proof (rule eval_const.raw_induct [where P = ?Q, OF _ call], intro impI allI)
    fix f x r a s'
    assume IH: "\<And>y r. f y = Some r \<Longrightarrow> ?Q y r"
      and eq: "evaluateConstantExpr_body (fst x) (call_of f (fst x)) (fst (snd x)) (snd (snd x)) = Some r"
      and "fst x = L" "r = Inr (a, s')"
    then have "returns (evaluateConstantExpr_body L (call_of f L) (fst (snd x))) (snd (snd x)) a s'"
      by (simp add: returns_def)
    moreover have "P j s a s'" if "returns (call_of f L j) s a s'" for j s a s'
      using IH [of "(L, j, s)" "Inr (a, s')"] that by (simp add: returns_def call_of_def)
    ultimately show "P (fst (snd x)) (snd (snd x)) a s'" by (rule step [rotated])
  qed
  then show ?thesis by simp
qed

lemma holds_False_iff: "holds False I m \<longleftrightarrow> (\<forall>s a s'. I s \<longrightarrow> returns m s a s' \<longrightarrow> I s')"
  by (auto simp: goes_def returns_def split: option.split sum.split)

section \<open>Invariants of the scopes\<close>

locale scope_invariant =
  fixes nodes :: "Node list" and src :: string and N :: "string set"
    and I :: "nat \<Rightarrow> ('s, 'v, 't, 'f) Compiler \<Rightarrow> bool"
  assumes tree: "I k s \<Longrightarrow> ctree s = nodes \<and> csource s = src"
    and llvm: "llvm_free (I k)"
    and push: "I k s \<Longrightarrow> I (Suc k) (s\<lparr>scopes := empty_scope # scopes s\<rparr>)"
    and pop: "goes True (I (Suc k)) popScope (I k)"
    and type: "holds True (I k) (declare_type name ty)"
    and func: "holds True (I k) (declare_function name info)"
    and sym: "name \<in> N \<Longrightarrow> holds True (I k) (declare_symbol name x)"
begin

lemma pushScope: "goes t (I k) pushScope (I (Suc k))"
  by (simp add: goes_def pushScope_def cret_def push)

lemma popScope: "goes t (I (Suc k)) popScope (I k)"
  by (rule goes_any [OF pop])

lemma declare_symbol: "name \<in> N \<Longrightarrow> holds t (I k) (declare_symbol name x)"
  by (rule goes_any [OF sym])

lemma declares [holds_intros]:
  "llvm_free (I k)" "holds t (I k) (declare_type name ty)" "holds t (I k) (declare_function name info)"
  using llvm goes_any [OF type] goes_any [OF func] by blast+

lemma holds_node:
  assumes "valid_id nodes i \<Longrightarrow> holds t (I k) (f (get nodes i))"
  shows "holds t (I k) (cbnd (node_at i) f)"
  using assms by (intro goes_cbnd' [OF holds_node_at]) (auto dest: tree)

lemma holds_snippet:
  assumes "holds t (I k) (f (node_text nodes src i))"
  shows "holds t (I k) (cbnd (getNodeSnippet i) f)"
proof (rule goes_cbnd' [OF holds_getNodeSnippet])
  fix s a s'
  assume "I k s" and "returns (getNodeSnippet i) s a s'"
  then have "a = node_text nodes src i" by (auto dest: returns_getNodeSnippet tree)
  then show "holds t (I k) (f a)" using assms by simp
qed

lemma holds_evaluateConstantExpr_body:
  assumes "\<And>c. valid_id nodes i \<Longrightarrow> is_kind (get nodes i) BinaryExpr \<Longrightarrow>
      c \<in> set (callees nodes i) \<Longrightarrow> holds t (I k) (ev c)"
  shows "holds t (I k) (evaluateConstantExpr_body L ev i)"
  unfolding evaluateConstantExpr_body_def ctfe_identifier_def ctfe_binary_def not_constexpr_def
  by (rule holds_if holds_node holds_cret)+
    (rule holds_intros assms | assumption | simp add: callees_def Let_def is_kind_unique)+

lemma holds_codegen_body:
  assumes callee: "\<And>k c. i \<noteq> kNullNode \<Longrightarrow> valid_id nodes i \<Longrightarrow> c \<in> set (callees nodes i) \<Longrightarrow>
      holds t (I k) (cg c)"
    and const: "\<And>k c. i \<noteq> kNullNode \<Longrightarrow> valid_id nodes i \<Longrightarrow> \<not> is_kind (get nodes i) TranslationUnit \<Longrightarrow>
      c \<in> set (callees nodes i) \<Longrightarrow> holds t (I k) (evaluateConstantExpr L c)"
    and names: "declared_names nodes src \<subseteq> N"
  shows "holds t (I k) (codegen_body L cg i)"
proof -
  let ?H = "holds t (I k)" and ?J = "holds t (I (Suc k))"
  let ?n = "get nodes i"
  have body: "?H (if is_kind ?n TranslationUnit then codegenTranslationUnit cg i
        else if is_kind ?n VarDecl then codegenVarDecl L cg i
        else if is_kind ?n TypeDecl then codegenTypeDecl L i
        else if is_kind ?n FunctionDecl then codegenFunctionDecl L cg i
        else if is_kind ?n BinaryExpr then codegenBinaryExpr L cg i
        else if is_kind ?n UnaryExpr then codegenUnaryExpr L cg i
        else if is_kind ?n LiteralExpr then codegenLiteralExpr L i
        else if is_kind ?n IdentifierExpr then codegenIdentifierExpr L i
        else if is_kind ?n CallExpr then codegenCallExpr L cg i
        else if is_kind ?n EvalExpr then codegenEvalExpr L cg i
        else if is_kind ?n CompileTimeJump then codegenCompileTimeJump L cg i
        else cret None)"
    if i: "i \<noteq> kNullNode" "valid_id nodes i"
  proof (intro holds_if)
    note cg = callee [OF i] and ev = const [OF i]
    show "?H (codegenTranslationUnit cg i)" if u: "is_kind ?n TranslationUnit"
    proof -
      have "?J (cg (of_nat j))" if "j \<in> set [unat (i + 1)..<length nodes]" for j
        using that by (intro cg) (simp add: callees_def Let_def u)
      then have visit: "?J (visit_all cg [unat (i + 1)..<length nodes] None)" by (rule holds_visit_all)
      have "goes t (I (Suc k)) (cbnd (look (\<lambda>s. length (ctree s))) (\<lambda>n.
          cbnd (visit_all cg [unat (i + 1)..<n] None) (\<lambda>lastVal. cseq popScope (cret lastVal)))) (I k)"
      proof (rule goes_cbnd' [OF holds_look])
        fix s n s'
        assume "I (Suc k) s" "returns (look (\<lambda>s. length (ctree s))) s n s'"
        then have "n = length nodes" using tree by fastforce
        with visit show "goes t (I (Suc k)) (cbnd (visit_all cg [unat (i + 1)..<n] None)
            (\<lambda>lastVal. cseq popScope (cret lastVal))) (I k)"
          by (intro goes_cbnd [OF _ goes_cseq [OF popScope holds_cret]]) simp
      qed
      then show ?thesis unfolding codegenTranslationUnit_def by (rule goes_cseq [OF pushScope])
    qed
    show "?H (codegenVarDecl L cg i)" if "is_kind ?n VarDecl"
    proof -
      have "?n \<in> set nodes" using i(2) by (simp add: valid_id_def get_def)
      with that names have N: "node_text nodes src (word1 ?n) \<in> N"
        by (auto simp: declared_names_def)
      have "word2 ?n \<in> set (callees nodes i)" "\<not> is_kind ?n TranslationUnit"
        using that by (simp_all add: callees_def Let_def is_kind_unique)
      then have "?H (cg (word2 ?n))" "?H (evaluateConstantExpr L (word2 ?n))" using cg ev by simp_all
      then show ?thesis
        unfolding codegenVarDecl_def declare_local_def declare_global_def
        by (intro holds_node holds_snippet holds_intros declare_symbol N)
    qed
    show "?H (codegenTypeDecl L i)"
      unfolding codegenTypeDecl_def by (intro holds_intros)
    show "?H (codegenFunctionDecl L cg i)" if "is_kind ?n FunctionDecl"
    proof -
      have cg: "?J (cg (word2 ?n))" using that by (intro cg) (simp add: callees_def Let_def is_kind_unique)
      have body: "?J (if word2 ?n \<noteq> kNullNode then cg (word2 ?n) else cret None)"
        by (intro holds_if cg holds_cret)
      have leave: "goes t (I (Suc k)) (cseq popScope (cseq (llvm_call v) (cret r))) (I k)"
        for v :: "'s \<Rightarrow> (unit \<times> 's) option" and r
        by (rule goes_cseq [OF popScope]) (intro holds_intros)
      have scope: "?H (cseq pushScope (cseq (if word2 ?n \<noteq> kNullNode then cg (word2 ?n) else cret None)
          (cseq (finish_function L ty) (cseq popScope (cseq (llvm_call v) (cret r))))))"
        for ty r and v :: "'s \<Rightarrow> (unit \<times> 's) option"
        by (rule goes_cseq [OF pushScope goes_cseq [OF body goes_cseq [OF _ leave]]]) (intro holds_intros)
      show ?thesis unfolding codegenFunctionDecl_def
        by (rule holds_node) (intro scope holds_intros)
    qed
    show "?H (codegenBinaryExpr L cg i)" if "is_kind ?n BinaryExpr"
      using that unfolding codegenBinaryExpr_def
      by (intro holds_node) (intro holds_intros cg; simp add: callees_def Let_def is_kind_unique)
    show "?H (codegenUnaryExpr L cg i)" if "is_kind ?n UnaryExpr"
      using that unfolding codegenUnaryExpr_def
      by (intro holds_node) (intro holds_intros cg; simp add: callees_def Let_def is_kind_unique)
    show "?H (codegenLiteralExpr L i)"
      unfolding codegenLiteralExpr_def by (intro holds_intros)
    show "?H (codegenIdentifierExpr L i)"
      unfolding codegenIdentifierExpr_def by (intro holds_intros)
    show "?H (codegenCallExpr L cg i)" if "is_kind ?n CallExpr"
      using that unfolding codegenCallExpr_def
      by (intro holds_node) (intro holds_intros holds_call_args cg ev; simp add: callees_def Let_def is_kind_unique)
    show "?H (codegenEvalExpr L cg i)" if "is_kind ?n EvalExpr"
      using that unfolding codegenEvalExpr_def
      by (intro holds_node) (intro holds_intros cg; simp add: callees_def Let_def is_kind_unique)
    show "?H (codegenCompileTimeJump L cg i)" if "is_kind ?n CompileTimeJump"
      using that unfolding codegenCompileTimeJump_def
      by (intro holds_node) (intro holds_intros cg; simp add: callees_def Let_def is_kind_unique)
  qed (rule holds_cret)
  show ?thesis
    unfolding codegen_body_def by (intro holds_if holds_cret holds_node body)
qed

lemma evaluate_keeps: "holds False (I k) (evaluateConstantExpr L i)"
proof -
  have "I k s \<Longrightarrow> I k s'" if "returns (evaluateConstantExpr L i) s a s'" for s a s'
    using that
  proof (rule evaluate_returns_induct [where P = "\<lambda>i s a s'. \<forall>k. I k s \<longrightarrow> I k s'",
        THEN spec, THEN mp, rotated])
    fix ev i s a s'
    assume "\<And>j s a s'. returns (ev j) s a s' \<Longrightarrow> \<forall>k. I k s \<longrightarrow> I k s'"
      and ret: "returns (evaluateConstantExpr_body L ev i) s a s'"
    then have "holds False (I k) (evaluateConstantExpr_body L ev i)" for k
      by (intro holds_evaluateConstantExpr_body) (auto simp: holds_False_iff)
    with ret show "\<forall>k. I k s \<longrightarrow> I k s'" by (auto simp: holds_False_iff)
  qed
  then show ?thesis by (auto simp: holds_False_iff)
qed

lemma codegen_keeps:
  assumes "declared_names nodes src \<subseteq> N"
  shows "holds False (I k) (codegen L i)"
proof -
  have "I k s \<Longrightarrow> I k s'" if "returns (codegen L i) s a s'" for s a s'
    using that
  proof (rule codegen_returns_induct [where P = "\<lambda>i s a s'. \<forall>k. I k s \<longrightarrow> I k s'",
        THEN spec, THEN mp, rotated])
    fix cg i s a s'
    assume "\<And>j s a s'. returns (cg j) s a s' \<Longrightarrow> \<forall>k. I k s \<longrightarrow> I k s'"
      and ret: "returns (codegen_body L cg i) s a s'"
    then have "holds False (I k) (codegen_body L cg i)" for k
      by (intro holds_codegen_body assms evaluate_keeps) (auto simp: holds_False_iff)
    with ret show "\<forall>k. I k s \<longrightarrow> I k s'" by (auto simp: holds_False_iff)
  qed
  then show ?thesis by (auto simp: holds_False_iff)
qed

end

section \<open>The names in scope\<close>

text \<open>
  Tree and source stay as they are, and the variables in scope have names in \<open>N\<close>.
\<close>

definition cinv :: "Node list \<Rightarrow> string \<Rightarrow> string set \<Rightarrow> ('s, 'v, 't, 'f) Compiler \<Rightarrow> bool" where
  "cinv nodes src N s \<longleftrightarrow> ctree s = nodes \<and> csource s = src \<and>
     (\<forall>sc \<in> set (scopes s). dom (symbols sc) \<subseteq> N)"

lemma cinv_init: "cinv nodes src N (init_compiler nodes src ls)"
  by (simp add: cinv_def init_compiler_def empty_scope_def)

lemma cinv_update_scope:
  assumes "\<And>sc. dom (symbols sc) \<subseteq> N \<Longrightarrow> dom (symbols (g sc)) \<subseteq> N"
  shows "holds t (cinv nodes src N) (update_scope g)"
  using assms by (auto simp: goes_def update_scope_def cret_def cinv_def split: list.split)

interpretation names: scope_invariant nodes src N "\<lambda>_. cinv nodes src N" for nodes src N
proof unfold_locales
  fix k s name ty info x
  show "llvm_free (cinv nodes src N)" by (simp add: llvm_free_def cinv_def)
  show "cinv nodes src N s \<Longrightarrow> ctree s = nodes \<and> csource s = src" by (simp add: cinv_def)
  show "cinv nodes src N s \<Longrightarrow> cinv nodes src N (s\<lparr>scopes := empty_scope # scopes s\<rparr>)"
    by (simp add: cinv_def empty_scope_def)
  show "holds True (cinv nodes src N) popScope"
    by (auto simp: goes_def popScope_def cret_def cinv_def split: list.split)
  show "holds True (cinv nodes src N) (declare_type name ty)"
    and "holds True (cinv nodes src N) (declare_function name info)"
    unfolding declare_type_def declare_function_def by (rule cinv_update_scope, simp)+
  show "name \<in> N \<Longrightarrow> holds True (cinv nodes src N) (declare_symbol name x)"
    unfolding declare_symbol_def by (rule cinv_update_scope) auto
qed

lemma lookupVar_cinv:
  assumes "cinv nodes src N s" and "lookupVar (scopes s) name = Some x"
  shows "name \<in> N"
proof -
  have "(\<forall>sc \<in> set ps. dom (symbols sc) \<subseteq> N) \<Longrightarrow> lookupVar ps name = Some x \<Longrightarrow> name \<in> N" for ps
    by (induction ps) (auto split: option.splits)
  from this [of "scopes s"] assms show ?thesis by (simp add: cinv_def)
qed

section \<open>The scopes around the current one\<close>

text \<open>At depth \<open>k\<close>, the chain has \<open>k + 1\<close> scopes in front of \<open>base\<close>.\<close>

definition around ::
    "Node list \<Rightarrow> string \<Rightarrow> ('v, 't, 'f) Scope list \<Rightarrow> nat \<Rightarrow> ('s, 'v, 't, 'f) Compiler \<Rightarrow> bool" where
  "around nodes src base k s \<longleftrightarrow> ctree s = nodes \<and> csource s = src \<and>
     (\<exists>front. scopes s = front @ base \<and> length front = Suc k)"

lemma around_update_scope: "holds t (around nodes src base k) (update_scope g)"
  unfolding goes_def
proof (intro allI impI)
  fix s :: "('a, 'b, 'c, 'd) Compiler"
  assume "around nodes src base k s"
  then obtain sc front where "ctree s = nodes" "csource s = src" "scopes s = (sc # front) @ base" "length front = k"
    by (auto simp: around_def length_Suc_conv)
  then show "case update_scope g s of None \<Rightarrow> \<not> t | Some (Inl _) \<Rightarrow> True
      | Some (Inr (a, s')) \<Rightarrow> around nodes src base k s'"
    by (auto simp: update_scope_def cret_def around_def intro!: exI [of _ "g sc # front"])
qed

lemma around_popScope: "goes True (around nodes src base (Suc k)) popScope (around nodes src base k)"
  by (auto simp: goes_def popScope_def cret_def around_def length_Suc_conv)

interpretation outer: scope_invariant nodes src UNIV "around nodes src base" for nodes src base
proof unfold_locales
  fix k s name ty info x
  show "llvm_free (around nodes src base k)" by (simp add: llvm_free_def around_def)
  show "around nodes src base k s \<Longrightarrow> ctree s = nodes \<and> csource s = src" by (simp add: around_def)
  show "around nodes src base k s \<Longrightarrow> around nodes src base (Suc k) (s\<lparr>scopes := empty_scope # scopes s\<rparr>)"
    by (auto simp: around_def)
  show "goes True (around nodes src base (Suc k)) popScope (around nodes src base k)"
    by (rule around_popScope)
  show "holds True (around nodes src base k) (declare_type name ty)"
    and "holds True (around nodes src base k) (declare_function name info)"
    and "holds True (around nodes src base k) (declare_symbol name x)"
    unfolding declare_type_def declare_function_def declare_symbol_def by (rule around_update_scope)+
qed

end
