(* ===== verification/Compiler_Props.thy ===== *)
theory Compiler_Props
  imports Compiler_Inv Parser_Props
begin

text \<open>
  Properties of the code generator of \<open>Compiler\<close>, on the invariants of \<open>Compiler_Inv\<close>: generating
  code leaves the scopes around the current one as they are; compilation returns on the trees
  without nested blocks; a program that uses a name which no variable has, or that has a block
  or a loop, is never compiled; an assignment to a name is refused.
\<close>

section \<open>A stand-in for LLVM\<close>

text \<open>
  A small stand-in for LLVM, for running the definitions: values and types are the names of what
  makes them, the state is the list of the operations so far.
\<close>

definition sample_op :: "string \<Rightarrow> string list \<Rightarrow> (string \<times> string list) option" where
  "sample_op name tr = Some (name, tr @ [name])"

definition sample_step :: "string \<Rightarrow> string list \<Rightarrow> (unit \<times> string list) option" where
  "sample_step name tr = Some ((), tr @ [name])"

definition sample_llvm :: "(string list, string, string, string, string) llvm" where
  "sample_llvm = \<lparr>int32Ty = ''i32'', floatTy = ''float'', int1Ty = ''i1'', int8Ty = ''i8'', voidTy = ''void'',
     isFloatTy = (\<lambda>ty. ty = ''float''), isVoidTy = (\<lambda>ty. ty = ''void''), getType = (\<lambda>_. ''i32''),
     getInt32 = (\<lambda>n. string_of_nat (unat n)), getTrue = ''1'', getFalse = ''0'',
     constantFP = (\<lambda>_. ''0.0''), getNullValue = (\<lambda>ty. if ty = ''void'' then None else Some ''0''),
     isConstant = (\<lambda>_. True), isAlloca = (\<lambda>v. v = ''alloca''),
     foldBinary = (\<lambda>_ l _ _. Some (Some l)), createBinary = (\<lambda>_ _ _ n. sample_op n),
     createUnary = (\<lambda>_ _ n. sample_op n), createAlloca = (\<lambda>_ _ _. sample_op ''alloca''),
     createStore = (\<lambda>_ _. sample_step ''store''), createLoad = (\<lambda>_ _ _. sample_op ''load''),
     createGlobal = (\<lambda>_ _ _ _. sample_op ''global''), createFunction = (\<lambda>_ _ _. sample_op ''define''),
     createBlock = (\<lambda>n _. sample_op n), insertBlock = (\<lambda>_ _. sample_step ''insert''),
     setInsertPoint = (\<lambda>_. sample_step ''point''), getInsertBlock = (\<lambda>_. None),
     getParent = (\<lambda>_ _. None), hasTerminator = (\<lambda>_ _. False), createRet = (\<lambda>_. sample_op ''ret''),
     createRetVoid = sample_op ''ret void'', createCondBr = (\<lambda>_ _ _. sample_step ''br''),
     createBr = (\<lambda>_. sample_step ''br''), getFunction = (\<lambda>_ _. None), getReturnType = (\<lambda>_. ''i32''),
     createCall = (\<lambda>_ _ _. sample_op ''call''), functionValue = (\<lambda>f. f),
     verifyFunction = (\<lambda>_. sample_step ''verify''), stof = (\<lambda>_. None)\<rparr>"

section \<open>What a translation unit visits\<close>

lemma visit_all_each:
  assumes "returns (visit_all cg is v) s a s'" and "I s" and "\<And>j. holds False I (cg j)" and "j \<in> set is"
  shows "\<exists>s1 b s2. I s1 \<and> returns (cg (of_nat j)) s1 b s2"
  using assms
proof (induction "is" arbitrary: v s)
  case (Cons i "is")
  then obtain b s1 where first: "returns (cg (of_nat i)) s b s1" and rest: "returns (visit_all cg is b) s1 a s'"
    by (auto simp: returns_cbnd)
  have "I s1" using Cons.prems(2,3) first by (auto simp: holds_False_iff)
  with Cons first rest show ?case by auto
qed simp

text \<open>What a translation unit that returns has visited.\<close>

lemma unit_visits:
  assumes ret: "returns (codegen_body L cg i) s a s'" and I: "cinv nodes src N s"
    and keep: "\<And>j. holds False (cinv nodes src N) (cg j)"
    and i: "i \<noteq> kNullNode" "is_kind (get nodes i) TranslationUnit"
    and j: "unat (i + 1) \<le> j" "j < length nodes"
  shows "\<exists>s1 b s2. cinv nodes src N s1 \<and> returns (cg (of_nat j)) s1 b s2"
proof -
  have tree: "ctree s = nodes" using I by (simp add: cinv_def)
  have "returns (codegenTranslationUnit cg i) s a s'"
    using ret i tree by (simp add: codegen_body_def returns_cbnd)
  then obtain s1 c s2 n where push: "returns pushScope s () s1" and "n = length (ctree s1)"
      and visit: "returns (visit_all cg [unat (i + 1)..<n] None) s1 c s2"
    by (auto simp: codegenTranslationUnit_def returns_cseq returns_cbnd)
  moreover have I1: "cinv nodes src N s1"
    by (rule goes_returns [OF names.pushScope I push])
  ultimately have "returns (visit_all cg [unat (i + 1)..<length nodes] None) s1 c s2"
    by (simp add: cinv_def)
  from visit_all_each [OF this I1 keep, of j] j show ?thesis by auto
qed

section \<open>Scopes\<close>

lemma unit_scopes:
  assumes "returns (codegen L i) s v s'" and "i \<noteq> kNullNode"
    and "is_kind (get (ctree s) i) TranslationUnit" and "scopes s \<noteq> []"
  shows "scopes s' = scopes s"
proof -
  let ?I = "around (ctree s) (csource s) (scopes s) 0"
  have "returns (codegenTranslationUnit (codegen L) i) s v s'"
    using assms(1-3) by (subst (asm) codegen_eq) (simp add: codegen_body_def returns_cbnd)
  then obtain s1 n s2 where push: "returns pushScope s () s1"
      and visit: "returns (visit_all (codegen L) [unat (i + 1)..<n] None) s1 v s2"
      and pop: "returns popScope s2 () s'"
    by (auto simp: codegenTranslationUnit_def returns_cseq returns_cbnd)
  have "?I s1" using push by (auto simp: returns_def pushScope_def cret_def around_def)
  moreover have "holds False ?I (visit_all (codegen L) [unat (i + 1)..<n] None)"
    by (rule holds_visit_all [OF outer.codegen_keeps]) simp
  ultimately have "?I s2" using visit by (blast intro: goes_returns)
  then obtain sc where "scopes s2 = sc # scopes s" by (auto simp: around_def length_Suc_conv)
  with pop assms(4) show ?thesis
    by (auto simp: returns_def popScope_def cret_def split: list.splits)
qed

text \<open>C33: Scopes nest. Whatever node code is generated for, when \<open>codegen\<close> returns, the current
scope is again the one it was called in, with its entries possibly changed, and the scopes
around it are exactly what they were; a translation unit or block leaves the current scope
unchanged as well. Tree and source are never changed.\<close>

theorem codegen_scopes:
  assumes "codegen L i s = Some (Inr (v, s'))" and "scopes s = sc # parents"
  shows "(\<exists>sc'. scopes s' = sc' # parents) \<and> ctree s' = ctree s \<and> csource s' = csource s \<and>
    (i \<noteq> kNullNode \<longrightarrow> is_kind (get (ctree s) i) TranslationUnit \<longrightarrow> scopes s' = scopes s)"
proof -
  let ?I = "around (ctree s) (csource s) parents 0"
  have ret: "returns (codegen L i) s v s'" using assms(1) by (simp add: returns_def)
  have "?I s" using assms(2) by (simp add: around_def)
  from goes_returns [OF outer.codegen_keeps [OF subset_UNIV] this ret] have "?I s'" .
  then show ?thesis
    using unit_scopes [OF ret] assms(2) by (auto simp: around_def length_Suc_conv)
qed

theorem codegen_scopes_witness:
  "case parse_source ''int int = 1;'' of
     Some (Inr nodes) \<Rightarrow>
       (case codegen sample_llvm 0 (init_compiler nodes ''int int = 1;'' []) of
          Some (Inr (v, s')) \<Rightarrow> scopes s' = [empty_scope]
        | _ \<Rightarrow> False)
   | _ \<Rightarrow> False"
proof -
  let ?src = "''int int = 1;''"
  have "case parse_source ?src of
      Some (Inr nodes) \<Rightarrow> is_kind (nodes ! 0) TranslationUnit \<and>
        (case codegen sample_llvm 0 (init_compiler nodes ?src []) of
          Some (Inr (v, s')) \<Rightarrow> True | _ \<Rightarrow> False)
    | _ \<Rightarrow> False"
    by code_simp
  moreover have "scopes s' = [empty_scope]"
    if "codegen sample_llvm 0 (init_compiler nodes ?src []) = Some (Inr (v, s'))"
      and "is_kind (nodes ! 0) TranslationUnit" for nodes v s'
    using codegen_scopes [OF that(1), of empty_scope "[]"] that(2)
    by (simp add: init_compiler_def get_def kNullNode_def)
  ultimately show ?thesis by (auto split: option.splits sum.splits)
qed

section \<open>Undeclared names\<close>

text \<open>Code for an identifier is generated only when a variable in scope has its name.\<close>

lemma identifier_declared:
  assumes ret: "returns (codegen L j) s a s'" and I: "cinv nodes src N s"
    and j: "j \<noteq> kNullNode" "is_kind (get nodes j) IdentifierExpr"
  shows "node_text nodes src j \<in> N"
proof -
  have tree: "ctree s = nodes" "csource s = src" using I by (simp_all add: cinv_def)
  have "returns (codegenIdentifierExpr L j) s a s'"
    using ret j(1) is_kind_unique [OF j(2)]
    by (subst (asm) codegen_eq) (simp add: codegen_body_def returns_cbnd tree)
  then obtain x s1 where snip: "returns (getNodeSnippet j) s x s1" and "lookupVar (scopes s1) x \<noteq> None"
    by (auto simp: codegenIdentifierExpr_def returns_cbnd split: option.splits)
  with returns_getNodeSnippet [OF snip] tree obtain y where
    "lookupVar (scopes s) (node_text nodes src j) = Some y" by auto
  then show ?thesis by (rule lookupVar_cinv [OF I])
qed

lemma compile_returns_root:
  assumes "compile L (init_compiler nodes src ls) = Some (Returned True)" and "nodes \<noteq> []"
  shows "\<exists>a s'. returns (codegen L 0) (init_compiler nodes src ls) a s'"
proof -
  let ?s = "init_compiler nodes src ls"
  from assms obtain r where r: "codegen L 0 ?s = Some r"
      "(case r of Inl e \<Rightarrow> if e = Crash then Crashed else Returned False | Inr _ \<Rightarrow> Returned True) = Returned True"
    by (auto simp: compile_def init_compiler_def)
  then obtain p where "r = Inr p" by (cases r) (auto split: if_splits)
  with r(1) show ?thesis by (cases p) (auto simp: returns_def)
qed

lemma compile_declares_all:
  assumes "compile L (init_compiler nodes src ls) = Some (Returned True)"
    and "nodes \<noteq> []" and "is_kind (nodes ! 0) TranslationUnit" and "length nodes < 2 ^ 32"
    and "0 < j" and "j < length nodes" and "is_kind (nodes ! j) IdentifierExpr"
  shows "node_text nodes src (of_nat j) \<in> declared_names nodes src"
proof -
  let ?I = "cinv nodes src (declared_names nodes src)"
  obtain a s' where "returns (codegen L 0) (init_compiler nodes src ls) a s'"
    using compile_returns_root [OF assms(1,2)] by blast
  then have root: "returns (codegen_body L (codegen L) 0) (init_compiler nodes src ls) a s'"
    by (simp only: codegen_eq [of L 0])
  have unit: "is_kind (get nodes 0) TranslationUnit" using assms(3) by (simp add: get_def)
  have id: "unat (of_nat j :: u32) = j" using assms(4,6) by (simp add: unat_of_nat_lt)
  have not_null: "of_nat j \<noteq> kNullNode"
  proof
    assume "of_nat j = kNullNode"
    then have "j = unat kNullNode" using id by simp
    then show False using assms(4,6) by (simp add: kNullNode_def)
  qed
  have null0: "0 \<noteq> kNullNode" and first: "unat (0 + 1 :: u32) \<le> j"
    using assms(5) by (simp_all add: kNullNode_def)
  obtain s1 b s2 where I: "?I s1" and ret: "returns (codegen L (of_nat j)) s1 b s2"
    using unit_visits [OF root cinv_init names.codegen_keeps [OF order_refl] null0 unit first assms(6)] by blast
  show ?thesis
    using identifier_declared [OF ret I not_null] assms(7) id by (simp add: get_def)
qed

text \<open>The trees of the parser, as the compiler gets them.\<close>

lemma parsed_tree:
  assumes "length src < 2 ^ 30 - 4" and "parse_source src = Some (Inr nodes)"
  shows "nodes \<noteq> []" and "is_kind (nodes ! 0) TranslationUnit" and "length nodes < 2 ^ 32 - 1"
    and "tree_wf nodes"
  using parse_source_ok [OF assms(1)] assms
  by (auto simp: prefix_def is_kind_def new_node_def)

text \<open>C30: A program is never compiled when its tree has an identifier whose text is not the name
of a variable the program declares. The translation unit generates code for every node of the
tree, so this includes the names of types (\<open>int\<close> in \<open>int x;\<close>), of functions and of calls.\<close>

theorem undeclared_name_not_compiled:
  assumes "length src < 2 ^ 30 - 4" and "parse_source src = Some (Inr nodes)"
    and "j < length nodes" and "is_kind (nodes ! j) IdentifierExpr"
    and "node_text nodes src (of_nat j) \<notin> declared_names nodes src"
  shows "compile L (init_compiler nodes src ls) \<noteq> Some (Returned True)"
proof
  assume success: "compile L (init_compiler nodes src ls) = Some (Returned True)"
  note tree = parsed_tree [OF assms(1,2)]
  have "j \<noteq> 0"
  proof
    assume "j = 0"
    with tree(2) assms(4) show False by (simp add: is_kind_unique)
  qed
  with compile_declares_all [OF success tree(1,2) _ _ assms(3,4)] tree(3) assms(5) show False by simp
qed

theorem undeclared_name_not_compiled_witness:
  "\<exists>nodes. parse_source ''int x;'' = Some (Inr nodes) \<and>
    compile sample_llvm (init_compiler nodes ''int x;'' []) \<noteq> Some (Returned True)"
proof -
  let ?src = "''int x;''"
  obtain nodes where nodes: "parse_source ?src = Some (Inr nodes)"
      "length nodes = 4" "is_kind (nodes ! 2) IdentifierExpr"
      "node_text nodes ?src 2 \<notin> declared_names nodes ?src"
  proof -
    have "(case parse_source ?src of Some (Inr ns) \<Rightarrow> length ns = 4 \<and> is_kind (ns ! 2) IdentifierExpr \<and>
        node_text ns ?src 2 \<notin> (\<lambda>n. node_text ns ?src (word1 n)) ` set (filter (\<lambda>n. is_kind n VarDecl) ns)
      | _ \<Rightarrow> False)"
      by code_simp
    then show thesis
      by (auto simp: declared_names_def intro!: that split: option.splits sum.splits)
  qed
  then have "compile sample_llvm (init_compiler nodes ?src []) \<noteq> Some (Returned True)"
    by (intro undeclared_name_not_compiled [of ?src nodes 2]) simp_all
  with nodes(1) show ?thesis by blast
qed

section \<open>Nested blocks\<close>

text \<open>A handler that never returns a value from a state with \<open>I\<close>.\<close>

definition no_value ::
    "(('s, 'v, 't, 'f) Compiler \<Rightarrow> bool) \<Rightarrow> ('s, 'v, 't, 'f, 'a) cg \<Rightarrow> bool" where
  "no_value I m \<longleftrightarrow> (\<forall>s a s'. I s \<longrightarrow> \<not> returns m s a s')"

lemma no_value_first: "no_value I m \<Longrightarrow> no_value I (cseq m k)"
  by (simp add: no_value_def returns_cseq)

lemma no_value_later:
  "holds False I m \<Longrightarrow> (\<And>a. no_value I (f a)) \<Longrightarrow> no_value I (cbnd m f)"
  by (auto simp: no_value_def returns_cbnd holds_False_iff)

lemma no_value_after: "holds False I m \<Longrightarrow> no_value I k \<Longrightarrow> no_value I (cseq m k)"
  unfolding cseq_def by (rule no_value_later)

lemma no_value_node:
  "no_value (cinv nodes src N) (f (get nodes i)) \<Longrightarrow> no_value (cinv nodes src N) (cbnd (node_at i) f)"
  by (auto simp: no_value_def returns_cbnd cinv_def)

lemma callees_children:
  assumes "\<not> is_kind (get nodes i) TranslationUnit"
  shows "set (callees nodes i) \<subseteq> set (children (get nodes i))"
proof -
  let ?n = "get nodes i"
  have "has_op ?n kBreak \<or> has_op ?n kContinue"
    if "word0 ?n = ucast (tt_byte kBreak) \<or> word0 ?n = ucast (tt_byte kContinue)"
    using that by (auto simp: has_op_def data_op_def)
  then show ?thesis
    using assms by (auto simp: callees_def children_def Let_def is_kind_def)
qed

text \<open>
  The blocks of a node that its code includes: the body of a function, the branches of an \<open>if\<close>
  and the body of a loop (unless the loop is taken for a \<open>break\<close> or \<open>continue\<close>).
\<close>

definition block_of :: "Node \<Rightarrow> NodeId \<Rightarrow> bool" where
  "block_of n b \<longleftrightarrow>
     is_kind n FunctionDecl \<and> b = word2 n \<or>
     is_kind n EvalExpr \<and> (b = word1 n \<or> b = word2 n) \<or>
     is_kind n CompileTimeJump \<and> \<not> (has_op n kBreak \<or> has_op n kContinue) \<and> b = word1 n"

lemma block_of_callees: "block_of (get nodes i) b \<Longrightarrow> b \<in> set (callees nodes i)"
  by (auto simp: block_of_def callees_def Let_def is_kind_unique)

lemma block_of_kind: "block_of n b \<Longrightarrow> \<not> is_kind n TranslationUnit"
  by (auto simp: block_of_def is_kind_unique)

lemma owner_no_value:
  assumes n: "get nodes i = n" "block_of n b" and null: "i \<noteq> kNullNode" "b \<noteq> kNullNode"
    and keep: "\<And>j. holds False (cinv nodes src N) (cg j)" and b: "no_value (cinv nodes src N) (cg b)"
  shows "no_value (cinv nodes src N) (codegen_body L cg i)"
proof -
  let ?I = "cinv nodes src N"
  have body: "no_value ?I (codegen_body L cg i)"
    if "no_value ?I m" and "\<And>s a s'. ?I s \<Longrightarrow> returns (codegen_body L cg i) s a s' \<Longrightarrow> returns m s a s'" for m
    using that by (auto simp: no_value_def)
  from n(2) consider (func) "is_kind n FunctionDecl" "b = word2 n"
    | (branch) "is_kind n EvalExpr" "b = word1 n \<or> b = word2 n"
    | (loop) "is_kind n CompileTimeJump" "\<not> (has_op n kBreak \<or> has_op n kContinue)" "b = word1 n"
    by (auto simp: block_of_def)
  then show ?thesis
  proof cases
    case func
    have "no_value ?I (codegenFunctionDecl L cg i)"
      unfolding codegenFunctionDecl_def using b func null
      by (intro no_value_node, unfold n)
        (intro no_value_later no_value_after names.pushScope names.declares holds_intros no_value_first, simp)
    then show ?thesis
      by (rule body) (use func null n(1) in \<open>simp add: codegen_body_def returns_cbnd cinv_def is_kind_unique\<close>)
  next
    case branch
    have "no_value ?I (codegenEvalExpr L cg i)"
      unfolding codegenEvalExpr_def using b branch(2) null
      by (intro no_value_node, unfold n, elim disjE)
        (intro no_value_later no_value_after keep holds_intros no_value_first, simp)+
    then show ?thesis
      by (rule body) (use branch null n(1) in \<open>simp add: codegen_body_def returns_cbnd cinv_def is_kind_unique\<close>)
  next
    case loop
    have "no_value ?I (codegenCompileTimeJump L cg i)"
      unfolding codegenCompileTimeJump_def using b loop null
      by (intro no_value_node, unfold n if_not_P [OF loop(2)])
        (intro no_value_later no_value_after keep holds_intros no_value_first, simp)
    then show ?thesis
      by (rule body) (use loop null n(1) in \<open>simp add: codegen_body_def returns_cbnd cinv_def is_kind_unique\<close>)
  qed
qed

text \<open>
  A block is a translation unit whose node comes before the node it belongs to: generating its
  code visits that node again. No call of \<open>codegen\<close> on the node, or on a translation unit before
  it, returns a value.
\<close>

lemma block_no_value:
  assumes ret: "returns (codegen L i) s a s'" and I: "cinv nodes src UNIV s"
    and f: "f < length nodes" "length nodes < 2 ^ 32 - 1" "block_of (nodes ! f) b"
    and b: "unat b < f" "is_kind (get nodes b) TranslationUnit"
  shows "\<not> (unat i = f \<or> is_kind (get nodes i) TranslationUnit \<and> unat i < f)"
proof -
  let ?I = "cinv nodes src UNIV"
  let ?bad = "\<lambda>i. unat i = f \<or> is_kind (get nodes i) TranslationUnit \<and> unat i < f"
  have null: "i \<noteq> kNullNode" if "?bad i" for i
    using that f(1,2) by (auto simp: kNullNode_def)
  from ret have "?I s \<longrightarrow> ?I s' \<and> \<not> ?bad i"
  proof (rule codegen_returns_induct [where P = "\<lambda>i s a s'. ?I s \<longrightarrow> ?I s' \<and> \<not> ?bad i", rotated], intro impI conjI notI)
    fix cg i s a s'
    assume IH: "\<And>j s a s'. returns (cg j) s a s' \<Longrightarrow> ?I s \<longrightarrow> ?I s' \<and> \<not> ?bad j"
      and ret: "returns (codegen_body L cg i) s a s'" and I: "?I s"
    have keep: "holds False ?I (cg j)" for j using IH by (auto simp: holds_False_iff)
    then have "holds False ?I (codegen_body L cg i)"
      by (intro names.holds_codegen_body names.evaluate_keeps) simp_all
    then show "?I s'" using ret I by (auto simp: holds_False_iff)
    assume bad: "?bad i"
    show False
    proof (cases "unat i = f")
      case True
      then have n: "get nodes i = nodes ! f" by (simp add: get_def)
      have "no_value ?I (cg b)" using IH b by (auto simp: no_value_def)
      then have "no_value ?I (codegen_body L cg i)"
        using null b by (intro owner_no_value [OF n f(3) null [OF bad] _ keep]) simp_all
      with ret I show False by (auto simp: no_value_def)
    next
      case False
      with bad have u: "is_kind (get nodes i) TranslationUnit" "unat i < f" by simp_all
      have "unat (i + 1) \<le> f" using u(2) f(1,2) by (simp add: unat_Suc_lt [where n = f])
      from unit_visits [OF ret I keep null [OF bad] u(1) this f(1)]
      obtain s1 c s2 where "?I s1" "returns (cg (of_nat f)) s1 c s2" by blast
      with IH have "\<not> ?bad (of_nat f)" by blast
      then show False using f(1,2) by (simp add: unat_of_nat_lt)
    qed
  qed
  with I show ?thesis by blast
qed



text \<open>An \<open>if\<close> with a block in a program without functions.\<close>

lemma sample_if_block:
  "case parse_source ''if (1) { 2; }'' of
     Some (Inr nodes) \<Rightarrow> list_ex (\<lambda>n. is_kind n EvalExpr \<and> block_of n (word1 n) \<and> is_kind (get nodes (word1 n)) TranslationUnit) nodes
   | _ \<Rightarrow> False"
  by code_simp

section \<open>Termination\<close>

text \<open>
  No block but the translation unit itself, and no node that generates the code of the
  translation unit again.
\<close>

definition block_free :: "Node list \<Rightarrow> bool" where
  "block_free nodes \<longleftrightarrow>
     list_all (\<lambda>j. \<not> is_kind (nodes ! j) TranslationUnit \<and> 0 \<notin> set (callees nodes (of_nat j)))
       [1..<length nodes]"

lemma holds_null:
  "holds t I (codegen L kNullNode)" "holds t I (evaluateConstantExpr L kNullNode)"
  by (simp_all add: codegen_eq [of L kNullNode] evaluateConstantExpr_eq [of L kNullNode]
      codegen_body_def evaluateConstantExpr_body_def holds_cret)

lemma callee_rel:
  assumes "c \<in> set (callees nodes i)" and "c \<noteq> kNullNode" and "valid_id nodes i"
    and "\<not> is_kind (get nodes i) TranslationUnit"
  shows "(unat c, unat i) \<in> child_rel nodes"
  using assms callees_children [OF assms(4)] by (auto simp: child_rel_def valid_id_def get_def)

lemma evaluate_total:
  assumes "wf (child_rel nodes)"
  shows "holds True (cinv nodes src N) (evaluateConstantExpr L i)"
proof -
  have "\<forall>i. unat i = k \<longrightarrow> holds True (cinv nodes src N) (evaluateConstantExpr L i)" for k
    using assms
  proof (induction k rule: wf_induct_rule)
    case (less k)
    have "holds True (cinv nodes src N) (evaluateConstantExpr_body L (evaluateConstantExpr L) i)"
      if "unat i = k" for i
    proof (rule names.holds_evaluateConstantExpr_body)
      fix c
      assume i: "valid_id nodes i" "is_kind (get nodes i) BinaryExpr" "c \<in> set (callees nodes i)"
      then have "\<not> is_kind (get nodes i) TranslationUnit" by (simp add: is_kind_unique)
      with i callee_rel [of c nodes i] less that holds_null(2)
      show "holds True (cinv nodes src N) (evaluateConstantExpr L c)" by metis
    qed
    then show ?case by (simp add: evaluateConstantExpr_eq [symmetric])
  qed
  then show ?thesis by blast
qed

lemma codegen_total:
  assumes "wf (child_rel nodes)" and "block_free nodes" and "length nodes < 2 ^ 32" and "i \<noteq> 0"
  shows "holds True (cinv nodes src UNIV) (codegen L i)"
proof -
  let ?I = "cinv nodes src UNIV"
  have no_unit: "\<not> is_kind (get nodes i) TranslationUnit \<and> 0 \<notin> set (callees nodes i)"
    if "valid_id nodes i" "i \<noteq> 0" for i
  proof -
    have "unat i \<in> {1..<length nodes}" using that by (simp add: valid_id_def Suc_le_eq unat_gt_0)
    moreover have "\<forall>j \<in> {1..<length nodes}.
        \<not> is_kind (nodes ! j) TranslationUnit \<and> 0 \<notin> set (callees nodes (of_nat j))"
      using assms(2) by (simp add: block_free_def list_all_iff)
    ultimately show ?thesis by (auto simp: get_def dest: bspec [where x = "unat i"])
  qed
  have "\<forall>i. i \<noteq> 0 \<longrightarrow> unat i = k \<longrightarrow> holds True ?I (codegen L i)" for k
    using assms(1)
  proof (induction k rule: wf_induct_rule)
    case (less k)
    have "holds True ?I (codegen_body L (codegen L) i)" if i: "i \<noteq> 0" "unat i = k" for i
    proof (rule names.holds_codegen_body)
      fix c
      assume c: "i \<noteq> kNullNode" "valid_id nodes i" "c \<in> set (callees nodes i)"
      with no_unit i(1) have "\<not> is_kind (get nodes i) TranslationUnit" "c \<noteq> 0" by auto
      with c callee_rel [of c nodes i] less i(2) holds_null(1)
      show "holds True ?I (codegen L c)" by metis
    qed (simp_all add: evaluate_total [OF assms(1)])
    then show ?case by (simp add: codegen_eq [symmetric])
  qed
  with assms(4) show ?thesis by blast
qed

text \<open>C37: Compilation returns, with a result or a crash, on every parsed program that has no
block: whatever LLVM does, code generation and compile-time evaluation follow the references of
the tree, which have no cycle.\<close>

theorem compile_returns:
  assumes "length src < 2 ^ 30 - 4" and "parse_source src = Some (Inr nodes)" and "block_free nodes"
  shows "compile L (init_compiler nodes src ls) \<noteq> None"
proof -
  let ?I = "cinv nodes src UNIV"
  note tree = parsed_tree [OF assms(1,2)]
  have wf: "wf (child_rel nodes)" by (rule wf_child_rel [OF tree(4)])
  have "holds True ?I (codegen_body L (codegen L) 0)"
  proof (rule names.holds_codegen_body)
    fix c assume c: "c \<in> set (callees nodes 0)"
    have "is_kind (get nodes 0) TranslationUnit" using tree(2) by (simp add: get_def)
    with c obtain j where "c = of_nat j" "1 \<le> j" "j < length nodes"
      by (auto simp: callees_def)
    moreover from this tree(3) have "unat c = j" by (simp add: unat_of_nat_lt)
    ultimately have "c \<noteq> 0" by auto
    then show "holds True ?I (codegen L c)"
      using codegen_total [OF wf assms(3)] tree(3) by simp
  qed (simp_all add: evaluate_total [OF wf])
  then have "holds True ?I (codegen L 0)" by (simp add: codegen_eq [symmetric])
  then have "codegen L 0 (init_compiler nodes src ls) \<noteq> None"
    using cinv_init by (fastforce simp: goes_def split: option.splits)
  then show ?thesis by (simp add: compile_def)
qed

theorem compile_returns_witness:
  "\<exists>nodes. parse_source ''int x = -1 + f(y);'' = Some (Inr nodes) \<and>
    compile sample_llvm (init_compiler nodes ''int x = -1 + f(y);'' []) \<noteq> None"
proof -
  let ?src = "''int x = -1 + f(y);''"
  obtain nodes where "parse_source ?src = Some (Inr nodes)" "block_free nodes"
  proof -
    have "(case parse_source ?src of Some (Inr ns) \<Rightarrow> block_free ns | _ \<Rightarrow> False)"
      by code_simp
    then show thesis by (auto intro!: that split: option.splits sum.splits)
  qed
  moreover from this have "compile sample_llvm (init_compiler nodes ?src []) \<noteq> None"
    by (intro compile_returns [of ?src nodes]) simp_all
  ultimately show ?thesis by blast
qed

section \<open>Assignments\<close>

text \<open>
  An assignment generates a load of its left side first, as an expression; the result is the
  load, not the place. What is used of LLVM: the instruction that \<open>CreateLoad\<close> makes is no
  \<open>alloca\<close>.
\<close>

definition load_law :: "('s, 'v, 't, 'f, 'b) llvm \<Rightarrow> bool" where
  "load_law L \<longleftrightarrow> (\<forall>ty v name ls l ls'. createLoad L ty v name ls = Some (l, ls') \<longrightarrow> \<not> isAlloca L l)"

lemma load_lawD: "load_law L \<Longrightarrow> createLoad L ty v name ls = Some (l, ls') \<Longrightarrow> \<not> isAlloca L l"
  unfolding load_law_def by blast

lemma returns_llvm_call:
  "returns (llvm_call g) s a s' \<longleftrightarrow> (\<exists>ls. g (llvm_state s) = Some (a, ls) \<and> s' = s\<lparr>llvm_state := ls\<rparr>)"
  by (auto simp: returns_def llvm_call_def split: option.split)

lemma identifier_no_place:
  assumes "load_law L" and "returns (codegen L i) s v s'" and "i \<noteq> kNullNode"
    and "is_kind (get (ctree s) i) IdentifierExpr"
  shows "\<exists>l. v = Some l \<and> \<not> isAlloca L l"
proof -
  have "returns (codegenIdentifierExpr L i) s v s'"
    using assms(2,3) is_kind_unique [OF assms(4)]
    by (subst (asm) codegen_eq) (simp add: codegen_body_def returns_cbnd)
  then show ?thesis
    by (auto simp: codegenIdentifierExpr_def returns_cbnd returns_llvm_call
        split: option.splits if_splits dest: load_lawD [OF assms(1)])
qed

text \<open>C38: An assignment to a name is refused, whatever the variable is: when both sides have
generated a value, \<open>codegen\<close> throws \<open>Invalid LHS assignment target\<close>, because the value of the
left side is the loaded value and not the stack slot the code asks for.\<close>

theorem assignment_to_name_refused:
  assumes "load_law L" and "n = get (ctree s) i"
    and "i \<noteq> kNullNode" and "valid_id (ctree s) i" and "is_kind n BinaryExpr" and "has_op n Equals"
    and "word1 n \<noteq> kNullNode" and "is_kind (get (ctree s) (word1 n)) IdentifierExpr"
    and "codegen L (word1 n) s = Some (Inr (v, s1))"
    and "codegen L (word2 n) s1 = Some (Inr (Some r, s2))"
  shows "codegen L i s
    = Some (Inl (Runtime_error ''LLVM CodeGen Error: Invalid LHS assignment target''))"
proof -
  obtain l where l: "v = Some l" "\<not> isAlloca L l"
    using identifier_no_place [OF assms(1) _ assms(7,8)] assms(9) by (auto simp: returns_def)
  have "\<not> has_op n k" if "k \<noteq> Equals" for k
    using assms(6) that by (auto simp: has_op_def)
  then have op: "binary_op b n = None" for b by (simp add: binary_op_def)
  have "codegen L i s = codegenBinaryExpr L (codegen L) i s"
    using assms(2-4) is_kind_unique [OF assms(5)]
    by (subst codegen_eq) (simp add: codegen_body_def cbnd_def node_at_def cret_def)
  also have "\<dots> = emit_binary L n l r s2"
    using assms(2,4,9,10) l(1)
    by (simp add: codegenBinaryExpr_def cbnd_def node_at_def cret_def)
  also have "\<dots> = Some (Inl (Runtime_error ''LLVM CodeGen Error: Invalid LHS assignment target''))"
    using assms(6) l(2) by (simp add: emit_binary_def op stop_with_def)
  finally show ?thesis .
qed

section \<open>Sample programs\<close>

text \<open>The compiler does accept a program: the one whose only type is the name of its variable.\<close>

lemma variable_named_like_its_type:
  "(case parse_source ''int int = 1; int + 2;'' of
      Some (Inr nodes) \<Rightarrow> compile sample_llvm (init_compiler nodes ''int int = 1; int + 2;'' [])
    | _ \<Rightarrow> None) = Some (Returned True)"
  by code_simp

lemma case_False_iff:
  "(case x of None \<Rightarrow> False | Some a \<Rightarrow> P a) \<longleftrightarrow> (\<exists>a. x = Some a \<and> P a)"
  "(case y of Inl e \<Rightarrow> False | Inr b \<Rightarrow> Q b) \<longleftrightarrow> (\<exists>b. y = Inr b \<and> Q b)"
  by (simp_all split: option.split sum.split)

text \<open>The state in which \<open>x = 1\<close> is compiled where \<open>x\<close> is a local variable.\<close>

definition sample_state :: "Node list \<Rightarrow> (string list, string, string, string) Compiler" where
  "sample_state nodes =
     (init_compiler nodes ''x = 1;'' [])\<lparr>scopes := [empty_scope\<lparr>symbols := [''x'' \<mapsto>
        \<lparr>sym_value = Some ''alloca'', sym_type = ''i32'', sym_isConst = False, sym_isCompileTime = False\<rparr>]\<rparr>]\<rparr>"

theorem assignment_to_name_refused_witness:
  "\<exists>nodes. parse_source ''x = 1;'' = Some (Inr nodes) \<and>
    codegen sample_llvm 3 (sample_state nodes)
      = Some (Inl (Runtime_error ''LLVM CodeGen Error: Invalid LHS assignment target''))"
proof -
  obtain nodes v s1 r s2 where nodes: "parse_source ''x = 1;'' = Some (Inr nodes)"
      "length nodes = 4" "is_kind (nodes ! 3) BinaryExpr" "has_op (nodes ! 3) Equals"
      "word1 (nodes ! 3) = 1" "word2 (nodes ! 3) = 2" "is_kind (nodes ! 1) IdentifierExpr"
    and runs: "codegen sample_llvm 1 (sample_state nodes) = Some (Inr (v, s1))"
      "codegen sample_llvm 2 s1 = Some (Inr (Some r, s2))"
  proof -
    have "(case parse_source ''x = 1;'' of Some (Inr ns) \<Rightarrow> length ns = 4 \<and>
        is_kind (ns ! 3) BinaryExpr \<and> has_op (ns ! 3) Equals \<and> word1 (ns ! 3) = 1 \<and>
        word2 (ns ! 3) = 2 \<and> is_kind (ns ! 1) IdentifierExpr \<and>
        (case codegen sample_llvm 1 (sample_state ns) of
           Some (Inr (v, s1)) \<Rightarrow>
             (case codegen sample_llvm 2 s1 of Some (Inr (Some r, s2)) \<Rightarrow> True | _ \<Rightarrow> False)
         | _ \<Rightarrow> False)
      | _ \<Rightarrow> False)"
      by code_simp
    then show thesis by (auto simp: case_False_iff intro!: that)
  qed
  have "load_law sample_llvm" by (auto simp: load_law_def sample_llvm_def sample_op_def)
  moreover have "get (ctree (sample_state nodes)) 3 = nodes ! 3" "ctree (sample_state nodes) = nodes"
    by (simp_all add: sample_state_def init_compiler_def get_def)
  ultimately have "codegen sample_llvm 3 (sample_state nodes)
      = Some (Inl (Runtime_error ''LLVM CodeGen Error: Invalid LHS assignment target''))"
    using nodes runs
    by (intro assignment_to_name_refused [where n = "nodes ! 3" and v = v and r = r and ?s1.0 = s1 and ?s2.0 = s2])
      (simp_all add: kNullNode_def valid_id_def get_def)
  with nodes(1) show ?thesis by blast
qed

text \<open>
  The type node that the parser makes for \<open>auto\<close> has length 0: the name of the type is read as
  the empty string, and \<open>resolveType\<close> never sees the word \<open>auto\<close> it has a case for.
\<close>

lemma auto_type_text:
  "(case parse_source ''int int = 1; auto x = 2;'' of
      Some (Inr nodes) \<Rightarrow> map (node_text nodes ''int int = 1; auto x = 2;'' \<circ> word0)
        (filter (\<lambda>n. is_kind n VarDecl) nodes)
    | _ \<Rightarrow> []) = [''int'', []]"
  by code_simp

text \<open>
  A loop whose condition has an identifier congruent to the code of \<open>break\<close> modulo 256 is taken
  for a \<open>break\<close>: no code is generated for it.
\<close>

lemma loop_taken_for_break:
  assumes "i \<noteq> kNullNode" and "valid_id (ctree s) i" and "is_kind (get (ctree s) i) CompileTimeJump"
    and "unat (word0 (get (ctree s) i)) mod 256 = tt_code kBreak"
  shows "codegen L i s = Some (Inr (None, s))"
proof -
  have "has_op (get (ctree s) i) kBreak"
    using assms(4)
    by (simp add: has_op_def data_op_def word_unat_eq_iff unsigned_ucast_eq take_bit_eq_mod)
  then show ?thesis
    using assms(1,2) is_kind_unique [OF assms(3)]
    by (subst codegen_eq)
      (simp add: codegen_body_def codegenCompileTimeJump_def cbnd_def node_at_def cret_def)
qed

section \<open>Loops\<close>

text \<open>
  What a loop needs of LLVM: a basic block that was made with a parent function is in a list of blocks
  already, and inserting it into a list again is a failed assertion (\<open>SymbolTableListTraits\<close>).
\<close>

definition attach_law :: "('s, 'v, 't, 'f, 'b) llvm \<Rightarrow> bool" where
  "attach_law L \<longleftrightarrow> (\<forall>name f ls b ls' g ls2.
     createBlock L name (Some f) ls = Some (b, ls') \<longrightarrow> insertBlock L g b ls2 = None)"

lemma attach_lawD: "attach_law L \<Longrightarrow> createBlock L name (Some f) ls = Some (b, ls') \<Longrightarrow> insertBlock L g b ls2 = None"
  unfolding attach_law_def by blast

lemma loop_no_value:
  assumes "attach_law L" and "i \<noteq> kNullNode" and "is_kind (get nodes i) CompileTimeJump"
    and "\<not> (has_op (get nodes i) kBreak \<or> has_op (get nodes i) kContinue)"
    and ret: "returns (codegen L i) s a s'" and "ctree s = nodes"
  shows False
proof -
  have "returns (codegenCompileTimeJump L (codegen L) i) s a s'"
    using ret assms(2,6) is_kind_unique [OF assms(3)]
    by (subst (asm) codegen_eq) (simp add: codegen_body_def returns_cbnd)
  then obtain f ls b ls' ls2 ls3 where "createBlock L ''loop.end'' (Some f) ls = Some (b, ls')"
      and "insertBlock L f b ls2 = Some ((), ls3)"
    using assms(4,6)
    by (auto simp: codegenCompileTimeJump_def returns_cbnd returns_cseq returns_llvm_call deref_def split: option.splits
        intro: that)
  with attach_lawD [OF assms(1)] show False by fastforce
qed


text \<open>The stand-in with blocks that know whether they were made with a parent.\<close>

definition attaching_llvm :: "(string list, string, string, string, string) llvm" where
  "attaching_llvm = sample_llvm\<lparr>
     createBlock := (\<lambda>n f. sample_op (case f of None \<Rightarrow> CHR ''-'' # n | Some f \<Rightarrow> CHR ''+'' # n)),
     insertBlock := (\<lambda>_ b. if take 1 b = ''-'' then sample_step ''insert'' else (\<lambda>_. None)),
     getInsertBlock := (\<lambda>_. Some ''+entry''), getParent := (\<lambda>_ _. Some ''main'')\<rparr>"


end
