(* ===== verification/Compiler_Const.thy ===== *)
theory Compiler_Const
  imports Compiler_Props "HOL-Library.Signed_Division"
begin

text \<open>
  Compile-time evaluation: \<open>evaluateConstantExpr\<close> on the nodes of an integer expression computes
  the value of the expression in 32-bit two's complement, with the variables that are known at
  compile time; a \<open>constexpr\<close> variable is bound to the value of its initialiser, and no code is
  generated for it.
\<close>

section \<open>Constant expressions\<close>

datatype cexp = CNum int | CVar string | COp TokenType cexp cexp

text \<open>The nodes of an expression in a tree.\<close>

inductive const_rep :: "Node list \<Rightarrow> string \<Rightarrow> NodeId \<Rightarrow> cexp \<Rightarrow> bool" for nodes src where
  num: "\<lbrakk>i \<noteq> kNullNode; valid_id nodes i; is_kind (get nodes i) LiteralExpr; has_op (get nodes i) LInt;
    stoi (node_text nodes src i) = Inr n\<rbrakk> \<Longrightarrow> const_rep nodes src i (CNum n)"
| var: "\<lbrakk>i \<noteq> kNullNode; valid_id nodes i; is_kind (get nodes i) IdentifierExpr;
    node_text nodes src i = x; x \<noteq> []\<rbrakk> \<Longrightarrow> const_rep nodes src i (CVar x)"
| op: "\<lbrakk>i \<noteq> kNullNode; valid_id nodes i; is_kind (get nodes i) BinaryExpr; has_op (get nodes i) t;
    const_rep nodes src (word1 (get nodes i)) a; const_rep nodes src (word2 (get nodes i)) b\<rbrakk> \<Longrightarrow>
    const_rep nodes src i (COp t a b)"

text \<open>
  The value: sums, differences and products wrap, a quotient is rounded towards zero. A division
  by zero, an overflowing one and other operators have none.
\<close>

definition word_sdiv :: "u32 \<Rightarrow> u32 \<Rightarrow> u32" where
  "word_sdiv x y = of_int (sint x sdiv sint y)"

definition sdiv_ok :: "u32 \<Rightarrow> u32 \<Rightarrow> bool" where
  "sdiv_ok x y \<longleftrightarrow> y \<noteq> 0 \<and> \<not> (x = 0x80000000 \<and> y = - 1)"

fun cval :: "(string \<Rightarrow> u32 option) \<Rightarrow> cexp \<Rightarrow> u32 option" where
  "cval env (CNum n) = Some (of_int n)"
| "cval env (CVar x) = env x"
| "cval env (COp t a b) =
     Option.bind (cval env a) (\<lambda>x. Option.bind (cval env b) (\<lambda>y.
       if t = Plus then Some (x + y)
       else if t = Minus then Some (x - y)
       else if t = Star then Some (x * y)
       else if t = Slash \<and> sdiv_ok x y then Some (word_sdiv x y)
       else None))"

text \<open>
  What is used of LLVM: the constants of type \<open>i32\<close> are constants of an integer type, and
  \<open>ConstantFoldBinaryOpOperands\<close> folds the arithmetic of the instruction on them.
\<close>

definition fold_law :: "('s, 'v, 't, 'f, 'b) llvm \<Rightarrow> bool" where
  "fold_law L \<longleftrightarrow>
     (\<forall>x. isConstant L (getInt32 L x) \<and> \<not> isFloatTy L (getType L (getInt32 L x))) \<and>
     (\<forall>x y ls. foldBinary L Op_Add (getInt32 L x) (getInt32 L y) ls = Some (Some (getInt32 L (x + y)))) \<and>
     (\<forall>x y ls. foldBinary L Op_Sub (getInt32 L x) (getInt32 L y) ls = Some (Some (getInt32 L (x - y)))) \<and>
     (\<forall>x y ls. foldBinary L Op_Mul (getInt32 L x) (getInt32 L y) ls = Some (Some (getInt32 L (x * y)))) \<and>
     (\<forall>x y ls. sdiv_ok x y \<longrightarrow>
        foldBinary L Op_SDiv (getInt32 L x) (getInt32 L y) ls = Some (Some (getInt32 L (word_sdiv x y))))"

text \<open>The variables of a state that are known at compile time.\<close>

definition knows ::
    "('s, 'v, 't, 'f, 'b) llvm \<Rightarrow> ('s, 'v, 't, 'f) Compiler \<Rightarrow> (string \<Rightarrow> u32 option) \<Rightarrow> bool" where
  "knows L s env \<longleftrightarrow> (\<forall>x w. env x = Some w \<longrightarrow>
     (\<exists>y. lookupVar (scopes s) x = Some y \<and> sym_isCompileTime y \<and> sym_value y = Some (getInt32 L w)))"

section \<open>Evaluation\<close>

lemma getNodeSnippet_text:
  assumes "i \<noteq> kNullNode" and "valid_id (ctree s) i" and "node_text (ctree s) (csource s) i \<noteq> []"
  shows "getNodeSnippet i s = Some (Inr (node_text (ctree s) (csource s) i, s))"
proof -
  let ?n = "get (ctree s) i"
  have "\<not> (sourceLength ?n = 0 \<or> length (csource s) < unat (sourceOffset ?n + ucast (sourceLength ?n)))"
    and "\<not> length (csource s) < unat (sourceOffset ?n)"
    using assms by (auto simp: node_text_def Let_def substr_def split: if_splits)
  then show ?thesis
    using assms(1,2)
    by (simp add: getNodeSnippet_def node_text_def cbnd_def node_at_def cret_def Let_def)
qed

lemma stoi_Nil: "stoi [] = Inl Invalid_argument"
  by (simp add: stoi_def)

lemma has_op_unique: "has_op n t \<Longrightarrow> has_op n u \<longleftrightarrow> t = u"
  by (auto simp: has_op_def)

lemma cbnd_value: "m s = Some (Inr (a, s')) \<Longrightarrow> cbnd m f s = f a s'"
  by (simp add: cbnd_def)

lemma evaluate_binary:
  assumes "fold_law L" and "has_op n t"
    and "(if t = Plus then Some (x + y) else if t = Minus then Some (x - y)
      else if t = Star then Some (x * y) else if t = Slash \<and> sdiv_ok x y then Some (word_sdiv x y)
      else None) = Some w"
  shows "ctfe_binary L n (Some (getInt32 L x)) (Some (getInt32 L y)) s = Some (Inr (Some (getInt32 L w), s))"
  using assms
  by (auto simp: ctfe_binary_def ctfe_opcode_def has_op_unique [OF assms(2)] fold_law_def
      cbnd_def llvm_look_def look_def deref_def cret_def split: if_splits)

lemma evaluate_const:
  assumes "fold_law L" and "const_rep nodes src i e" and "cval env e = Some w"
    and "ctree s = nodes" and "csource s = src" and "knows L s env"
  shows "evaluateConstantExpr L i s = Some (Inr (Some (getInt32 L w), s))"
  using assms(2,3)
proof (induction i e arbitrary: w rule: const_rep.induct)
  case (num i n)
  then have "node_text nodes src i \<noteq> []" by (auto simp: stoi_Nil)
  with num assms(4,5) have "getNodeSnippet i s = Some (Inr (node_text nodes src i, s))"
    using getNodeSnippet_text [of i s] by simp
  with num assms(4) show ?case
    by (subst evaluateConstantExpr_eq)
      (simp add: evaluateConstantExpr_body_def cbnd_def node_at_def cret_def literal_value_def throwing_def)
next
  case (var i x)
  then have "getNodeSnippet i s = Some (Inr (x, s))"
    using getNodeSnippet_text [of i s] assms(4,5) by simp
  moreover obtain y where "lookupVar (scopes s) x = Some y" "sym_isCompileTime y"
      "sym_value y = Some (getInt32 L w)"
    using var.prems assms(6) by (auto simp: knows_def)
  moreover have "isConstant L (getInt32 L w)" using assms(1) by (simp add: fold_law_def)
  ultimately show ?case using var assms(4)
    by (subst evaluateConstantExpr_eq)
      (simp add: evaluateConstantExpr_body_def cbnd_def node_at_def cret_def ctfe_identifier_def
        look_def deref_def is_kind_unique)
next
  case (op i t a b)
  from op.prems obtain x y where xy: "cval env a = Some x" "cval env b = Some y"
    by (auto simp: Option.bind_eq_Some_conv)
  let ?n = "get nodes i"
  have "evaluateConstantExpr L i s = ctfe_binary L ?n (Some (getInt32 L x)) (Some (getInt32 L y)) s"
    using op.hyps(1-3) op.IH(1) [OF xy(1)] op.IH(2) [OF xy(2)] assms(4)
    by (subst evaluateConstantExpr_eq)
      (simp add: evaluateConstantExpr_body_def cbnd_def node_at_def cret_def is_kind_unique)
  also have "\<dots> = Some (Inr (Some (getInt32 L w), s))"
    by (rule evaluate_binary [OF assms(1) op.hyps(4)]) (use op.prems xy in simp)
  finally show ?case .
qed

section \<open>Variables known at compile time\<close>

lemma resolve_int:
  assumes "i \<noteq> kNullNode" and "valid_id (ctree s) i" and "node_text (ctree s) (csource s) i = ''int''"
  shows "resolveType L i s = Some (Inr (int32Ty L, s))"
  using getNodeSnippet_text [of i s] assms by (simp add: resolveType_def cbnd_def cret_def)

text \<open>C36: A \<open>constexpr int\<close> variable is bound to the value of its initialiser: when the initialiser
is an expression of integer literals and variables known at compile time, with sums, differences,
products and quotients that do not overflow, then \<open>codegen\<close> returns the constant of its value in
32-bit arithmetic, touches nothing in LLVM, and from then on the variable is known with this
value.\<close>

theorem constexpr_variable_value:
  assumes "fold_law L" and "knows L s env" and "scopes s \<noteq> []"
    and "n = get (ctree s) i" and "i \<noteq> kNullNode" and "valid_id (ctree s) i" and "is_kind n VarDecl"
    and "isConstexpr (qualifiers n)"
    and "word0 n \<noteq> kNullNode" and "valid_id (ctree s) (word0 n)"
    and "node_text (ctree s) (csource s) (word0 n) = ''int''"
    and "word1 n \<noteq> kNullNode" and "valid_id (ctree s) (word1 n)"
    and "node_text (ctree s) (csource s) (word1 n) = x" and "x \<noteq> []"
    and "const_rep (ctree s) (csource s) (word2 n) e" and "cval env e = Some w"
  shows "\<exists>s'. codegen L i s = Some (Inr (Some (getInt32 L w), s')) \<and> llvm_state s' = llvm_state s \<and>
    knows L s' (env(x \<mapsto> w))"
proof -
  let ?v = "Some (getInt32 L w)"
  let ?sym = "\<lparr>sym_value = ?v, sym_type = int32Ty L, sym_isConst = True, sym_isCompileTime = True\<rparr>"
  obtain sc parents where sc: "scopes s = sc # parents" using assms(3) by (cases "scopes s") auto
  let ?s = "s\<lparr>scopes := sc\<lparr>symbols := (symbols sc)(x \<mapsto> ?sym)\<rparr> # parents\<rparr>"
  have name: "getNodeSnippet (word1 n) s = Some (Inr (x, s))"
    using getNodeSnippet_text [of "word1 n" s] assms(12-15) by simp
  have type: "resolveType L (word0 n) s = Some (Inr (int32Ty L, s))"
    by (rule resolve_int [OF assms(9-11)])
  have init: "evaluateConstantExpr L (word2 n) s = Some (Inr (?v, s))"
    by (rule evaluate_const [OF assms(1,16,17) refl refl assms(2)])
  have "codegen L i s = codegenVarDecl L (codegen L) i s"
    using assms(4-7) by (subst codegen_eq) (simp add: codegen_body_def cbnd_def node_at_def cret_def is_kind_unique)
  also have "\<dots> = Some (Inr (?v, ?s))"
    using assms(4,6,8) name type init sc
    by (simp add: codegenVarDecl_def cbnd_def node_at_def cret_def cseq_def declare_symbol_def update_scope_def)
  finally have run: "codegen L i s = Some (Inr (?v, ?s))" .
  have "knows L ?s (env(x \<mapsto> w))"
    using assms(2) sc by (auto simp: knows_def split: option.splits)
  with run show ?thesis by auto
qed

text \<open>The stand-in with a constant folder.\<close>

definition sample_fold :: "binop \<Rightarrow> string \<Rightarrow> string \<Rightarrow> string option" where
  "sample_fold opcode l r =
     (let x = of_nat (nat_of_string l) :: u32; y = of_nat (nat_of_string r) :: u32;
          show_word = (\<lambda>w :: u32. Some (string_of_nat (unat w)))
      in case opcode of
           Op_Add \<Rightarrow> show_word (x + y)
         | Op_Sub \<Rightarrow> show_word (x - y)
         | Op_Mul \<Rightarrow> show_word (x * y)
         | Op_SDiv \<Rightarrow> if y = 0 then None else show_word (word_sdiv x y)
         | _ \<Rightarrow> None)"

definition folding_llvm :: "(string list, string, string, string, string) llvm" where
  "folding_llvm = sample_llvm\<lparr>foldBinary := (\<lambda>opcode l r _. Some (sample_fold opcode l r))\<rparr>"

lemma folding_llvm_law: "fold_law folding_llvm"
  by (simp add: fold_law_def folding_llvm_def sample_llvm_def sample_fold_def Let_def sdiv_ok_def)

lemma knows_none: "knows L s Map.empty"
  by (simp add: knows_def)

definition const_source :: string where
  "const_source = ''constexpr int x = 7 - 2 * 3;''"

theorem constexpr_variable_value_witness:
  "case parse_source const_source of
     Some (Inr nodes) \<Rightarrow>
       (\<exists>s'. codegen folding_llvm 6 (init_compiler nodes const_source [])
          = Some (Inr (Some ''1'', s')) \<and> knows folding_llvm s' [''x'' \<mapsto> 1])
   | _ \<Rightarrow> False"
proof -
  let ?e = "COp Minus (CNum 7) (COp Star (CNum 2) (CNum 3))"
  have "case parse_source const_source of
      Some (Inr ns) \<Rightarrow> length ns = 9 \<and> is_kind (ns ! 6) VarDecl \<and> isConstexpr (qualifiers (ns ! 6)) \<and>
        word0 (ns ! 6) = 7 \<and> word1 (ns ! 6) = 8 \<and> word2 (ns ! 6) = 5 \<and>
        node_text ns const_source 7 = ''int'' \<and> node_text ns const_source 8 = ''x'' \<and>
        is_kind (ns ! 5) BinaryExpr \<and> has_op (ns ! 5) Minus \<and> word1 (ns ! 5) = 1 \<and> word2 (ns ! 5) = 4 \<and>
        is_kind (ns ! 4) BinaryExpr \<and> has_op (ns ! 4) Star \<and> word1 (ns ! 4) = 2 \<and> word2 (ns ! 4) = 3 \<and>
        list_all (\<lambda>i. is_kind (ns ! i) LiteralExpr \<and> has_op (ns ! i) LInt) [1, 2, 3] \<and>
        map (\<lambda>i. stoi (node_text ns const_source i)) [1, 2, 3] = [Inr 7, Inr 2, Inr 3]
    | _ \<Rightarrow> False"
    by code_simp
  then obtain ns where ns: "parse_source const_source = Some (Inr ns)" and
    facts: "length ns = 9" "is_kind (ns ! 6) VarDecl" "isConstexpr (qualifiers (ns ! 6))"
        "word0 (ns ! 6) = 7" "word1 (ns ! 6) = 8" "word2 (ns ! 6) = 5"
        "node_text ns const_source 7 = ''int''" "node_text ns const_source 8 = ''x''"
        "is_kind (ns ! 5) BinaryExpr" "has_op (ns ! 5) Minus" "word1 (ns ! 5) = 1" "word2 (ns ! 5) = 4"
        "is_kind (ns ! 4) BinaryExpr" "has_op (ns ! 4) Star" "word1 (ns ! 4) = 2" "word2 (ns ! 4) = 3"
        "is_kind (ns ! 1) LiteralExpr" "has_op (ns ! 1) LInt" "is_kind (ns ! 2) LiteralExpr"
        "has_op (ns ! 2) LInt" "is_kind (ns ! 3) LiteralExpr" "has_op (ns ! 3) LInt"
        "stoi (node_text ns const_source 1) = Inr 7" "stoi (node_text ns const_source 2) = Inr 2"
        "stoi (node_text ns const_source 3) = Inr 3"
    by (auto split: option.splits sum.splits)
  let ?s = "init_compiler ns const_source [] :: (string list, string, string, string) Compiler"
  have s: "ctree ?s = ns" "csource ?s = const_source" "scopes ?s = [empty_scope]"
    by (simp_all add: init_compiler_def)
  have rep: "const_rep ns const_source 5 ?e"
    by (intro const_rep.intros) (simp_all add: facts facts [unfolded One_nat_def] kNullNode_def valid_id_def get_def)
  have "\<exists>s'. codegen folding_llvm 6 ?s = Some (Inr (Some (getInt32 folding_llvm 1), s')) \<and>
      llvm_state s' = llvm_state ?s \<and> knows folding_llvm s' (Map.empty(''x'' \<mapsto> 1))"
    using constexpr_variable_value [of folding_llvm ?s Map.empty "ns ! 6" 6 "''x''" ?e 1] folding_llvm_law rep
      knows_none [of folding_llvm ?s]
    by (simp add: s facts kNullNode_def valid_id_def get_def)
  moreover have "getInt32 folding_llvm 1 = ''1''"
    by (simp add: folding_llvm_def sample_llvm_def) code_simp
  ultimately show ?thesis using ns by auto
qed

end
