(* ===== verification/Compiler_Code.thy ===== *)
theory Compiler_Code
  imports Compiler_Const
begin

text \<open>
  The code of expressions: what \<open>codegen\<close> emits for an expression over integers, truth values and
  local variables computes the value of the expression, and a local variable holds the value of
  its initialiser. LLVM is described by what its instructions compute.
\<close>

section \<open>Expressions and their values\<close>

datatype rval = I32 u32 | I1 bool

datatype rexp = RNum int | RBool bool | RVar string | RNeg rexp | RNot rexp | ROp TokenType rexp rexp

text \<open>The nodes of an expression in a tree.\<close>

inductive expr_rep :: "Node list \<Rightarrow> string \<Rightarrow> NodeId \<Rightarrow> rexp \<Rightarrow> bool" for nodes src where
  num: "\<lbrakk>i \<noteq> kNullNode; valid_id nodes i; is_kind (get nodes i) LiteralExpr; has_op (get nodes i) LInt;
    stoi (node_text nodes src i) = Inr n\<rbrakk> \<Longrightarrow> expr_rep nodes src i (RNum n)"
| bool: "\<lbrakk>i \<noteq> kNullNode; valid_id nodes i; is_kind (get nodes i) LiteralExpr;
    has_op (get nodes i) (if b then kTrue else kFalse); node_text nodes src i \<noteq> []\<rbrakk> \<Longrightarrow>
    expr_rep nodes src i (RBool b)"
| var: "\<lbrakk>i \<noteq> kNullNode; valid_id nodes i; is_kind (get nodes i) IdentifierExpr;
    node_text nodes src i = x; x \<noteq> []\<rbrakk> \<Longrightarrow> expr_rep nodes src i (RVar x)"
| neg: "\<lbrakk>i \<noteq> kNullNode; valid_id nodes i; is_kind (get nodes i) UnaryExpr; has_op (get nodes i) Minus;
    expr_rep nodes src (word1 (get nodes i)) a\<rbrakk> \<Longrightarrow> expr_rep nodes src i (RNeg a)"
| not: "\<lbrakk>i \<noteq> kNullNode; valid_id nodes i; is_kind (get nodes i) UnaryExpr; has_op (get nodes i) Excl;
    expr_rep nodes src (word1 (get nodes i)) a\<rbrakk> \<Longrightarrow> expr_rep nodes src i (RNot a)"
| op: "\<lbrakk>i \<noteq> kNullNode; valid_id nodes i; is_kind (get nodes i) BinaryExpr; has_op (get nodes i) t;
    expr_rep nodes src (word1 (get nodes i)) a; expr_rep nodes src (word2 (get nodes i)) b\<rbrakk> \<Longrightarrow>
    expr_rep nodes src i (ROp t a b)"

text \<open>The meaning of the operators of the language, on 32-bit integers.\<close>

definition arith :: "TokenType \<Rightarrow> u32 \<Rightarrow> u32 \<Rightarrow> rval option" where
  "arith t x y =
     (if t = Plus then Some (I32 (x + y))
      else if t = Minus then Some (I32 (x - y))
      else if t = Star then Some (I32 (x * y))
      else if t = Slash then (if sdiv_ok x y then Some (I32 (word_sdiv x y)) else None)
      else if t = EEquals then Some (I1 (x = y))
      else if t = NEquals then Some (I1 (x \<noteq> y))
      else if t = Lesser then Some (I1 (sint x < sint y))
      else if t = LeEquals then Some (I1 (sint x \<le> sint y))
      else if t = Greater then Some (I1 (sint y < sint x))
      else if t = GrEquals then Some (I1 (sint y \<le> sint x))
      else None)"

fun rvalue :: "(string \<Rightarrow> rval option) \<Rightarrow> rexp \<Rightarrow> rval option" where
  "rvalue env (RNum n) = Some (I32 (of_int n))"
| "rvalue env (RBool b) = Some (I1 b)"
| "rvalue env (RVar x) = env x"
| "rvalue env (RNeg a) = (case rvalue env a of Some (I32 x) \<Rightarrow> Some (I32 (- x)) | _ \<Rightarrow> None)"
| "rvalue env (RNot a) = (case rvalue env a of Some (I1 b) \<Rightarrow> Some (I1 (\<not> b)) | _ \<Rightarrow> None)"
| "rvalue env (ROp t a b) =
     (case (rvalue env a, rvalue env b) of (Some (I32 x), Some (I32 y)) \<Rightarrow> arith t x y | _ \<Rightarrow> None)"

section \<open>What is used of LLVM\<close>

text \<open>The instructions, as the LLVM language reference defines them on these values.\<close>

fun instr :: "binop \<Rightarrow> u32 \<Rightarrow> u32 \<Rightarrow> rval option" where
  "instr Op_Add x y = Some (I32 (x + y))"
| "instr Op_Sub x y = Some (I32 (x - y))"
| "instr Op_Mul x y = Some (I32 (x * y))"
| "instr Op_SDiv x y = (if sdiv_ok x y then Some (I32 (word_sdiv x y)) else None)"
| "instr Op_ICmpEQ x y = Some (I1 (x = y))"
| "instr Op_ICmpNE x y = Some (I1 (x \<noteq> y))"
| "instr Op_ICmpSLT x y = Some (I1 (sint x < sint y))"
| "instr Op_ICmpSLE x y = Some (I1 (sint x \<le> sint y))"
| "instr Op_ICmpSGT x y = Some (I1 (sint y < sint x))"
| "instr Op_ICmpSGE x y = Some (I1 (sint y \<le> sint x))"
| "instr _ x y = None"

text \<open>
  \<open>denote ls v\<close> is the value that \<open>v\<close> has when the code emitted so far has run, and \<open>slot ls p\<close>
  what the stack slot \<open>p\<close> then holds. Emitting an instruction keeps what was emitted before, and
  goes on in the same function.
\<close>

definition keeps ::
    "('s, 'v, 't, 'f, 'b) llvm \<Rightarrow> ('s \<Rightarrow> 'v \<Rightarrow> rval option) \<Rightarrow> ('s \<Rightarrow> 'v \<Rightarrow> rval option)
      \<Rightarrow> 's \<Rightarrow> 's \<Rightarrow> bool" where
  "keeps L denote slot ls ls' \<longleftrightarrow> current_function L ls' = current_function L ls \<and>
     (\<forall>v x. denote ls v = Some x \<longrightarrow> denote ls' v = Some x) \<and>
     (\<forall>p x. slot ls p = Some x \<longrightarrow> slot ls' p = Some x)"

definition emits ::
    "('s, 'v, 't, 'f, 'b) llvm \<Rightarrow> ('s \<Rightarrow> 'v \<Rightarrow> rval option) \<Rightarrow> ('s \<Rightarrow> 'v \<Rightarrow> rval option)
      \<Rightarrow> ('v \<times> 's) option \<Rightarrow> 's \<Rightarrow> rval \<Rightarrow> bool" where
  "emits L denote slot r ls x \<longleftrightarrow> (\<exists>v ls'. r = Some (v, ls') \<and> denote ls' v = Some x \<and> keeps L denote slot ls ls')"

text \<open>The types of the two kinds of values.\<close>

fun type_of :: "('s, 'v, 't, 'f, 'b) llvm \<Rightarrow> rval \<Rightarrow> 't" where
  "type_of L (I32 _) = int32Ty L"
| "type_of L (I1 _) = int1Ty L"

definition code_law ::
    "('s, 'v, 't, 'f, 'b) llvm \<Rightarrow> ('s \<Rightarrow> 'v \<Rightarrow> rval option) \<Rightarrow> ('s \<Rightarrow> 'v \<Rightarrow> rval option) \<Rightarrow> bool" where
  "code_law L denote slot \<longleftrightarrow>
     (\<forall>ls w. denote ls (getInt32 L w) = Some (I32 w)) \<and>
     (\<forall>ls. denote ls (getTrue L) = Some (I1 True) \<and> denote ls (getFalse L) = Some (I1 False)) \<and>
     (\<forall>ls v x. denote ls v = Some x \<longrightarrow> \<not> isFloatTy L (getType L v) \<and> \<not> isAlloca L v) \<and>
     (\<forall>ls p x. slot ls p = Some x \<longrightarrow> isAlloca L p) \<and>
     (\<forall>opcode l r name ls x y z. denote ls l = Some (I32 x) \<longrightarrow> denote ls r = Some (I32 y) \<longrightarrow>
        instr opcode x y = Some z \<longrightarrow> emits L denote slot (createBinary L opcode l r name ls) ls z) \<and>
     (\<forall>v name ls x. denote ls v = Some (I32 x) \<longrightarrow>
        emits L denote slot (createUnary L Op_Neg (Some v) name ls) ls (I32 (- x))) \<and>
     (\<forall>v name ls b. denote ls v = Some (I1 b) \<longrightarrow>
        emits L denote slot (createUnary L Op_Not (Some v) name ls) ls (I1 (\<not> b))) \<and>
     (\<forall>p name ls x. slot ls p = Some x \<longrightarrow>
        emits L denote slot (createLoad L (type_of L x) p name ls) ls x)"

text \<open>A new stack slot, and a store to it.\<close>

definition memory_law ::
    "('s, 'v, 't, 'f, 'b) llvm \<Rightarrow> ('s \<Rightarrow> 'v \<Rightarrow> rval option) \<Rightarrow> ('s \<Rightarrow> 'v \<Rightarrow> rval option) \<Rightarrow> bool" where
  "memory_law L denote slot \<longleftrightarrow>
     (\<forall>fn ty name ls. \<exists>p ls'. createAlloca L fn ty name ls = Some (p, ls') \<and> isAlloca L p \<and>
        slot ls' p = None \<and> keeps L denote slot ls ls') \<and>
     (\<forall>v p ls x. denote ls v = Some x \<longrightarrow> isAlloca L p \<longrightarrow>
        (\<exists>ls'. createStore L v p ls = Some ((), ls') \<and> slot ls' p = Some x \<and>
           current_function L ls' = current_function L ls \<and>
           (\<forall>u z. denote ls u = Some z \<longrightarrow> denote ls' u = Some z) \<and>
           (\<forall>q. q \<noteq> p \<longrightarrow> slot ls' q = slot ls q)))"

text \<open>The variables of a state and what they hold: stack slots and constants.\<close>

definition holds_vars ::
    "('s, 'v, 't, 'f, 'b) llvm \<Rightarrow> ('s \<Rightarrow> 'v \<Rightarrow> rval option) \<Rightarrow> ('s \<Rightarrow> 'v \<Rightarrow> rval option)
      \<Rightarrow> ('v, 't, 'f) Scope list \<Rightarrow> 's \<Rightarrow> (string \<Rightarrow> rval option) \<Rightarrow> bool" where
  "holds_vars L denote slot scs ls env \<longleftrightarrow> (\<forall>x z. env x = Some z \<longrightarrow>
     (\<exists>y v. lookupVar scs x = Some y \<and> sym_value y = Some v \<and>
        (slot ls v = Some z \<and> sym_type y = type_of L z \<or> denote ls v = Some z)))"

lemma keeps_refl: "keeps L denote slot ls ls"
  by (simp add: keeps_def)

lemma keeps_trans: "keeps L denote slot a b \<Longrightarrow> keeps L denote slot b c \<Longrightarrow> keeps L denote slot a c"
  by (simp add: keeps_def)

lemma holds_vars_keeps:
  assumes "holds_vars L denote slot scs ls env" and "keeps L denote slot ls ls'"
  shows "holds_vars L denote slot scs ls' env"
  using assms unfolding holds_vars_def keeps_def by (meson)

section \<open>Code of expressions\<close>

lemma codegen_dispatch:
  assumes "i \<noteq> kNullNode" and "valid_id (ctree s) i"
  shows "is_kind (get (ctree s) i) LiteralExpr \<Longrightarrow> codegen L i s = codegenLiteralExpr L i s"
    and "is_kind (get (ctree s) i) IdentifierExpr \<Longrightarrow> codegen L i s = codegenIdentifierExpr L i s"
    and "is_kind (get (ctree s) i) UnaryExpr \<Longrightarrow> codegen L i s = codegenUnaryExpr L (codegen L) i s"
    and "is_kind (get (ctree s) i) BinaryExpr \<Longrightarrow> codegen L i s = codegenBinaryExpr L (codegen L) i s"
    and "is_kind (get (ctree s) i) VarDecl \<Longrightarrow> codegen L i s = codegenVarDecl L (codegen L) i s"
  using assms
  by (subst codegen_eq, simp add: codegen_body_def cbnd_def node_at_def cret_def is_kind_unique)+

text \<open>An instruction of LLVM, as the last step of a handler.\<close>

lemma emits_call:
  assumes "emits L denote slot (g (llvm_state s)) (llvm_state s) x"
  shows "\<exists>v ls. cbnd (llvm_call g) (\<lambda>v. cret (Some v)) s = Some (Inr (Some v, s\<lparr>llvm_state := ls\<rparr>)) \<and>
    denote ls v = Some x \<and> keeps L denote slot (llvm_state s) ls"
  using assms by (auto simp: emits_def cbnd_def llvm_call_def cret_def)

text \<open>The opcode chosen for an operator computes the operator.\<close>

lemma binary_op_instr:
  assumes "has_op n t" and "arith t x y = Some z"
  shows "\<exists>opcode name. binary_op False n = Some (opcode, name) \<and> instr opcode x y = Some z"
  using assms by (auto simp: binary_op_def arith_def has_op_unique [OF assms(1)] split: if_splits)

lemma code_lawD:
  assumes "code_law L denote slot"
  shows "denote ls (getInt32 L w) = Some (I32 w)"
    and "denote ls (getTrue L) = Some (I1 True)" and "denote ls (getFalse L) = Some (I1 False)"
    and "denote ls v = Some x \<Longrightarrow> \<not> isFloatTy L (getType L v)"
    and "denote ls v = Some x \<Longrightarrow> \<not> isAlloca L v"
    and "slot ls p = Some x \<Longrightarrow> isAlloca L p"
    and "\<lbrakk>denote ls l = Some (I32 a); denote ls r = Some (I32 b); instr opcode a b = Some z\<rbrakk> \<Longrightarrow>
      emits L denote slot (createBinary L opcode l r name ls) ls z"
    and "denote ls v = Some (I32 a) \<Longrightarrow> emits L denote slot (createUnary L Op_Neg (Some v) name ls) ls (I32 (- a))"
    and "denote ls v = Some (I1 c) \<Longrightarrow> emits L denote slot (createUnary L Op_Not (Some v) name ls) ls (I1 (\<not> c))"
    and "slot ls p = Some x \<Longrightarrow> emits L denote slot (createLoad L (type_of L x) p name ls) ls x"
  using assms unfolding code_law_def by - (elim conjE; metis)+

text \<open>What generating code for an expression in a state gives.\<close>

definition computes ::
    "('s, 'v, 't, 'f, 'b) llvm \<Rightarrow> ('s \<Rightarrow> 'v \<Rightarrow> rval option) \<Rightarrow> ('s \<Rightarrow> 'v \<Rightarrow> rval option)
      \<Rightarrow> NodeId \<Rightarrow> ('s, 'v, 't, 'f) Compiler \<Rightarrow> rval \<Rightarrow> bool" where
  "computes L denote slot i s z \<longleftrightarrow> (\<exists>v ls.
     codegen L i s = Some (Inr (Some v, s\<lparr>llvm_state := ls\<rparr>)) \<and> denote ls v = Some z \<and>
     keeps L denote slot (llvm_state s) ls)"

lemma computes_same:
  "codegen L i s = Some (Inr (Some v, s)) \<Longrightarrow> denote (llvm_state s) v = Some z \<Longrightarrow> computes L denote slot i s z"
  unfolding computes_def by (intro exI [of _ v] exI [of _ "llvm_state s"]) (simp add: keeps_refl)

text \<open>The code of the operands, then one instruction.\<close>

lemma computes_after:
  assumes "codegen L i s = cbnd (llvm_call g) (\<lambda>v. cret (Some v)) (s\<lparr>llvm_state := ls\<rparr>)"
    and "emits L denote slot (g ls) ls z" and "keeps L denote slot (llvm_state s) ls"
  shows "computes L denote slot i s z"
  using emits_call [of L denote slot g "s\<lparr>llvm_state := ls\<rparr>" z] assms
  by (auto simp: computes_def intro: keeps_trans)

lemma computes_identifier:
  assumes law: "code_law L denote slot" and i: "i \<noteq> kNullNode" "valid_id (ctree s) i"
    "is_kind (get (ctree s) i) IdentifierExpr"
    and x: "node_text (ctree s) (csource s) i = x" "x \<noteq> []"
    and vars: "holds_vars L denote slot (scopes s) (llvm_state s) env" "env x = Some z"
  shows "computes L denote slot i s z"
proof -
  have name: "getNodeSnippet i s = Some (Inr (x, s))" using getNodeSnippet_text [OF i(1,2)] x by simp
  obtain y v where y: "lookupVar (scopes s) x = Some y" "sym_value y = Some v"
      "slot (llvm_state s) v = Some z \<and> sym_type y = type_of L z \<or> denote (llvm_state s) v = Some z"
    using vars unfolding holds_vars_def by blast
  have run: "codegen L i s = (if isAlloca L v
      then cbnd (llvm_call (createLoad L (sym_type y) v x)) (\<lambda>l. cret (Some l)) s else cret (Some v) s)"
    unfolding codegen_dispatch(2) [OF i] using name y(1,2)
    by (simp add: codegenIdentifierExpr_def cbnd_def look_def deref_def cret_def)
  from y(3) show ?thesis
  proof
    assume slot: "slot (llvm_state s) v = Some z \<and> sym_type y = type_of L z"
    then have "isAlloca L v" and "emits L denote slot (createLoad L (sym_type y) v x (llvm_state s)) (llvm_state s) z"
      using code_lawD(6,10) [OF law] by auto
    then show ?thesis
      by (intro computes_after [of _ _ _ "createLoad L (sym_type y) v x" "llvm_state s"])
        (use run in \<open>simp_all add: keeps_refl\<close>)
  next
    assume "denote (llvm_state s) v = Some z"
    then show ?thesis using run code_lawD(5) [OF law] by (intro computes_same) (simp_all add: cret_def)
  qed
qed

lemma codegen_expr:
  assumes law: "code_law L denote slot" and "expr_rep nodes src i e"
    and "ctree s = nodes" and "csource s = src"
    and "holds_vars L denote slot (scopes s) (llvm_state s) env" and "rvalue env e = Some z"
  shows "computes L denote slot i s z"
  using assms(2-)
proof (induction i e arbitrary: s z rule: expr_rep.induct)
  case (num i n)
  then have "node_text (ctree s) (csource s) i \<noteq> []" by (auto simp: stoi_Nil)
  then have snip: "getNodeSnippet i s = Some (Inr (node_text nodes src i, s))"
    using num getNodeSnippet_text [of i s] by simp
  have "codegen L i s = Some (Inr (Some (getInt32 L (of_int n)), s))"
    using num snip
    by (simp add: codegen_dispatch(1) codegenLiteralExpr_def cbnd_def node_at_def cret_def literal_value_def throwing_def)
  then show ?case using num.prems(4) code_lawD(1) [OF law] by (auto intro: computes_same)
next
  case (bool i b)
  then have snip: "getNodeSnippet i s = Some (Inr (node_text nodes src i, s))"
    using getNodeSnippet_text [of i s] by simp
  have "codegen L i s = Some (Inr (Some (if b then getTrue L else getFalse L), s))"
    using bool snip has_op_unique [OF bool(4)]
    by (simp add: codegen_dispatch(1) codegenLiteralExpr_def cbnd_def node_at_def cret_def literal_value_def)
  then show ?case using bool.prems(4) code_lawD(2,3) [OF law] by (auto intro: computes_same)
next
  case (var i x)
  then show ?case using computes_identifier [OF law, of i s x env z] by simp
next
  case (neg i a)
  then obtain x where x: "rvalue env a = Some (I32 x)" "z = I32 (- x)" by (auto split: option.splits rval.splits)
  obtain v ls where v: "codegen L (word1 (get nodes i)) s = Some (Inr (Some v, s\<lparr>llvm_state := ls\<rparr>))"
      "denote ls v = Some (I32 x)" "keeps L denote slot (llvm_state s) ls"
    using neg.IH [OF neg.prems(1-3) x(1)] by (auto simp: computes_def)
  have "codegen L i s = cbnd (llvm_call (createUnary L Op_Neg (Some v) ''negtmp'')) (\<lambda>v. cret (Some v))
      (s\<lparr>llvm_state := ls\<rparr>)"
    using neg.hyps neg.prems(1) v(1) code_lawD(4) [OF law v(2)] has_op_unique [OF neg.hyps(4)]
    by (simp add: codegen_dispatch(3) codegenUnaryExpr_def cbnd_def node_at_def cret_def deref_def)
  then show ?case using code_lawD(8) [OF law v(2)] v(3) x(2) by (intro computes_after) simp_all
next
  case (not i a)
  then obtain c where c: "rvalue env a = Some (I1 c)" "z = I1 (\<not> c)" by (auto split: option.splits rval.splits)
  obtain v ls where v: "codegen L (word1 (get nodes i)) s = Some (Inr (Some v, s\<lparr>llvm_state := ls\<rparr>))"
      "denote ls v = Some (I1 c)" "keeps L denote slot (llvm_state s) ls"
    using not.IH [OF not.prems(1-3) c(1)] by (auto simp: computes_def)
  have "codegen L i s = cbnd (llvm_call (createUnary L Op_Not (Some v) ''nottmp'')) (\<lambda>v. cret (Some v))
      (s\<lparr>llvm_state := ls\<rparr>)"
    using not.hyps not.prems(1) v(1) has_op_unique [OF not.hyps(4)]
    by (simp add: codegen_dispatch(3) codegenUnaryExpr_def cbnd_def node_at_def cret_def)
  then show ?case using code_lawD(9) [OF law v(2)] v(3) c(2) by (intro computes_after) simp_all
next
  case (op i t a b)
  let ?n = "get nodes i"
  from op.prems(4) obtain x y where xy: "rvalue env a = Some (I32 x)" "rvalue env b = Some (I32 y)"
      "arith t x y = Some z"
    by (auto split: option.splits rval.splits)
  obtain l ls where l: "codegen L (word1 ?n) s = Some (Inr (Some l, s\<lparr>llvm_state := ls\<rparr>))"
      "denote ls l = Some (I32 x)" "keeps L denote slot (llvm_state s) ls"
    using op.IH(1) [OF op.prems(1-3) xy(1)] by (auto simp: computes_def)
  let ?s = "s\<lparr>llvm_state := ls\<rparr>"
  have "holds_vars L denote slot (scopes ?s) (llvm_state ?s) env"
    using holds_vars_keeps [OF op.prems(3) l(3)] by simp
  then have "computes L denote slot (word2 ?n) ?s (I32 y)"
    using op.IH(2) [of ?s "I32 y"] op.prems(1,2) xy(2) by simp
  then obtain r ls' where r: "codegen L (word2 ?n) ?s = Some (Inr (Some r, s\<lparr>llvm_state := ls'\<rparr>))"
      "denote ls' r = Some (I32 y)" "keeps L denote slot ls ls'"
    by (auto simp: computes_def)
  have l': "denote ls' l = Some (I32 x)" using l(2) r(3) by (simp add: keeps_def)
  obtain opcode name where o: "binary_op False ?n = Some (opcode, name)" "instr opcode x y = Some z"
    using binary_op_instr [OF op.hyps(4) xy(3)] by blast
  have "codegen L i s = cbnd (llvm_call (createBinary L opcode l r name)) (\<lambda>v. cret (Some v))
      (s\<lparr>llvm_state := ls'\<rparr>)"
    using op.hyps op.prems(1) l(1) r(1) o(1) code_lawD(4) [OF law l'] code_lawD(4) [OF law r(2)]
    by (simp add: codegen_dispatch(4) codegenBinaryExpr_def emit_binary_def cbnd_def node_at_def cret_def)
  then show ?case
    using code_lawD(7) [OF law l' r(2) o(2)] keeps_trans [OF l(3) r(3)] by (intro computes_after) simp_all
qed

text \<open>C34: Code of an expression. On an expression of integers, truth values, local variables and
constants with arithmetic, comparisons, minus and negation that has a value, \<open>codegen\<close> returns,
changes nothing but what it emits into LLVM, and the emitted code computes the value: in 32-bit two's
complement arithmetic, with signed comparisons and quotients rounded towards zero. The value
of every instruction emitted before stays.\<close>

theorem codegen_expression_value:
  assumes "code_law L denote slot" and "expr_rep (ctree s) (csource s) i e"
    and "holds_vars L denote slot (scopes s) (llvm_state s) env" and "rvalue env e = Some z"
  shows "\<exists>v ls. codegen L i s = Some (Inr (Some v, s\<lparr>llvm_state := ls\<rparr>)) \<and> denote ls v = Some z \<and>
    keeps L denote slot (llvm_state s) ls"
  using codegen_expr [OF assms(1,2) refl refl assms(3,4)] by (simp add: computes_def)

section \<open>Local variables\<close>

fun type_name :: "rval \<Rightarrow> string" where
  "type_name (I32 _) = ''int''"
| "type_name (I1 _) = ''bool''"

lemma resolve_type:
  assumes "i \<noteq> kNullNode" and "valid_id (ctree s) i" and "node_text (ctree s) (csource s) i = type_name z"
  shows "resolveType L i s = Some (Inr (type_of L z, s))"
  using getNodeSnippet_text [of i s] assms by (cases z) (simp_all add: resolveType_def cbnd_def cret_def)

lemma expr_rep_not_null: "expr_rep nodes src i e \<Longrightarrow> i \<noteq> kNullNode"
  by (auto elim: expr_rep.cases)

lemma memory_lawD:
  assumes "memory_law L denote slot"
  shows "\<exists>p ls'. createAlloca L fn ty name ls = Some (p, ls') \<and> isAlloca L p \<and> slot ls' p = None \<and>
      keeps L denote slot ls ls'"
    and "\<lbrakk>denote ls v = Some x; isAlloca L p\<rbrakk> \<Longrightarrow> \<exists>ls'. createStore L v p ls = Some ((), ls') \<and>
      slot ls' p = Some x \<and> current_function L ls' = current_function L ls \<and>
      (\<forall>u z. denote ls u = Some z \<longrightarrow> denote ls' u = Some z) \<and> (\<forall>q. q \<noteq> p \<longrightarrow> slot ls' q = slot ls q)"
  by (rule conjunct1 [OF assms [unfolded memory_law_def], rule_format])
    (rule conjunct2 [OF assms [unfolded memory_law_def], rule_format])

text \<open>A new slot with a value, in the current scope.\<close>

lemma declare_local_holds:
  assumes law: "memory_law L denote slot" and v: "denote (llvm_state s) v = Some z"
    and vars: "holds_vars L denote slot (scopes s) (llvm_state s) env" and sc: "scopes s \<noteq> []"
    and ty: "ty = type_of L z"
  shows "\<exists>p s'. declare_local L fn x ty c (Some v) s = Some (Inr (Some p, s')) \<and>
    slot (llvm_state s') p = Some z \<and>
    holds_vars L denote slot (scopes s') (llvm_state s') (env(x \<mapsto> z)) \<and>
    tl (scopes s') = tl (scopes s) \<and> keeps L denote slot (llvm_state s) (llvm_state s')"
proof -
  obtain top parents where top: "scopes s = top # parents" using sc by (cases "scopes s") auto
  obtain p ls1 where p: "createAlloca L fn ty x (llvm_state s) = Some (p, ls1)" "isAlloca L p"
      "slot ls1 p = None" "keeps L denote slot (llvm_state s) ls1"
    using memory_lawD(1) [OF law] by blast
  have v1: "denote ls1 v = Some z" using p(4) v by (simp add: keeps_def)
  obtain ls2 where ls2: "createStore L v p ls1 = Some ((), ls2)" "slot ls2 p = Some z"
      "current_function L ls2 = current_function L ls1"
      "\<forall>u z. denote ls1 u = Some z \<longrightarrow> denote ls2 u = Some z" "\<forall>q. q \<noteq> p \<longrightarrow> slot ls2 q = slot ls1 q"
    using memory_lawD(2) [OF law v1 p(2)] by blast
  have "slot ls2 q = Some y" if "slot ls1 q = Some y" for q y using that ls2(5) p(3) by (cases "q = p") auto
  then have "keeps L denote slot ls1 ls2" using ls2(3,4) by (simp add: keeps_def)
  with p(4) have keep: "keeps L denote slot (llvm_state s) ls2" by (rule keeps_trans)
  let ?sym = "\<lparr>sym_value = Some p, sym_type = ty, sym_isConst = c, sym_isCompileTime = False\<rparr>"
  let ?scs = "top\<lparr>symbols := (symbols top)(x \<mapsto> ?sym)\<rparr> # parents"
  have run: "declare_local L fn x ty c (Some v) s = Some (Inr (Some p, s\<lparr>llvm_state := ls2, scopes := ?scs\<rparr>))"
    using p(1) ls2(1) top
    by (simp add: declare_local_def cbnd_def cseq_def llvm_call_def declare_symbol_def update_scope_def cret_def)
  have "\<exists>y v. lookupVar ?scs x' = Some y \<and> sym_value y = Some v \<and>
      (slot ls2 v = Some w \<and> sym_type y = type_of L w \<or> denote ls2 v = Some w)"
    if "(env(x \<mapsto> z)) x' = Some w" for x' w
  proof (cases "x' = x")
    case True
    then show ?thesis using that ls2(2) ty by auto
  next
    case False
    then have "env x' = Some w" using that by simp
    moreover have "lookupVar ?scs x' = lookupVar (scopes s) x'" using False top by simp
    ultimately show ?thesis using holds_vars_keeps [OF vars keep] unfolding holds_vars_def by metis
  qed
  then have "holds_vars L denote slot ?scs ls2 (env(x \<mapsto> z))" unfolding holds_vars_def by blast
  with run ls2(2) keep top show ?thesis by auto
qed


text \<open>
  Only stack slots are loaded: an expression that names a variable whose value is anything else,
  as the global variables that \<open>declare_global\<close> makes, stands for the address and not for what is
  stored there.
\<close>

lemma global_used_as_address:
  assumes "i \<noteq> kNullNode" and "valid_id (ctree s) i" and "is_kind (get (ctree s) i) IdentifierExpr"
    and "node_text (ctree s) (csource s) i = x" and "x \<noteq> []"
    and "lookupVar (scopes s) x = Some y" and "sym_value y = Some g" and "\<not> isAlloca L g"
  shows "codegen L i s = Some (Inr (Some g, s))"
  using getNodeSnippet_text [OF assms(1,2)] assms(4-8)
  by (simp add: codegen_dispatch(2) [OF assms(1-3)] codegenIdentifierExpr_def cbnd_def look_def deref_def cret_def)

section \<open>An LLVM that computes\<close>

text \<open>
  A stand-in that runs the instructions as they are emitted: its state is the values of the
  instructions and the contents of the slots so far.
\<close>

datatype sval = SConst rval | SReg nat | SSlot nat

type_synonym run_state = "rval list \<times> rval option list"

definition value_of :: "run_state \<Rightarrow> sval \<Rightarrow> rval option" where
  "value_of ls v =
     (case v of
        SConst x \<Rightarrow> Some x
      | SReg n \<Rightarrow> if n < length (fst ls) then Some (fst ls ! n) else None
      | SSlot n \<Rightarrow> None)"

definition slot_of :: "run_state \<Rightarrow> sval \<Rightarrow> rval option" where
  "slot_of ls v = (case v of SSlot n \<Rightarrow> if n < length (snd ls) then snd ls ! n else None | _ \<Rightarrow> None)"

definition put :: "rval \<Rightarrow> run_state \<Rightarrow> (sval \<times> run_state) option" where
  "put x ls = Some (SReg (length (fst ls)), fst ls @ [x], snd ls)"

definition run_binary :: "binop \<Rightarrow> sval \<Rightarrow> sval \<Rightarrow> run_state \<Rightarrow> (sval \<times> run_state) option" where
  "run_binary opcode l r ls =
     (case (value_of ls l, value_of ls r) of
        (Some (I32 x), Some (I32 y)) \<Rightarrow> (case instr opcode x y of Some z \<Rightarrow> put z ls | None \<Rightarrow> None)
      | _ \<Rightarrow> None)"

definition run_unary :: "unop \<Rightarrow> sval option \<Rightarrow> run_state \<Rightarrow> (sval \<times> run_state) option" where
  "run_unary opcode v ls =
     (case (opcode, Option.bind v (value_of ls)) of
        (Op_Neg, Some (I32 x)) \<Rightarrow> put (I32 (- x)) ls
      | (Op_Not, Some (I1 b)) \<Rightarrow> put (I1 (\<not> b)) ls
      | _ \<Rightarrow> None)"

definition run_store :: "sval \<Rightarrow> sval \<Rightarrow> run_state \<Rightarrow> (unit \<times> run_state) option" where
  "run_store v p ls =
     (case (p, value_of ls v) of
        (SSlot n, Some x) \<Rightarrow> Some ((), fst ls,
           (snd ls @ replicate (Suc n - length (snd ls)) None)[n := Some x])
      | _ \<Rightarrow> None)"

definition value_llvm :: "(run_state, sval, string, unit, unit) llvm" where
  "value_llvm = \<lparr>int32Ty = ''i32'', floatTy = ''float'', int1Ty = ''i1'', int8Ty = ''i8'', voidTy = ''void'',
     isFloatTy = (\<lambda>ty. ty = ''float''), isVoidTy = (\<lambda>ty. ty = ''void''), getType = (\<lambda>_. ''i32''),
     getInt32 = (\<lambda>n. SConst (I32 n)), getTrue = SConst (I1 True), getFalse = SConst (I1 False),
     constantFP = (\<lambda>bits. SConst (I32 bits)), getNullValue = (\<lambda>_. Some (SConst (I32 0))),
     isConstant = (\<lambda>v. case v of SConst _ \<Rightarrow> True | _ \<Rightarrow> False),
     isAlloca = (\<lambda>v. case v of SSlot _ \<Rightarrow> True | _ \<Rightarrow> False),
     foldBinary = (\<lambda>opcode l r ls. None), createBinary = (\<lambda>opcode l r _. run_binary opcode l r),
     createUnary = (\<lambda>opcode v _. run_unary opcode v),
     createAlloca = (\<lambda>_ _ _ ls. Some (SSlot (length (snd ls)), fst ls, snd ls @ [None])),
     createStore = run_store,
     createLoad = (\<lambda>_ p _ ls. case slot_of ls p of Some x \<Rightarrow> put x ls | None \<Rightarrow> None),
     createGlobal = (\<lambda>_ _ _ _ _. None), createFunction = (\<lambda>_ _ _ _. None),
     createBlock = (\<lambda>_ _ _. None), insertBlock = (\<lambda>_ _ _. None), setInsertPoint = (\<lambda>_ _. None),
     getInsertBlock = (\<lambda>_. Some ()), getParent = (\<lambda>_ _. Some ()), hasTerminator = (\<lambda>_ _. False),
     createRet = (\<lambda>_ _. None), createRetVoid = (\<lambda>_. None), createCondBr = (\<lambda>_ _ _ _. None),
     createBr = (\<lambda>_ _. None), getFunction = (\<lambda>_ _. None), getReturnType = (\<lambda>_. ''i32''),
     createCall = (\<lambda>_ _ _ _. None), functionValue = (\<lambda>_. SConst (I32 0)),
     verifyFunction = (\<lambda>_ _. None), stof = (\<lambda>_. None)\<rparr>"

lemma value_llvm_calls:
  "createBinary value_llvm opcode l r name = run_binary opcode l r"
  "createUnary value_llvm uop v name = run_unary uop v"
  "createLoad value_llvm ty p name = (\<lambda>ls. case slot_of ls p of Some x \<Rightarrow> put x ls | None \<Rightarrow> None)"
  "createAlloca value_llvm fn ty name = (\<lambda>ls. Some (SSlot (length (snd ls)), fst ls, snd ls @ [None]))"
  "createStore value_llvm = run_store"
  by (simp_all add: value_llvm_def)

lemma value_llvm_function: "current_function value_llvm ls = Some ()"
  by (simp add: current_function_def value_llvm_def)

lemma put_emits: "emits value_llvm value_of slot_of (put x ls) ls x"
  by (auto simp: emits_def keeps_def put_def value_of_def slot_of_def value_llvm_function nth_append
      split: sval.splits)

lemma value_llvm_code: "code_law value_llvm value_of slot_of"
  unfolding code_law_def
proof (intro conjI allI impI)
  fix ls :: run_state and v p l r x y z opcode name b w
  show "value_of ls (getInt32 value_llvm w) = Some (I32 w)" "value_of ls (getTrue value_llvm) = Some (I1 True)"
    "value_of ls (getFalse value_llvm) = Some (I1 False)"
    by (simp_all add: value_of_def value_llvm_def)
  show "\<not> isFloatTy value_llvm (getType value_llvm v)" by (simp add: value_llvm_def)
  show "\<not> isAlloca value_llvm v" if "value_of ls v = Some x"
    using that by (simp add: value_of_def value_llvm_def split: sval.splits)
  show "isAlloca value_llvm p" if "slot_of ls p = Some x"
    using that by (simp add: slot_of_def value_llvm_def split: sval.splits)
  show "emits value_llvm value_of slot_of (createBinary value_llvm opcode l r name ls) ls z"
    if "value_of ls l = Some (I32 x)" "value_of ls r = Some (I32 y)" "instr opcode x y = Some z" for x y
    using that by (simp add: value_llvm_calls run_binary_def put_emits)
  show "emits value_llvm value_of slot_of (createUnary value_llvm Op_Neg (Some v) name ls) ls (I32 (- x))"
    if "value_of ls v = Some (I32 x)" for x
    using that by (simp add: value_llvm_calls run_unary_def put_emits)
  show "emits value_llvm value_of slot_of (createUnary value_llvm Op_Not (Some v) name ls) ls (I1 (\<not> b))"
    if "value_of ls v = Some (I1 b)"
    using that by (simp add: value_llvm_calls run_unary_def put_emits)
  show "emits value_llvm value_of slot_of (createLoad value_llvm (type_of value_llvm x) p name ls) ls x"
    if "slot_of ls p = Some x"
    using that by (simp add: value_llvm_calls put_emits)
qed

lemma slot_grow: "slot_of (rs, ss @ replicate k None) q = slot_of (rs, ss) q"
  by (auto simp: slot_of_def nth_append split: sval.splits)

lemma value_llvm_memory: "memory_law value_llvm value_of slot_of"
  unfolding memory_law_def
proof (intro conjI allI impI)
  fix fn :: unit and ty name and ls :: run_state
  let ?p = "SSlot (length (snd ls))" and ?ls = "(fst ls, snd ls @ [None])"
  have "keeps value_llvm value_of slot_of ls ?ls"
    by (auto simp: keeps_def value_of_def slot_of_def value_llvm_function nth_append split: sval.splits)
  then show "\<exists>p ls'. createAlloca value_llvm fn ty name ls = Some (p, ls') \<and> isAlloca value_llvm p \<and>
      slot_of ls' p = None \<and> keeps value_llvm value_of slot_of ls ls'"
    by (intro exI [of _ ?p] exI [of _ ?ls]) (simp add: value_llvm_calls, simp add: value_llvm_def slot_of_def)
next
  fix v p and ls :: run_state and x
  assume v: "value_of ls v = Some x" and p: "isAlloca value_llvm p"
  then obtain n where n: "p = SSlot n" by (auto simp: value_llvm_def split: sval.splits)
  let ?ss = "snd ls @ replicate (Suc n - length (snd ls)) None" and ?ls = "(fst ls, (snd ls @ replicate (Suc n - length (snd ls)) None)[n := Some x])"
  have "createStore value_llvm v p ls = Some ((), ?ls)"
    using v n by (simp add: value_llvm_calls run_store_def)
  moreover have "slot_of ?ls p = Some x" by (simp add: n slot_of_def)
  moreover have "slot_of ?ls q = slot_of ls q" if "q \<noteq> p" for q
  proof -
    have "slot_of ?ls q = slot_of (fst ls, ?ss) q" using that n by (auto simp: slot_of_def nth_list_update split: sval.splits)
    then show ?thesis by (simp add: slot_grow)
  qed
  moreover have "value_of ?ls u = value_of ls u" for u by (simp add: value_of_def split: sval.splits)
  ultimately show "\<exists>ls'. createStore value_llvm v p ls = Some ((), ls') \<and> slot_of ls' p = Some x \<and>
      current_function value_llvm ls' = current_function value_llvm ls \<and>
      (\<forall>u z. value_of ls u = Some z \<longrightarrow> value_of ls' u = Some z) \<and>
      (\<forall>q. q \<noteq> p \<longrightarrow> slot_of ls' q = slot_of ls q)"
    by (intro exI [of _ ?ls]) (simp add: value_llvm_function)
qed

section \<open>Instances\<close>

definition expr_operators :: "TokenType list" where
  "expr_operators = [Plus, Minus, Star, Slash, EEquals, NEquals, Lesser, LeEquals, Greater, GrEquals]"

text \<open>The expression of a node, read from the tree.\<close>

fun read_expr :: "nat \<Rightarrow> Node list \<Rightarrow> string \<Rightarrow> NodeId \<Rightarrow> rexp option" where
  "read_expr 0 nodes src i = None"
| "read_expr (Suc k) nodes src i =
     (let n = get nodes i; text = node_text nodes src i
      in if i = kNullNode \<or> \<not> valid_id nodes i then None
         else if is_kind n LiteralExpr then
           (if has_op n LInt then (case stoi text of Inr m \<Rightarrow> Some (RNum m) | Inl _ \<Rightarrow> None)
            else if text = [] then None
            else if has_op n kTrue then Some (RBool True)
            else if has_op n kFalse then Some (RBool False) else None)
         else if is_kind n IdentifierExpr then (if text = [] then None else Some (RVar text))
         else if is_kind n UnaryExpr then
           (if has_op n Minus then map_option RNeg (read_expr k nodes src (word1 n))
            else if has_op n Excl then map_option RNot (read_expr k nodes src (word1 n)) else None)
         else if is_kind n BinaryExpr then
           (case List.find (has_op n) expr_operators of
              None \<Rightarrow> None
            | Some t \<Rightarrow> Option.bind (read_expr k nodes src (word1 n)) (\<lambda>a.
                map_option (ROp t a) (read_expr k nodes src (word2 n))))
         else None)"

lemma read_expr_rep: "read_expr k nodes src i = Some e \<Longrightarrow> expr_rep nodes src i e"
proof (induction k arbitrary: i e)
  case (Suc k)
  have find: "has_op n t" if "List.find (has_op n) expr_operators = Some t" for n t
    using that by (auto simp: find_Some_iff)
  from Suc.prems show ?case
    by (auto simp: Let_def Option.bind_eq_Some_conv split: if_splits sum.splits option.splits
        intro: expr_rep.intros dest!: Suc.IH find)
qed simp

text \<open>The state in which a source is compiled inside a function whose variable \<open>x\<close> holds 4.\<close>

definition body_state :: "Node list \<Rightarrow> string \<Rightarrow> (run_state, sval, string, unit) Compiler" where
  "body_state nodes src =
     \<lparr>ctree = nodes, csource = src, llvm_state = ([], [Some (I32 4)]),
      scopes = [empty_scope\<lparr>symbols := [''x'' \<mapsto> \<lparr>sym_value = Some (SSlot 0), sym_type = ''i32'',
        sym_isConst = False, sym_isCompileTime = False\<rparr>]\<rparr>]\<rparr>"

lemma body_state_holds:
  "holds_vars value_llvm value_of slot_of (scopes (body_state nodes src)) (llvm_state (body_state nodes src))
    [''x'' \<mapsto> I32 4]"
  by (simp add: holds_vars_def body_state_def slot_of_def empty_scope_def) (simp add: value_llvm_def)

theorem codegen_expression_value_witness:
  "case parse_source ''x * (2 + 3) < 20;'' of
     Some (Inr nodes) \<Rightarrow>
       (\<exists>v ls s'. codegen value_llvm 7 (body_state nodes ''x * (2 + 3) < 20;'') = Some (Inr (Some v, s')) \<and>
          llvm_state s' = ls \<and> value_of ls v = Some (I1 False))
   | _ \<Rightarrow> False"
proof -
  let ?src = "''x * (2 + 3) < 20;''"
  let ?e = "ROp Lesser (ROp Star (RVar ''x'') (ROp Plus (RNum 2) (RNum 3))) (RNum 20)"
  have "case parse_source ?src of Some (Inr nodes) \<Rightarrow> read_expr 4 nodes ?src 7 = Some ?e | _ \<Rightarrow> False"
    by code_simp
  then obtain nodes where nodes: "parse_source ?src = Some (Inr nodes)" "read_expr 4 nodes ?src 7 = Some ?e"
    by (auto split: option.splits sum.splits)
  let ?s = "body_state nodes ?src"
  have rep: "expr_rep (ctree ?s) (csource ?s) 7 ?e"
    using read_expr_rep [OF nodes(2)] by (simp add: body_state_def)
  have val: "rvalue [''x'' \<mapsto> I32 4] ?e = Some (I1 False)" by (simp add: arith_def)
  show ?thesis
    using codegen_expression_value [OF value_llvm_code rep body_state_holds val] nodes(1) by auto
qed


end
