(* ===== verification/Spec2Isabelle.thy ===== *)
theory Spec2Isabelle
  imports Lexer_Props AST_Manager Parser_Prec Driver Type_Flags Type_Store Compiler_Code
begin

text \<open>
  A verification of the front end of the Logic compiler (\<open>src/Logic_compiler/src\<close>).

  \<^bold>\<open>The program.\<close> A source file goes through the preprocessor (\<open>preproc/\<close>), which reads files
  through the file manager (\<open>file/\<close>), follows directives and expands macros into an output buffer.
  A text is read by the lexer (\<open>lexer/\<close>), whose tokens (\<open>common/token/\<close>) the parser (\<open>parser/\<close>) takes
  one by one through a window of two tokens to build a syntax tree (\<open>common/AST/\<close>), a table of nodes
  that refer to each other by index. The tree can be saved, loaded and dumped (\<open>AST_manager\<close>) and is
  translated to LLVM by the compiler (\<open>compiler/\<close>). The type tables (\<open>typer/\<close>) are not used by the
  other parts yet. \<open>common/common_def.h\<close> and \<open>common/hashing.h\<close> serve all of them. A theory models
  each header and source file in the order of its code; the theories that state results follow it.

  \<^bold>\<open>Shared.\<close> \<open>Prelude\<close>: names of the machine integers, words, lists as containers and the contract
  \<open>paged_vector\<close> of \<open>cc::OsPagedVector\<close>. \<open>Common_Def\<close>: powers of two, FNV hashing, and the two
  tables of identifier characters, which accept the same characters.

  \<^bold>\<open>Tokens and lexer.\<close> \<open>Token_Def\<close>: the kinds, their spellings, the record \<open>Token\<close> and the hash
  switch \<open>string_map\<close>; \<open>Token_Map\<close>: the switch equals a search of the spellings, no two of which
  have the same hash. \<open>Lexer\<close>: the class \<open>Lexer\<close> as a record (source, cursor, token buffer), every
  operation a function on it. \<open>Lexer_Spec\<close>: a reference lexer on character lists and the refinement
  of \<open>nextToken\<close> to it; \<open>Lexer_Props\<close>: progress, texts and kinds of tokens, longest match.

  \<^bold>\<open>Tree and parser.\<close> \<open>AST_Def\<close>: the node with its union as three raw words, \<open>createNode\<close> and
  \<open>get\<close>; \<open>AST_Manager\<close>: the file format, which is read back as it was written and never from a
  truncated file, and the dump. \<open>Parser\<close>: the state (lexer, window, tree) and every \<open>parse...\<close>
  method in a monad of state and syntax errors. \<open>Parser_Spec\<close>: verification conditions and total
  correctness of the handlers, under the induction hypothesis of the recursion (locale
  \<open>parser_calls\<close>, interpreted by the parser itself); \<open>Parser_Props\<close>: the parser returns on every
  source, with a well-formed tree or an error at a token's line and column; \<open>Parser_Prec\<close>:
  precedence climbing builds the tree of a stratified expression grammar.

  \<^bold>\<open>Files and preprocessor.\<close> \<open>File_Manager\<close>: the buffer that holds the names and contents of all
  files, refined to a list of named files. \<open>Preproc_Token\<close>: directives by hash, packed names.
  \<open>Preprocessor\<close> and \<open>Preproc_Handlers\<close>: the state (input stack, macros, branch flags, output),
  the searches, one function per directive and the main loop \<open>process\<close>. \<open>Preproc_Text\<close> states the
  searches on the text that is left of a frame. \<open>Preproc_Expand\<close>: text without directives is
  expanded as a reference function says. \<open>Preproc_Inv\<close>, \<open>Preproc_Safe\<close>: progress of every turn,
  the invariant that all frames and macros lie in the buffer, in every reachable state, and what
  it takes for \<open>process\<close> not to return. \<open>Preproc_Directives\<close>, \<open>Preproc_Cond\<close>,
  \<open>Preproc_Branch\<close>: what \<open>#define\<close>, \<open>#include\<close>, \<open>#skip\<close>, \<open>#ifndef\<close>, and \<open>#if\<close> with \<open>#else\<close> do to the
  text that follows; \<open>Preproc_Lines\<close>: the other directives, and all forms of a definition, on text;
  \<open>Preproc_Props\<close>: when conditions return, and runs on whole files. \<open>Preproc_Machine\<close> puts these
  together: a machine whose state is the texts left of the open files, the macros as text, the named
  files, the branch flags and the text written, with one rule per directive (\<open>text_step\<close>), and the
  proof that \<open>process\<close> refines it; \<open>Preproc_Runs\<close>: the directives that end a run with an error, from
  any state of the machine, a run through nested files and conditionals, and \<open>#param\<close>.
  The machine has no rule, and so says nothing, for directives that are cut off by the end of the
  file, for skipped text with a quote inside a literal, and for conditions that do not return.
  \<open>Driver\<close>: the program \<open>Logic_compiler.cpp\<close>,
  which runs the preprocessor on a file and reports the length of the output.

  \<^bold>\<open>Types.\<close> \<open>Type_Flags\<close>: flag codes, their table, \<open>getData\<close>. \<open>Type_Def\<close>: the entry \<open>TypeLean\<close> and
  the registry \<open>TypeList\<close>, which stays well typed; \<open>Type_Arena\<close>: records in a bump allocator,
  refined to a list of records; \<open>Type_Store\<close>: registry and arena share a contract (locale
  \<open>scoped_store\<close>), from which leaving a scope restores both.

  \<^bold>\<open>Compiler.\<close> \<open>Compiler\<close>: scopes as a stack, the evaluator of constant expressions and every
  \<open>codegen...\<close> method. \<open>Compiler_Inv\<close>: rules that carry an invariant and termination through the
  handlers; the locale \<open>scope_invariant\<close> is what an invariant must satisfy at the operations on
  scopes. \<open>Compiler_Props\<close>: scopes nest, compilation returns on trees without blocks, which
  programs are never compiled, and why; \<open>Compiler_Const\<close>: a \<open>constexpr\<close> variable gets the 32-bit
  value of its initialiser; \<open>Compiler_Code\<close>: the code emitted for an expression computes its value,
  and a local variable holds the value of its initialiser.

  \<^bold>\<open>How the code is represented.\<close> Classes are records, machine integers are words of their width
  and wrap, text is a list of bytes as characters. Exceptions, error codes and early returns are
  values of sum and option types; an access that is undefined in C++ is \<open>None\<close> or a \<open>Crash\<close>. There
  is no fuel: loops that move a cursor on are total functions with a measure, the mutual recursions
  of parser and compiler, \<open>evalCondition\<close> and \<open>process\<close> are partial functions in \<open>option\<close> where
  \<open>None\<close> is not returning; the results prove when they return, and the runs where they do not.
  Sizes: sources below \<open>2 ^ 30 - 4\<close> bytes keep every node index of a parsed tree below the null
  index \<open>2 ^ 32 - 1\<close>; the file buffer and the type tables stay below \<open>2 ^ 32\<close> entries; fewer than
  65535 opening parentheses in a file keep the 16-bit depth of \<open>#param\<close> exact, as does a nesting
  below 65535 for skipped conditionals.

  \<^bold>\<open>Parameters.\<close> The files are a function from paths to contents; an unread byte of a grown buffer
  is a parameter \<open>fill\<close>. LLVM is the record \<open>llvm\<close> of the operations the compiler calls, over any
  state; \<open>std::stof\<close> is one of them. What a result needs of LLVM is a named hypothesis of it: that
  a load is no stack slot (\<open>load_law\<close>), that constants are folded in 32-bit arithmetic
  (\<open>fold_law\<close>), what the instructions compute and where they store it (\<open>code_law\<close>, \<open>memory_law\<close>),
  that a block in a function is not inserted again (\<open>attach_law\<close>). The instances \<open>sample_llvm\<close>,
  \<open>folding_llvm\<close>, \<open>value_llvm\<close> and \<open>attaching_llvm\<close> satisfy them.

  \<^bold>\<open>Not modelled.\<close> The functions that only print (\<open>print\<close>, \<open>dumpIR\<close>, \<open>emitIRToFile\<close>, the log of the
  preprocessor): pure output. \<open>typer.cpp\<close>, \<open>evaluator\<close>,
  \<open>runtime\<close>, \<open>comptime\<close> and \<open>modules\<close> are empty files. Copying and moving of the classes, and
  writes through the references that the type tables hand out, have no caller. LLVM's headers under
  \<open>extra/\<close> are third-party code.
\<close>

end
